(* ===== verification/Unsync_Prelude.thy ===== *)
theory Unsync_Prelude
  imports Main "HOL-Library.Word" "HOL-Library.Finite_Map"
begin

text \<open>
  The vocabulary every component shares: the faults a Rust call can end in, the two
  standard-library result types the crate returns (\<open>Poll\<close> and \<open>Result\<close>), \<open>usize\<close> as a
  64-bit word with the checked and the overflow-checked operations the crate uses, finite
  stores addressed by pointers, and reachability with the invariant rule.
\<close>

section \<open>Faults and sequencing\<close>

text \<open>
  A call that does not return normally ends in a fault.  \<open>Panic\<close> carries the message of
  the panic, \<open>Abort\<close> is \<open>utils::abort\<close>, and \<open>Dangling\<close> marks what would be
  undefined behaviour in Rust: an access through a pointer to memory that is not allocated,
  or a read of the inactive field of a \<open>union\<close>.
\<close>

datatype fault = Panic string | Abort | Dangling

type_synonym 'a res = "fault + 'a"

definition and_then :: "'a res \<Rightarrow> ('a \<Rightarrow> 'b res) \<Rightarrow> 'b res" where
  "and_then m f = (case m of Inl e \<Rightarrow> Inl e | Inr x \<Rightarrow> f x)"

lemma and_then_simps [simp]:
  "and_then (Inl e) f = Inl e"
  "and_then (Inr x) f = f x"
  by (simp_all add: and_then_def)

lemma and_then_eq_Inr:
  "and_then m f = Inr y \<longleftrightarrow> (\<exists>x. m = Inr x \<and> f x = Inr y)"
  by (cases m) auto

lemma and_then_eq_Inl:
  "and_then m f = Inl e \<longleftrightarrow> m = Inl e \<or> (\<exists>x. m = Inr x \<and> f x = Inl e)"
  by (cases m) auto

lemma and_then_assoc: "and_then (and_then m f) g = and_then m (\<lambda>x. and_then (f x) g)"
  by (cases m) auto

lemma and_then_cong [fundef_cong]:
  assumes "m = m'" and "\<And>x. m' = Inr x \<Longrightarrow> f x = f' x"
  shows "and_then m f = and_then m' f'"
  using assms by (cases m') auto

text \<open>
  Unwinding: when \<open>m\<close> panics, the destructors of the live locals (\<open>cleanup\<close>) run before the
  panic leaves the function.  A panic inside a destructor that runs while unwinding aborts.
\<close>

definition on_panic :: "'a res \<Rightarrow> 'b res \<Rightarrow> 'a res" where
  "on_panic m cleanup =
     (case m of
        Inl (Panic msg) \<Rightarrow>
          (case cleanup of
             Inl (Panic _) \<Rightarrow> Inl Abort
           | Inl e \<Rightarrow> Inl e
           | Inr _ \<Rightarrow> Inl (Panic msg))
      | _ \<Rightarrow> m)"

lemma on_panic_simps [simp]:
  "on_panic (Inr x) c = Inr x"
  "on_panic (Inl Abort) c = Inl Abort"
  "on_panic (Inl (Panic msg)) (Inl Abort) = Inl Abort"
  "on_panic (Inl (Panic msg)) (Inr y) = Inl (Panic msg)"
  by (simp_all add: on_panic_def)

text \<open>\<open>assert!\<close>, for the unit tests of the crate, which are run on the model.\<close>

definition assert_that :: "bool \<Rightarrow> 'a \<Rightarrow> 'a res" where
  "assert_that b x = (if b then Inr x else Inl (Panic ''assertion failed''))"

lemma assert_that_eq_Inr: "assert_that b x = Inr y \<longleftrightarrow> b \<and> y = x"
  by (auto simp: assert_that_def)

lemma assert_that_True [simp]: "assert_that True x = Inr x"
  by (simp add: assert_that_def)

section \<open>Standard-library result types\<close>

datatype 'a poll = Ready 'a | Pending

datatype ('a, 'e) result = Ok 'a | Err 'e

text \<open>
  A \<open>Waker\<close> is named by a number, which stands for the data pointer and the vtable
  that \<open>Waker::will_wake\<close> compares.
\<close>

type_synonym waker = nat

definition will_wake :: "waker \<Rightarrow> waker \<Rightarrow> bool" where
  "will_wake w v \<longleftrightarrow> w = v"

text \<open>
  The systems below remember the waker of a task that was told to wait (\<open>Pending\<close>) until a call
  of that waker wakes it; \<open>calls\<close> are the wakers called by a step.
\<close>

definition roused :: "waker list \<Rightarrow> waker option \<Rightarrow> waker option" where
  "roused calls w = (case w of None \<Rightarrow> None | Some k \<Rightarrow> if k \<in> set calls then None else Some k)"

lemma roused_simps [simp]:
  "roused [] w = w" "roused ks None = None" "roused [k] (Some k) = None" "roused (case w of None \<Rightarrow> [] | Some k \<Rightarrow> [k]) w = None"
  by (auto simp: roused_def split: option.split)

lemma roused_Some: "roused ks w \<noteq> None \<Longrightarrow> roused ks w = w"
  by (auto simp: roused_def split: option.splits if_splits)

section \<open>Machine integers\<close>

type_synonym usize = "64 word"

definition usize_max :: usize where
  "usize_max = 0xFFFFFFFFFFFFFFFF"

definition checked_add :: "usize \<Rightarrow> usize \<Rightarrow> usize option" where
  "checked_add x y = (if unat x + unat y < 2 ^ 64 then Some (x + y) else None)"

definition checked_sub :: "usize \<Rightarrow> usize \<Rightarrow> usize option" where
  "checked_sub x y = (if y \<le> x then Some (x - y) else None)"

text \<open>
  The plain operators \<open>+\<close> and \<open>-\<close> of Rust: a debug build panics where a release build
  wraps.  The model takes the panic, and the invariants show it is never reached, so both
  builds compute the same value.
\<close>

definition usize_add :: "usize \<Rightarrow> usize \<Rightarrow> usize res" where
  "usize_add x y =
     (case checked_add x y of Some z \<Rightarrow> Inr z | None \<Rightarrow> Inl (Panic ''attempt to add with overflow''))"

definition usize_sub :: "usize \<Rightarrow> usize \<Rightarrow> usize res" where
  "usize_sub x y =
     (case checked_sub x y of Some z \<Rightarrow> Inr z | None \<Rightarrow> Inl (Panic ''attempt to subtract with overflow''))"

lemma unat_usize_less: "unat (x :: usize) < 2 ^ 64"
  using unsigned_less [of x] by simp

lemma unat_add_no_wrap: "unat x + unat y < 2 ^ 64 \<Longrightarrow> unat (x + y :: usize) = unat x + unat y"
  using unat_add_lem [of x y] by simp

lemma unat_sub_no_wrap: "y \<le> x \<Longrightarrow> unat (x - y :: usize) = unat x - unat y"
  by (simp add: unat_sub)

lemma usize_le_iff: "(x :: usize) \<le> y \<longleftrightarrow> unat x \<le> unat y"
  by (simp add: word_le_nat_alt)

lemma unat_usize_max: "unat usize_max = 2 ^ 64 - 1"
  by (simp add: usize_max_def)

lemma checked_add_eq_Some:
  "checked_add x y = Some z \<longleftrightarrow> unat z = unat x + unat y"
  using unat_usize_less [of z] unat_add_no_wrap [of x y]
  by (auto simp: checked_add_def word_unat_eq_iff)

lemma checked_sub_eq_Some:
  "checked_sub x y = Some z \<longleftrightarrow> unat y \<le> unat x \<and> unat z = unat x - unat y"
  using unat_sub_no_wrap [of y x]
  by (auto simp: checked_sub_def usize_le_iff word_unat_eq_iff)

lemma checked_sub_eq_None: "checked_sub x y = None \<longleftrightarrow> unat x < unat y"
  by (auto simp: checked_sub_def usize_le_iff)

lemma usize_add_eq_Inr: "usize_add x y = Inr z \<longleftrightarrow> unat z = unat x + unat y"
  by (cases "checked_add x y") (auto simp: usize_add_def checked_add_eq_Some [symmetric])

lemma usize_add_Inr:
  "unat x + unat y < 2 ^ 64 \<Longrightarrow> usize_add x y = Inr (x + y)"
  by (simp add: usize_add_def checked_add_def)

lemma usize_sub_Inr: "unat y \<le> unat x \<Longrightarrow> usize_sub x y = Inr (x - y)"
  by (simp add: usize_sub_def checked_sub_def usize_le_iff)

text \<open>The test for overflow that evaluation uses.\<close>

lemma checked_add_code [code]: "checked_add x y = (if x \<le> x + y then Some (x + y) else None)"
proof -
  have "x \<le> x + y \<longleftrightarrow> unat x + unat y < 2 ^ 64"
    using unat_usize_less [of x] unat_usize_less [of y]
    by (auto simp: usize_le_iff unat_word_ariths mod_if)
  then show ?thesis by (simp add: checked_add_def)
qed

section \<open>Memory addressed by pointers\<close>

type_synonym addr = nat

type_synonym 'n store = "(addr, 'n) fmap"

definition deref :: "addr \<Rightarrow> 'n store \<Rightarrow> 'n res" where
  "deref a h = (case fmlookup h a of None \<Rightarrow> Inl Dangling | Some n \<Rightarrow> Inr n)"

definition modify :: "addr \<Rightarrow> ('n \<Rightarrow> 'n) \<Rightarrow> 'n store \<Rightarrow> 'n store res" where
  "modify a f h = (case fmlookup h a of None \<Rightarrow> Inl Dangling | Some n \<Rightarrow> Inr (fmupd a (f n) h))"

lemma deref_lookup [simp]: "fmlookup h a = Some n \<Longrightarrow> deref a h = Inr n"
  by (simp add: deref_def)

lemma modify_lookup [simp]: "fmlookup h a = Some n \<Longrightarrow> modify a f h = Inr (fmupd a (f n) h)"
  by (simp add: modify_def)

lemma fmupd_idle: "fmlookup h a = Some n \<Longrightarrow> fmupd a n h = h"
  by (rule fmap_ext) auto

section \<open>Lists of entries\<close>

lemma filter_fst_neq: "a \<notin> fst ` set xs \<Longrightarrow> filter (\<lambda>e. fst e \<noteq> a) xs = xs"
  by (force simp: filter_id_conv)

section \<open>Sums over the entries of a finite map\<close>

definition sum_over :: "('a \<Rightarrow> 'b \<Rightarrow> nat) \<Rightarrow> ('a \<Rightarrow> 'b option) \<Rightarrow> nat" where
  "sum_over g m = (\<Sum>a\<in>dom m. g a (the (m a)))"

lemma sum_over_empty [simp]: "sum_over g Map.empty = 0"
  by (simp add: sum_over_def)

lemma sum_over_upd:
  assumes "finite (dom m)" and "m a = None"
  shows "sum_over g (m(a \<mapsto> v)) = sum_over g m + g a v"
proof -
  from assms(2) have a: "a \<notin> dom m" by (simp add: domIff)
  then have "(\<Sum>b\<in>dom m. g b (the ((m(a \<mapsto> v)) b))) = (\<Sum>b\<in>dom m. g b (the (m b)))"
    by (intro sum.cong refl) auto
  with assms(1) a show ?thesis by (simp add: sum_over_def)
qed

lemma sum_over_remove:
  assumes "finite (dom m)" and "m a = Some v"
  shows "sum_over g m = sum_over g (m(a := None)) + g a v"
proof -
  have "sum_over g ((m(a := None))(a \<mapsto> v)) = sum_over g (m(a := None)) + g a v"
    by (rule sum_over_upd) (use assms in auto)
  then show ?thesis using assms(2) by (simp add: fun_upd_idem)
qed

lemma sum_over_cong:
  "m = m' \<Longrightarrow> (\<And>a v. m' a = Some v \<Longrightarrow> g a v = g' a v) \<Longrightarrow> sum_over g m = sum_over g' m'"
  by (auto simp: sum_over_def intro!: sum.cong)

lemma sum_over_map_of:
  assumes "finite (dom m)" and "distinct (map fst kvs)" and "\<And>a. a \<in> fst ` set kvs \<Longrightarrow> m a = None"
  shows "sum_over g (m ++ map_of kvs) = sum_over g m + (\<Sum>(a, v)\<leftarrow>kvs. g a v)"
  using assms
proof (induction kvs)
  case Nil
  then show ?case by simp
next
  case (Cons kv kvs)
  obtain a v where kv: "kv = (a, v)" by (cases kv)
  have "(m ++ map_of kvs) a = None"
    using Cons.prems kv by (auto simp: map_add_None map_of_eq_None_iff)
  moreover have "finite (dom (m ++ map_of kvs))"
    using Cons.prems by (simp add: finite_dom_map_of)
  moreover have "m ++ map_of ((a, v) # kvs) = (m ++ map_of kvs)(a \<mapsto> v)"
    by (rule ext) (simp add: map_add_def)
  ultimately have "sum_over g (m ++ map_of (kv # kvs)) = sum_over g (m ++ map_of kvs) + g a v"
    unfolding kv by (simp only: sum_over_upd)
  also have "sum_over g (m ++ map_of kvs) = sum_over g m + (\<Sum>(a, v)\<leftarrow>kvs. g a v)"
    using Cons by auto
  finally show ?case using kv by (simp del: map_of.simps)
qed

section \<open>Reachable states and invariants\<close>

inductive reachable :: "('s \<Rightarrow> bool) \<Rightarrow> ('s \<Rightarrow> 's \<Rightarrow> bool) \<Rightarrow> 's \<Rightarrow> bool"
  for start :: "'s \<Rightarrow> bool" and step :: "'s \<Rightarrow> 's \<Rightarrow> bool" where
  reach_start: "start s \<Longrightarrow> reachable start step s"
| reach_step: "reachable start step s \<Longrightarrow> step s t \<Longrightarrow> reachable start step t"

text \<open>
  The contract between a component's operations and its invariant: it holds of every new
  object and every operation keeps it.
\<close>

locale inductive_invariant =
  fixes start :: "'s \<Rightarrow> bool"
    and step :: "'s \<Rightarrow> 's \<Rightarrow> bool"
    and inv :: "'s \<Rightarrow> bool"
  assumes inv_start: "start s \<Longrightarrow> inv s"
    and inv_step: "step s t \<Longrightarrow> inv s \<Longrightarrow> inv t"
begin

lemma inv_reachable: "reachable start step s \<Longrightarrow> inv s"
  by (induction rule: reachable.induct) (auto intro: inv_start inv_step)

lemma inv_steps:
  assumes "step\<^sup>*\<^sup>* s t" and "inv s"
  shows "inv t"
  using assms by (induction rule: rtranclp_induct) (auto intro: inv_step)

end

text \<open>
  A system whose every run ends: as long as it has not ended some step is possible, and each step
  takes away some of the work that is left.  So a run of any length can go on until the end, however the
  steps are chosen, and the work at its start bounds how long that takes.
\<close>

locale bounded_runs = inductive_invariant start step inv
  for start :: "'s \<Rightarrow> bool" and step :: "'s \<Rightarrow> 's \<Rightarrow> bool" and inv :: "'s \<Rightarrow> bool" +
  fixes ended :: "'s \<Rightarrow> bool" and work :: "'s \<Rightarrow> nat"
  assumes progress: "inv s \<Longrightarrow> \<not> ended s \<Longrightarrow> \<exists>t. step s t"
    and decrease: "inv s \<Longrightarrow> step s t \<Longrightarrow> work t < work s"
begin

lemma run_length:
  assumes "(step ^^ n) s t" and "inv s"
  shows "inv t \<and> n + work t \<le> work s"
  using assms
proof (induction n arbitrary: t)
  case (Suc n)
  then obtain u where u: "(step ^^ n) s u" "step u t" by auto
  with Suc.IH [OF u(1) Suc.prems(2)] inv_step [OF u(2)] decrease [of u t] show ?case by force
qed simp

lemma run_continues:
  assumes "(step ^^ n) s t" and "start s"
  shows "inv t \<and> n \<le> work s \<and> (ended t \<or> (\<exists>u. step t u))"
  using run_length [OF assms(1) inv_start [OF assms(2)]] progress [of t] by auto

lemma run_ends: "inv s \<Longrightarrow> \<exists>t. step\<^sup>*\<^sup>* s t \<and> inv t \<and> ended t"
proof (induction "work s" arbitrary: s rule: less_induct)
  case less
  show ?case
  proof (cases "ended s")
    case False
    then obtain t where t: "step s t" using progress less.prems by blast
    from less.hyps [OF decrease [OF less.prems t] inv_step [OF t less.prems]] t show ?thesis
      by (blast intro: converse_rtranclp_into_rtranclp)
  qed (use less.prems in blast)
qed

end

text \<open>One task of many changes, and with it one term of the work that is left.\<close>

lemma sum_fun_upd:
  fixes f :: "'b \<Rightarrow> nat"
  assumes "finite A" and "k \<in> A"
  shows "(\<Sum>l\<in>A. f ((g(k := x)) l)) + f (g k) = (\<Sum>l\<in>A. f (g l)) + f x"
proof -
  have "(\<Sum>l\<in>A - {k}. f ((g(k := x)) l)) = (\<Sum>l\<in>A - {k}. f (g l))" by (rule sum.cong) simp_all
  with sum.remove [OF assms, of "\<lambda>l. f (g l)"] sum.remove [OF assms, of "\<lambda>l. f ((g(k := x)) l)"]
  show ?thesis by simp
qed

section \<open>Scripts of calls\<close>

text \<open>
  A test or an example is a list of calls, each with what is asserted after it.  \<open>enabled\<close> and
  \<open>exec\<close> are those of the system under test.
\<close>

fun run_script ::
  "('op \<Rightarrow> 's \<Rightarrow> bool) \<Rightarrow> ('op \<Rightarrow> 's \<Rightarrow> 's res) \<Rightarrow> ('op \<times> ('s \<Rightarrow> bool)) list \<Rightarrow> 's \<Rightarrow> 's res" where
  "run_script enabled exec [] s = Inr s"
| "run_script enabled exec ((op, check) # calls) s =
     (if enabled op s
      then and_then (exec op s) (\<lambda>s. and_then (assert_that (check s) s) (run_script enabled exec calls))
      else Inl (Panic ''not allowed by ownership''))"

lemma run_script_reachable:
  assumes "run_script enabled exec calls s = Inr t" and "reachable start step s"
    and "\<And>op s t. enabled op s \<Longrightarrow> exec op s = Inr t \<Longrightarrow> step s t"
  shows "reachable start step t"
  using assms
proof (induction enabled exec calls s rule: run_script.induct)
  case (2 enabled exec op check calls s)
  from "2.prems"(1) obtain s1 where e: "enabled op s" "exec op s = Inr s1"
    "run_script enabled exec calls s1 = Inr t" "check s1"
    by (auto simp: and_then_eq_Inr assert_that_eq_Inr split: if_splits)
  have "reachable start step s1" using "2.prems"(2,3) e(1,2) by (blast intro: reach_step)
  with "2.IH" [OF e(1), of s1 s1] e "2.prems"(3) show ?case by (simp add: assert_that_eq_Inr)
qed simp

definition any :: "'s \<Rightarrow> bool" where
  "any s \<longleftrightarrow> True"

definition passes :: "'s res \<Rightarrow> ('s \<Rightarrow> bool) \<Rightarrow> bool" where
  "passes m check \<longleftrightarrow> (case m of Inl _ \<Rightarrow> False | Inr s \<Rightarrow> check s)"

lemma passesE:
  assumes "passes m check"
  obtains s where "m = Inr s" and "check s"
  using assms by (cases m) (auto simp: passes_def)

end
