(* ===== verification/Wait_List.thy ===== *)
theory Wait_List
  imports Unsync_Prelude
begin

text \<open>
  The intrusive doubly linked list of \<open>src/wait_list.rs\<close>, at the level of its pointers.  A
  waiter lives at an address of \<open>mem\<close>, the memory of the futures that wait on the list;
  \<open>head\<close>, \<open>tail\<close>, \<open>next_ptr\<close> and \<open>prev_ptr\<close> are addresses, every dereference is
  checked, and the debug assertions of the source are panics.  \<open>woken\<close> is not a field of
  the Rust struct: it is the trace of the calls to \<open>Waker::wake\<close>, the only effect the list
  has outside itself.
\<close>

section \<open>Data\<close>

datatype ('i, 'o) state = Input 'i | Output 'o

record ('i, 'o) waiter =
  next_ptr :: "addr option"
  prev_ptr :: "addr option"
  state :: "('i, 'o) state"
  waker :: "waker option"

record inner =
  head :: "addr option"
  tail :: "addr option"

record ('i, 'o) wait_list =
  borrowed :: bool
  inner :: inner
  mem :: "('i, 'o) waiter store"
  woken :: "waker list"

datatype 'o wake_one_error = WakeOneError (error_output: 'o)

section \<open>Inner: linking and unlinking\<close>

definition enqueue :: "addr \<Rightarrow> ('i, 'o) wait_list \<Rightarrow> ('i, 'o) wait_list res" where
  "enqueue a wl =
     and_then (modify a (\<lambda>w. w\<lparr>prev_ptr := tail (inner wl)\<rparr>) (mem wl)) (\<lambda>h.
     and_then (case tail (inner wl) of
         None \<Rightarrow> Inr h
       | Some p \<Rightarrow> and_then (deref p h) (\<lambda>prev.
           if next_ptr prev \<noteq> None then Inl (Panic ''assertion failed: prev.next == None'')
           else modify p (\<lambda>w. w\<lparr>next_ptr := Some a\<rparr>) h)) (\<lambda>h.
     Inr (wl\<lparr>mem := h,
             inner := \<lparr>head = (case head (inner wl) of None \<Rightarrow> Some a | Some x \<Rightarrow> Some x),
                       tail = Some a\<rparr>\<rparr>)))"

text \<open>
  The two halves of \<open>dequeue\<close>: the pointer that leads to the node from its front (of the
  previous node, or the queue head), then the one that leads to it from its back.
\<close>

definition set_prev_next ::
  "addr \<Rightarrow> addr option \<Rightarrow> addr option \<Rightarrow> ('i, 'o) wait_list \<Rightarrow> ('i, 'o) wait_list res" where
  "set_prev_next a prv nxt wl =
     (case prv of
        Some p \<Rightarrow> and_then (deref p (mem wl)) (\<lambda>n.
          if next_ptr n \<noteq> Some a
          then Inl (Panic ''assertion failed: *prev_next_pointer == Some(waiter)'')
          else and_then (modify p (\<lambda>n. n\<lparr>next_ptr := nxt\<rparr>) (mem wl)) (\<lambda>h. Inr (wl\<lparr>mem := h\<rparr>)))
      | None \<Rightarrow>
          if head (inner wl) \<noteq> Some a
          then Inl (Panic ''assertion failed: *prev_next_pointer == Some(waiter)'')
          else Inr (wl\<lparr>inner := (inner wl)\<lparr>head := nxt\<rparr>\<rparr>))"

definition set_next_prev ::
  "addr \<Rightarrow> addr option \<Rightarrow> addr option \<Rightarrow> ('i, 'o) wait_list \<Rightarrow> ('i, 'o) wait_list res" where
  "set_next_prev a prv nxt wl =
     (case nxt of
        Some n \<Rightarrow> and_then (deref n (mem wl)) (\<lambda>m.
          if prev_ptr m \<noteq> Some a
          then Inl (Panic ''assertion failed: *next_prev_pointer == Some(waiter)'')
          else and_then (modify n (\<lambda>m. m\<lparr>prev_ptr := prv\<rparr>) (mem wl)) (\<lambda>h. Inr (wl\<lparr>mem := h\<rparr>)))
      | None \<Rightarrow>
          if tail (inner wl) \<noteq> Some a
          then Inl (Panic ''assertion failed: *next_prev_pointer == Some(waiter)'')
          else Inr (wl\<lparr>inner := (inner wl)\<lparr>tail := prv\<rparr>\<rparr>))"

definition dequeue :: "addr \<Rightarrow> ('i, 'o) wait_list \<Rightarrow> ('i, 'o) wait_list res" where
  "dequeue a wl =
     and_then (deref a (mem wl)) (\<lambda>w.
     and_then (set_prev_next a (prev_ptr w) (next_ptr w) wl) (\<lambda>wl.
     set_next_prev a (prev_ptr w) (next_ptr w) wl))"

section \<open>WaitList and its unique borrow\<close>

definition wait_list_new :: "('i, 'o) wait_list" where
  "wait_list_new =
     \<lparr>borrowed = False, inner = \<lparr>head = None, tail = None\<rparr>, mem = fmempty, woken = []\<rparr>"

definition wait_list_default :: "('i, 'o) wait_list" where
  "wait_list_default = wait_list_new"

fun display_wake_one_error :: "'o wake_one_error \<Rightarrow> string" where
  "display_wake_one_error (WakeOneError out) = ''no tasks were waiting''"

definition try_borrow :: "('i, 'o) wait_list \<Rightarrow> ('i, 'o) wait_list option" where
  "try_borrow wl = (if borrowed wl then None else Some (wl\<lparr>borrowed := True\<rparr>))"

definition borrow :: "('i, 'o) wait_list \<Rightarrow> ('i, 'o) wait_list res" where
  "borrow wl =
     (case try_borrow wl of
        None \<Rightarrow> Inl (Panic ''attempted to borrow `WaitList` while it is already borrowed'')
      | Some wl \<Rightarrow> Inr wl)"

definition drop_borrowed :: "('i, 'o) wait_list \<Rightarrow> ('i, 'o) wait_list res" where
  "drop_borrowed wl =
     (if borrowed wl then Inr (wl\<lparr>borrowed := False\<rparr>)
      else Inl (Panic ''assertion failed: self.list.borrowed.get()''))"

definition is_empty :: "('i, 'o) wait_list \<Rightarrow> bool" where
  "is_empty wl \<longleftrightarrow> head (inner wl) = None"

definition head_input :: "('i, 'o) wait_list \<Rightarrow> 'i option res" where
  "head_input wl =
     (case head (inner wl) of
        None \<Rightarrow> Inr None
      | Some a \<Rightarrow> and_then (deref a (mem wl)) (\<lambda>w.
          case state w of Input i \<Rightarrow> Inr (Some i) | Output _ \<Rightarrow> Inl Dangling))"

text \<open>
  \<open>head_input_mut\<close> hands out a unique reference to the head's input; \<open>f\<close> is what the caller
  does through it.
\<close>

definition head_input_mut :: "('i \<Rightarrow> 'i) \<Rightarrow> ('i, 'o) wait_list \<Rightarrow> ('i option \<times> ('i, 'o) wait_list) res" where
  "head_input_mut f wl =
     (case head (inner wl) of
        None \<Rightarrow> Inr (None, wl)
      | Some a \<Rightarrow> and_then (deref a (mem wl)) (\<lambda>w.
          case state w of
            Input i \<Rightarrow> and_then (modify a (\<lambda>w. w\<lparr>state := Input (f i)\<rparr>) (mem wl)) (\<lambda>h.
              Inr (Some (f i), wl\<lparr>mem := h\<rparr>))
          | Output _ \<Rightarrow> Inl Dangling))"

definition wake_one ::
  "'o \<Rightarrow> ('i, 'o) wait_list \<Rightarrow> (('i, 'o wake_one_error) result \<times> ('i, 'o) wait_list) res" where
  "wake_one out wl =
     (case head (inner wl) of
        None \<Rightarrow> Inr (Err (WakeOneError out), wl)
      | Some a \<Rightarrow> and_then (deref a (mem wl)) (\<lambda>w.
          case waker w of
            None \<Rightarrow> Inl (Panic ''internal error: entered unreachable code'')
          | Some k \<Rightarrow>
             (case state w of
                Output _ \<Rightarrow> Inl Dangling
              | Input i \<Rightarrow>
                  and_then (modify a (\<lambda>w. w\<lparr>waker := None, state := Output out\<rparr>) (mem wl)) (\<lambda>h.
                  and_then (dequeue a (wl\<lparr>mem := h\<rparr>)) (\<lambda>wl.
                  Inr (Ok i, wl\<lparr>woken := woken wl @ [k]\<rparr>))))))"

section \<open>The waiting future\<close>

definition clone_waker :: "waker \<Rightarrow> waker poll" where
  "clone_waker cx = Ready cx"

definition wait_inner_new :: "addr \<Rightarrow> ('i, 'o) wait_list \<Rightarrow> ('i, 'o) wait_list res" where
  "wait_inner_new a wl = and_then (borrow wl) (\<lambda>wl. and_then (enqueue a wl) drop_borrowed)"

definition wait_inner_poll ::
  "addr \<Rightarrow> waker \<Rightarrow> ('i, 'o) wait_list \<Rightarrow> (unit poll \<times> ('i, 'o) wait_list) res" where
  "wait_inner_poll a cx wl =
     and_then (borrow wl) (\<lambda>wl.
     and_then (deref a (mem wl)) (\<lambda>w.
     and_then (case waker w of
         Some same_waker \<Rightarrow>
           if will_wake same_waker cx then Inr (Pending, wl)
           else and_then (modify a (\<lambda>w. w\<lparr>waker := Some cx\<rparr>) (mem wl)) (\<lambda>h.
             Inr (Pending, wl\<lparr>mem := h\<rparr>))
       | None \<Rightarrow> Inr (Ready (), wl)) (\<lambda>(r, wl).
     and_then (drop_borrowed wl) (\<lambda>wl. Inr (r, wl)))))"

definition wait_inner_drop :: "addr \<Rightarrow> ('i, 'o) wait_list \<Rightarrow> ('i, 'o) wait_list res" where
  "wait_inner_drop a wl =
     (case try_borrow wl of
        None \<Rightarrow> Inl Abort
      | Some wl \<Rightarrow> and_then (deref a (mem wl)) (\<lambda>w.
          and_then (if waker w \<noteq> None then dequeue a wl else Inr wl) drop_borrowed))"

text \<open>
  \<open>Waiter::drop\<close> decides by the waker which field of the union to drop; the result is that
  field, whose own destructor the owner of the list runs next.
\<close>

definition waiter_drop :: "('i, 'o) waiter \<Rightarrow> ('i, 'o) state res" where
  "waiter_drop w =
     (if waker w \<noteq> None
      then (case state w of Input i \<Rightarrow> Inr (Input i) | Output _ \<Rightarrow> Inl Dangling)
      else (case state w of Output out \<Rightarrow> Inr (Output out) | Input _ \<Rightarrow> Inl Dangling))"

text \<open>
  The future of \<open>wait\<close>, pinned at address \<open>a\<close>: its first poll, a later poll (both continue
  with \<open>wait_resume\<close>), and its drop while it is suspended.  A panic of the inner poll unwinds
  through the live \<open>WaitInner\<close>, whose destructor runs.
\<close>

definition wait_resume ::
  "addr \<Rightarrow> waker \<Rightarrow> ('i, 'o) wait_list \<Rightarrow> ('o poll \<times> ('i, 'o) wait_list) res" where
  "wait_resume a cx wl =
     and_then (on_panic (wait_inner_poll a cx wl) (wait_inner_drop a wl)) (\<lambda>(r, wl).
     case r of
       Pending \<Rightarrow> Inr (Pending, wl)
     | Ready _ \<Rightarrow>
         and_then (wait_inner_drop a wl) (\<lambda>wl.
         and_then (deref a (mem wl)) (\<lambda>w.
         if waker w \<noteq> None then Inl (Panic ''assertion failed: waiter.waker.is_none()'')
         else (case state w of
             Output out \<Rightarrow> Inr (Ready out, wl\<lparr>mem := fmdrop a (mem wl)\<rparr>)
           | Input _ \<Rightarrow> Inl Dangling))))"

definition wait_start ::
  "addr \<Rightarrow> 'i \<Rightarrow> waker \<Rightarrow> ('i, 'o) wait_list \<Rightarrow> ('o poll \<times> ('i, 'o) wait_list) res" where
  "wait_start a input cx wl =
     (case clone_waker cx of
        Pending \<Rightarrow> Inr (Pending, wl)
      | Ready k \<Rightarrow>
          let w = \<lparr>next_ptr = None, prev_ptr = None, state = Input input, waker = Some k\<rparr> in
          and_then (wait_inner_new a (wl\<lparr>mem := fmupd a w (mem wl)\<rparr>)) (wait_resume a cx))"

definition wait_cancel ::
  "addr \<Rightarrow> ('i, 'o) wait_list \<Rightarrow> (('i, 'o) state \<times> ('i, 'o) wait_list) res" where
  "wait_cancel a wl =
     and_then (wait_inner_drop a wl) (\<lambda>wl.
     and_then (deref a (mem wl)) (\<lambda>w.
     and_then (waiter_drop w) (\<lambda>payload.
     Inr (payload, wl\<lparr>mem := fmdrop a (mem wl)\<rparr>))))"

end
