(* ===== verification/Wait_List_Links.thy ===== *)
theory Wait_List_Links
  imports Wait_List
begin

text \<open>
  Pointer reasoning for the wait list.  \<open>links\<close> reads the two pointers of every node,
  \<open>chain l p xs n\<close> says that the nodes \<open>xs\<close> are doubly linked in this order between the
  neighbours \<open>p\<close> and \<open>n\<close>, and \<open>linked\<close> adds the two ends.  The two main lemmas are
  that \<open>enqueue\<close> appends and \<open>dequeue\<close> removes from any position, with no fault and no
  failed assertion.
\<close>

section \<open>Doubly linked chains\<close>

type_synonym links = "addr \<Rightarrow> (addr option \<times> addr option) option"

definition links :: "('i, 'o) waiter store \<Rightarrow> links" where
  "links h a = map_option (\<lambda>w. (prev_ptr w, next_ptr w)) (fmlookup h a)"

definition first_of :: "addr list \<Rightarrow> addr option \<Rightarrow> addr option" where
  "first_of xs n = (case xs of [] \<Rightarrow> n | x # _ \<Rightarrow> Some x)"

definition last_of :: "addr list \<Rightarrow> addr option \<Rightarrow> addr option" where
  "last_of xs p = (if xs = [] then p else Some (last xs))"

lemma first_of_simps [simp]: "first_of [] n = n" "first_of (x # xs) n = Some x"
  by (simp_all add: first_of_def)

lemma last_of_Nil [simp]: "last_of [] p = p"
  by (simp add: last_of_def)

lemma last_of_Cons [simp]: "last_of (x # xs) p = last_of xs (Some x)"
  by (simp add: last_of_def)

lemma last_of_append [simp]: "last_of (xs @ ys) p = last_of ys (last_of xs p)"
  by (simp add: last_of_def)

lemma first_of_append [simp]: "first_of (xs @ ys) n = first_of xs (first_of ys n)"
  by (cases xs) simp_all

fun chain :: "links \<Rightarrow> addr option \<Rightarrow> addr list \<Rightarrow> addr option \<Rightarrow> bool" where
  "chain l p [] n = True"
| "chain l p (x # xs) n = (l x = Some (p, first_of xs n) \<and> chain l (Some x) xs n)"

lemma chain_append [simp]:
  "chain l p (xs @ ys) n \<longleftrightarrow> chain l p xs (first_of ys n) \<and> chain l (last_of xs p) ys n"
  by (induction xs arbitrary: p) auto

lemma chain_frame: "x \<notin> set xs \<Longrightarrow> chain (l(x := v)) p xs n = chain l p xs n"
  by (induction xs arbitrary: p) auto

lemma chain_dom: "chain l p xs n \<Longrightarrow> x \<in> set xs \<Longrightarrow> l x \<noteq> None"
  by (induction xs arbitrary: p) auto

definition linked :: "links \<Rightarrow> inner \<Rightarrow> addr list \<Rightarrow> bool" where
  "linked l i xs \<longleftrightarrow>
     chain l None xs None \<and> distinct xs \<and> head i = first_of xs None \<and> tail i = last_of xs None"

lemma links_lookup: "fmlookup h a = Some w \<Longrightarrow> links h a = Some (prev_ptr w, next_ptr w)"
  by (simp add: links_def)

lemma links_Some:
  "links h a = Some (p, n) \<longleftrightarrow> (\<exists>w. fmlookup h a = Some w \<and> prev_ptr w = p \<and> next_ptr w = n)"
  by (auto simp: links_def)

lemma links_fmupd: "links (fmupd a w h) = (links h)(a := Some (prev_ptr w, next_ptr w))"
  by (auto simp: links_def fun_eq_iff)

lemma links_fmdrop: "links (fmdrop a h) = (links h)(a := None)"
  by (auto simp: links_def fun_eq_iff)

lemma links_fmupd_same:
  "links h a = Some (prev_ptr w, next_ptr w) \<Longrightarrow> links (fmupd a w h) = links h"
  by (auto simp: links_fmupd)

section \<open>Enqueue appends\<close>

text \<open>
  What \<open>enqueue\<close> and \<open>dequeue\<close> leave alone: the input or output and the waker of every
  node.  \<open>payload\<close> reads them.
\<close>

definition payload :: "('i, 'o) waiter store \<Rightarrow> addr \<Rightarrow> (('i, 'o) state \<times> waker option) option" where
  "payload h a = map_option (\<lambda>w. (state w, waker w)) (fmlookup h a)"

lemma payload_lookup: "fmlookup h a = Some w \<Longrightarrow> payload h a = Some (state w, waker w)"
  by (simp add: payload_def)

lemma payload_fmupd: "payload (fmupd a w h) = (payload h)(a := Some (state w, waker w))"
  by (auto simp: payload_def fun_eq_iff)

lemma payload_fmdrop: "payload (fmdrop a h) = (payload h)(a := None)"
  by (auto simp: payload_def fun_eq_iff)

lemma payload_Some:
  "payload h a = Some (s, k) \<longleftrightarrow> (\<exists>w. fmlookup h a = Some w \<and> state w = s \<and> waker w = k)"
  by (auto simp: payload_def)

lemma ex_linkedI:
  assumes "linked (links h) i xs" and "payload h = f" and "fmdom h = D"
  shows "\<exists>h' i'. (Inr (wl\<lparr>mem := h, inner := i\<rparr>) :: ('i, 'o) wait_list res) = Inr (wl\<lparr>mem := h', inner := i'\<rparr>) \<and>
     linked (links h') i' xs \<and> payload h' = f \<and> fmdom h' = D"
  using assms by blast

lemma enqueue_linked:
  assumes "linked (links (mem wl)) (inner wl) xs"
    and "fmlookup (mem wl) a = Some w" and "next_ptr w = None" and "a \<notin> set xs"
  shows "\<exists>h i. enqueue a wl = Inr (wl\<lparr>mem := h, inner := i\<rparr>) \<and>
     linked (links h) i (xs @ [a]) \<and> payload h = payload (mem wl) \<and> fmdom h = fmdom (mem wl)"
proof (cases xs rule: rev_cases)
  case Nil
  with assms have e: "enqueue a wl = Inr (wl\<lparr>
      mem := fmupd a (w\<lparr>prev_ptr := None\<rparr>) (mem wl), inner := \<lparr>head = Some a, tail = Some a\<rparr>\<rparr>)"
    by (simp add: enqueue_def linked_def)
  show ?thesis
    unfolding e
    using assms(2-3) Nil
    by (intro ex_linkedI)
      (auto simp: linked_def links_fmupd payload_fmupd payload_lookup fun_eq_iff intro: fmdomI)
next
  case (snoc ys y)
  from assms(1) snoc have l: "links (mem wl) y = Some (last_of ys None, None)"
    and c: "chain (links (mem wl)) None ys (Some y)" and d: "distinct ys" "y \<notin> set ys"
    and t: "tail (inner wl) = Some y" and hd: "head (inner wl) = first_of ys (Some y)"
    by (auto simp: linked_def)
  from l obtain v where v: "fmlookup (mem wl) y = Some v" "next_ptr v = None"
    "prev_ptr v = last_of ys None"
    by (auto simp: links_Some)
  from assms(4) snoc have n: "a \<noteq> y" "a \<notin> set ys" by auto
  obtain hd' where hd': "head (inner wl) = Some hd'" "first_of ys (Some y) = Some hd'"
    using hd by (cases ys) auto
  have e: "enqueue a wl = Inr (wl\<lparr>
      mem := fmupd y (v\<lparr>next_ptr := Some a\<rparr>) (fmupd a (w\<lparr>prev_ptr := Some y\<rparr>) (mem wl)),
      inner := \<lparr>head = Some hd', tail = Some a\<rparr>\<rparr>)"
    using assms(2) t v n hd' by (simp add: enqueue_def)
  show ?thesis
    unfolding e
    using assms(2-3) snoc c d n v hd'
    by (intro ex_linkedI)
      (auto simp: linked_def links_fmupd payload_fmupd payload_lookup chain_frame fun_eq_iff
        intro: fmdomI)
qed

section \<open>Dequeue removes\<close>

lemmas dequeue_defs = dequeue_def set_prev_next_def set_next_prev_def

text \<open>
  The link of the removed node leads its neighbours, or an end of the list.  \<open>relink\<close> gives
  the links and the ends that result.
\<close>

definition unlinks :: "addr \<Rightarrow> addr list \<Rightarrow> ('i, 'o) wait_list \<Rightarrow> bool" where
  "unlinks a xs wl \<longleftrightarrow> (\<exists>h i. dequeue a wl = Inr (wl\<lparr>mem := h, inner := i\<rparr>) \<and>
     linked (links h) i xs \<and> payload h = payload (mem wl) \<and> fmdom h = fmdom (mem wl))"

lemma unlinksI:
  assumes "dequeue a wl = Inr (wl\<lparr>mem := h, inner := i\<rparr>)" and "linked (links h) i xs"
    and "payload h = payload (mem wl)" and "fmdom h = fmdom (mem wl)"
  shows "unlinks a xs wl"
  using assms unfolding unlinks_def by blast

lemma dequeue_first:
  assumes l: "linked (links (mem wl)) (inner wl) (a # zs)" and w: "fmlookup (mem wl) a = Some w"
  shows "unlinks a zs wl"
proof -
  from l have d: "distinct (a # zs)" and c: "chain (links (mem wl)) None (a # zs) None"
    and hd: "head (inner wl) = Some a" and tl: "tail (inner wl) = last_of (a # zs) None"
    by (auto simp: linked_def)
  from c w have p: "prev_ptr w = None" "next_ptr w = first_of zs None" by (auto simp: links_Some)
  show ?thesis
  proof (cases zs)
    case Nil
    with w p hd tl have "dequeue a wl = Inr (wl\<lparr>mem := mem wl, inner := \<lparr>head = None, tail = None\<rparr>\<rparr>)"
      by (cases "inner wl") (simp add: dequeue_defs)
    then show ?thesis by (rule unlinksI) (simp_all add: Nil linked_def)
  next
    case (Cons z zs')
    from c Cons obtain v where v: "fmlookup (mem wl) z = Some v" "prev_ptr v = Some a" "next_ptr v = first_of zs' None"
      by (auto simp: links_Some)
    with Cons w p hd have "dequeue a wl =
        Inr (wl\<lparr>mem := fmupd z (v\<lparr>prev_ptr := None\<rparr>) (mem wl), inner := (inner wl)\<lparr>head := Some z\<rparr>\<rparr>)"
      by (simp add: dequeue_defs)
    then show ?thesis
      by (rule unlinksI)
        (use c d tl Cons v in \<open>auto simp: linked_def links_fmupd payload_fmupd payload_lookup chain_frame fun_eq_iff
          intro: fmdomI\<close>)
  qed
qed

lemma dequeue_later:
  assumes l: "linked (links (mem wl)) (inner wl) (ys @ y # a # zs)" and w: "fmlookup (mem wl) a = Some w"
  shows "unlinks a (ys @ y # zs) wl"
proof -
  from l have d: "distinct (ys @ y # a # zs)" and c: "chain (links (mem wl)) None (ys @ y # a # zs) None"
    and hd: "head (inner wl) = first_of ys (Some y)" and tl: "tail (inner wl) = last_of (a # zs) None"
    by (auto simp: linked_def)
  from c w have p: "prev_ptr w = Some y" "next_ptr w = first_of zs None" by (auto simp: links_Some)
  from c obtain u where u: "fmlookup (mem wl) y = Some u" "prev_ptr u = last_of ys None" "next_ptr u = Some a"
    by (auto simp: links_Some)
  show ?thesis
  proof (cases zs)
    case Nil
    with w p u tl have "dequeue a wl =
        Inr (wl\<lparr>mem := fmupd y (u\<lparr>next_ptr := None\<rparr>) (mem wl), inner := (inner wl)\<lparr>tail := Some y\<rparr>\<rparr>)"
      by (simp add: dequeue_defs)
    then show ?thesis
      by (rule unlinksI)
        (use c d hd Nil u in \<open>auto simp: linked_def links_fmupd payload_fmupd payload_lookup chain_frame fun_eq_iff
          intro: fmdomI\<close>)
  next
    case (Cons z zs')
    from c Cons obtain v where v: "fmlookup (mem wl) z = Some v" "prev_ptr v = Some a" "next_ptr v = first_of zs' None"
      by (auto simp: links_Some)
    from d Cons have n: "y \<noteq> z" "z \<noteq> y" by auto
    with Cons w p u v have "dequeue a wl =
        Inr (wl\<lparr>mem := fmupd z (v\<lparr>prev_ptr := Some y\<rparr>) (fmupd y (u\<lparr>next_ptr := Some z\<rparr>) (mem wl)), inner := inner wl\<rparr>)"
      by (simp add: dequeue_defs)
    then show ?thesis
      by (rule unlinksI)
        (use c d hd tl Cons u v n in \<open>auto simp: linked_def links_fmupd payload_fmupd payload_lookup chain_frame fun_eq_iff
          intro: fmdomI\<close>)
  qed
qed

lemma dequeue_linked:
  assumes "linked (links (mem wl)) (inner wl) (ys @ a # zs)"
  shows "\<exists>h i. dequeue a wl = Inr (wl\<lparr>mem := h, inner := i\<rparr>) \<and>
     linked (links h) i (ys @ zs) \<and> payload h = payload (mem wl) \<and> fmdom h = fmdom (mem wl)"
proof -
  from assms have "links (mem wl) a \<noteq> None" by (auto simp: linked_def)
  then obtain w where w: "fmlookup (mem wl) a = Some w" by (auto simp: links_def)
  have "unlinks a (ys @ zs) wl"
  proof (cases ys rule: rev_cases)
    case Nil
    with assms dequeue_first [OF _ w, of zs] show ?thesis by simp
  next
    case (snoc ys' y)
    with assms dequeue_later [OF _ w, of ys' y zs] show ?thesis by simp
  qed
  then show ?thesis by (simp add: unlinks_def)
qed

section \<open>A measure for wake loops\<close>

text \<open>
  Whatever the state of the pointers, a successful \<open>wake_one\<close> takes the waker of one node
  and \<open>dequeue\<close> touches none, so the number of nodes that still hold a waker bounds every
  loop that wakes one waiter per round.
\<close>

lemma modify_Inr: "modify a f h = Inr h' \<longleftrightarrow> (\<exists>n. fmlookup h a = Some n \<and> h' = fmupd a (f n) h)"
  by (auto simp: modify_def split: option.splits)

lemma deref_Inr: "deref a h = Inr n \<longleftrightarrow> fmlookup h a = Some n"
  by (simp add: deref_def split: option.splits)

lemma relink_payload:
  "modify a (\<lambda>w. w\<lparr>next_ptr := n\<rparr>) h = Inr h' \<Longrightarrow> payload h' = payload h"
  "modify a (\<lambda>w. w\<lparr>prev_ptr := n\<rparr>) h = Inr h' \<Longrightarrow> payload h' = payload h"
  by (auto simp: modify_Inr payload_fmupd payload_lookup)

lemma set_prev_next_payload:
  "set_prev_next a prv nxt wl = Inr wl' \<Longrightarrow> payload (mem wl') = payload (mem wl)"
  by (auto simp: set_prev_next_def and_then_eq_Inr dest: relink_payload
      split: option.split_asm if_split_asm)

lemma set_next_prev_payload:
  "set_next_prev a prv nxt wl = Inr wl' \<Longrightarrow> payload (mem wl') = payload (mem wl)"
  by (auto simp: set_next_prev_def and_then_eq_Inr dest: relink_payload
      split: option.split_asm if_split_asm)

lemma dequeue_payload: "dequeue a wl = Inr wl' \<Longrightarrow> payload (mem wl') = payload (mem wl)"
  unfolding dequeue_def
  by (auto simp: and_then_eq_Inr set_prev_next_payload set_next_prev_payload)

definition wakers_left :: "('i, 'o) wait_list \<Rightarrow> nat" where
  "wakers_left wl = card {a. \<exists>s k. payload (mem wl) a = Some (s, Some k)}"

lemma finite_payload: "finite {a. \<exists>s k. payload h a = Some (s, Some k)}"
  by (rule finite_subset [of _ "fset (fmdom h)"]) (auto simp: payload_Some intro: fmdomI)

lemma wake_one_decreases:
  assumes "wake_one out wl = Inr (Ok i, wl')"
  shows "wakers_left wl' < wakers_left wl"
proof -
  from assms obtain a where a: "head (inner wl) = Some a"
    by (cases "head (inner wl)") (auto simp: wake_one_def)
  with assms obtain w where w: "fmlookup (mem wl) a = Some w"
    by (auto simp: wake_one_def and_then_eq_Inr deref_Inr)
  with assms a obtain k j where k: "waker w = Some k" "state w = Input j"
    by (cases "waker w"; cases "state w") (auto simp: wake_one_def)
  define h where h: "h = fmupd a (w\<lparr>waker := None, state := Output out\<rparr>) (mem wl)"
  from assms a w k obtain wl1 where d: "dequeue a (wl\<lparr>mem := h\<rparr>) = Inr wl1"
    "wl' = wl1\<lparr>woken := woken wl1 @ [k]\<rparr>"
    by (auto simp: wake_one_def and_then_eq_Inr h)
  from dequeue_payload [OF d(1)] d(2) h
  have p: "payload (mem wl') = (payload (mem wl))(a \<mapsto> (Output out, None))"
    by (simp add: payload_fmupd)
  show ?thesis
    unfolding wakers_left_def p
    by (rule psubset_card_mono) (use w k in \<open>auto simp: finite_payload payload_lookup split: if_splits\<close>)
qed

end
