(* ===== verification/Wait_List_Spec.thy ===== *)
theory Wait_List_Spec
  imports Wait_List_Links
begin

text \<open>
  What a wait list promises.  \<open>wait_queue\<close> is the abstract state: the parked waiters in
  their order with their inputs and wakers, the outputs handed to woken waiters that have
  not resumed yet, the borrow flag and the trace of wakes.  \<open>wl_abs\<close> reads it from the
  pointers, \<open>wl_inv\<close> is the representation invariant, and each operation of the list is
  shown to compute its abstract counterpart, without a fault, and to keep the invariant.
\<close>

section \<open>Abstraction and invariant\<close>

record ('i, 'o) wait_queue =
  q_borrowed :: bool
  parked :: "(addr \<times> 'i \<times> waker) list"
  released :: "addr \<Rightarrow> 'o option"
  q_woken :: "waker list"

fun walk :: "nat \<Rightarrow> ('i, 'o) waiter store \<Rightarrow> addr option \<Rightarrow> addr list" where
  "walk 0 h p = []"
| "walk (Suc n) h p =
     (case p of
        None \<Rightarrow> []
      | Some a \<Rightarrow> (case fmlookup h a of None \<Rightarrow> [] | Some w \<Rightarrow> a # walk n h (next_ptr w)))"

definition waiting :: "('i, 'o) wait_list \<Rightarrow> addr list" where
  "waiting wl = walk (fcard (fmdom (mem wl))) (mem wl) (head (inner wl))"

fun input_of :: "('i, 'o) state \<Rightarrow> 'i option" where
  "input_of (Input i) = Some i"
| "input_of (Output out) = None"

fun output_of :: "('i, 'o) state \<Rightarrow> 'o option" where
  "output_of (Input i) = None"
| "output_of (Output out) = Some out"

definition consistent :: "(addr \<Rightarrow> (('i, 'o) state \<times> waker option) option) \<Rightarrow> addr list \<Rightarrow> bool" where
  "consistent f xs \<longleftrightarrow> (\<forall>a s k. f a = Some (s, k) \<longrightarrow>
     (k \<noteq> None \<longleftrightarrow> a \<in> set xs) \<and> (input_of s \<noteq> None \<longleftrightarrow> a \<in> set xs))"

definition wl_rep :: "('i, 'o) wait_list \<Rightarrow> addr list \<Rightarrow> bool" where
  "wl_rep wl xs \<longleftrightarrow> linked (links (mem wl)) (inner wl) xs \<and> consistent (payload (mem wl)) xs"

definition wl_inv :: "('i, 'o) wait_list \<Rightarrow> bool" where
  "wl_inv wl \<longleftrightarrow> wl_rep wl (waiting wl)"

definition entry :: "(addr \<Rightarrow> (('i, 'o) state \<times> waker option) option) \<Rightarrow> addr \<Rightarrow> addr \<times> 'i \<times> waker" where
  "entry f a = (a, the (input_of (fst (the (f a)))), the (snd (the (f a))))"

definition outputs :: "(addr \<Rightarrow> (('i, 'o) state \<times> waker option) option) \<Rightarrow> addr \<Rightarrow> 'o option" where
  "outputs f a = (case f a of None \<Rightarrow> None | Some (s, k) \<Rightarrow> output_of s)"

definition wl_abs :: "('i, 'o) wait_list \<Rightarrow> ('i, 'o) wait_queue" where
  "wl_abs wl =
     \<lparr>q_borrowed = borrowed wl,
      parked = map (entry (payload (mem wl))) (waiting wl),
      released = outputs (payload (mem wl)),
      q_woken = woken wl\<rparr>"

definition q_addrs :: "('i, 'o) wait_queue \<Rightarrow> addr set" where
  "q_addrs q = fst ` set (parked q) \<union> dom (released q)"

text \<open>Only the waiters in the store can hold an output, which makes this decidable for a concrete list.\<close>

lemma released_stored: "released (wl_abs l) a = Some out \<Longrightarrow> a |\<in>| fmdom (mem l)"
  by (cases "a |\<in>| fmdom (mem l)") (auto simp: wl_abs_def outputs_def payload_def fmdom_notD)

lemma released_nobody:
  assumes "fBall (fmdom (mem l)) (\<lambda>a. released (wl_abs l) a = None)"
  shows "released (wl_abs l) = Map.empty"
proof
  show "released (wl_abs l) a = None" for a
    using assms released_stored [of l a] by (cases "released (wl_abs l) a") auto
qed

lemma released_only:
  assumes "released (wl_abs l) a = Some out" and "fBall (fmdom (mem l)) (\<lambda>b. released (wl_abs l) b = [a \<mapsto> out] b)"
  shows "released (wl_abs l) = [a \<mapsto> out]"
proof
  show "released (wl_abs l) b = [a \<mapsto> out] b" for b
    using assms released_stored [of l b] by (cases "released (wl_abs l) b") auto
qed

section \<open>Abstract operations\<close>

definition q_new :: "('i, 'o) wait_queue" where
  "q_new = \<lparr>q_borrowed = False, parked = [], released = Map.empty, q_woken = []\<rparr>"

definition q_start :: "addr \<Rightarrow> 'i \<Rightarrow> waker \<Rightarrow> ('i, 'o) wait_queue \<Rightarrow> ('i, 'o) wait_queue" where
  "q_start a i k q = q\<lparr>parked := parked q @ [(a, i, k)]\<rparr>"

definition q_wake :: "'o \<Rightarrow> ('i, 'o) wait_queue \<Rightarrow> ('i, 'o wake_one_error) result \<times> ('i, 'o) wait_queue" where
  "q_wake out q =
     (case parked q of
        [] \<Rightarrow> (Err (WakeOneError out), q)
      | (a, i, k) # es \<Rightarrow>
          (Ok i, q\<lparr>parked := es, released := (released q)(a \<mapsto> out), q_woken := q_woken q @ [k]\<rparr>))"

definition q_resume :: "addr \<Rightarrow> waker \<Rightarrow> ('i, 'o) wait_queue \<Rightarrow> 'o poll \<times> ('i, 'o) wait_queue" where
  "q_resume a cx q =
     (case released q a of
        Some out \<Rightarrow> (Ready out, q\<lparr>released := (released q)(a := None)\<rparr>)
      | None \<Rightarrow> (Pending, q\<lparr>parked := map (\<lambda>(b, i, k). (b, i, if b = a then cx else k)) (parked q)\<rparr>))"

definition q_cancel :: "addr \<Rightarrow> ('i, 'o) wait_queue \<Rightarrow> ('i, 'o) wait_queue" where
  "q_cancel a q =
     q\<lparr>parked := filter (\<lambda>e. fst e \<noteq> a) (parked q), released := (released q)(a := None)\<rparr>"

section \<open>The representation\<close>

lemma walk_chain:
  "chain (links h) p xs None \<Longrightarrow> length xs \<le> n \<Longrightarrow> walk n h (first_of xs None) = xs"
proof (induction xs arbitrary: p n)
  case Nil
  then show ?case by (cases n) simp_all
next
  case (Cons x xs)
  then obtain m where "n = Suc m" "length xs \<le> m" by (cases n) auto
  with Cons show ?case by (auto simp: links_Some)
qed

lemma chain_lookup: "chain (links h) p xs n \<Longrightarrow> x \<in> set xs \<Longrightarrow> \<exists>w. fmlookup h x = Some w"
  by (induction xs arbitrary: p) (auto simp: links_Some)

lemma linked_lookup: "linked (links h) i xs \<Longrightarrow> x \<in> set xs \<Longrightarrow> \<exists>w. fmlookup h x = Some w"
  unfolding linked_def by (blast dest: chain_lookup)

lemma consistent_lookup:
  assumes "consistent (payload h) xs" and "fmlookup h a = Some w"
  shows "waker w = None \<longleftrightarrow> a \<notin> set xs" and "input_of (state w) = None \<longleftrightarrow> a \<notin> set xs"
  using assms unfolding consistent_def
  by (metis payload_lookup option.distinct(1))+

lemma linked_length:
  assumes "linked (links h) i xs"
  shows "length xs \<le> fcard (fmdom h)"
proof -
  from assms have "set xs \<subseteq> fset (fmdom h)"
    by (auto simp: fmlookup_dom_iff dest: linked_lookup)
  with assms show ?thesis
    unfolding linked_def by (metis card_mono distinct_card fcard.rep_eq finite_fset)
qed

lemma linked_waiting:
  assumes "linked (links (mem wl)) (inner wl) xs"
  shows "waiting wl = xs"
  using assms linked_length [OF assms] by (auto simp: waiting_def linked_def intro: walk_chain)

lemma wl_rep_iff: "wl_rep wl xs \<longleftrightarrow> wl_inv wl \<and> waiting wl = xs"
  by (auto simp: wl_inv_def wl_rep_def dest: linked_waiting)

lemma wl_rep_inv: "wl_rep wl xs \<Longrightarrow> wl_inv wl"
  by (simp add: wl_rep_iff)

lemma wl_rep_abs:
  "wl_rep wl xs \<Longrightarrow> wl_abs wl =
     \<lparr>q_borrowed = borrowed wl, parked = map (entry (payload (mem wl))) xs,
      released = outputs (payload (mem wl)), q_woken = woken wl\<rparr>"
  by (simp add: wl_rep_iff wl_abs_def)

lemma borrowed_abs: "q_borrowed (wl_abs wl) = borrowed wl"
  by (simp add: wl_abs_def)

lemma entry_fst [simp]: "fst (entry f a) = a"
  by (simp add: entry_def)

lemma map_entry_cong: "(\<And>x. x \<in> set xs \<Longrightarrow> f x = g x) \<Longrightarrow> map (entry f) xs = map (entry g) xs"
  by (simp add: entry_def)

lemma wl_rep_addrs:
  assumes "wl_rep wl xs"
  shows "q_addrs (wl_abs wl) = {a. fmlookup (mem wl) a \<noteq> None}"
proof -
  have "a \<in> set xs \<or> outputs (payload (mem wl)) a \<noteq> None \<longleftrightarrow> fmlookup (mem wl) a \<noteq> None" for a
  proof (cases "fmlookup (mem wl) a")
    case None
    with assms have "a \<notin> set xs"
      by (auto simp: wl_rep_def dest: linked_lookup)
    with None show ?thesis by (simp add: outputs_def payload_def)
  next
    case (Some w)
    with assms show ?thesis
      by (cases "state w") (auto simp: wl_rep_def outputs_def payload_def dest: consistent_lookup(2))
  qed
  with assms show ?thesis
    by (auto simp: q_addrs_def wl_rep_abs image_image dom_def)
qed

lemma wl_rep_parked:
  assumes "wl_rep wl xs" and "a \<in> set xs"
  obtains w i k where "fmlookup (mem wl) a = Some w" "state w = Input i" "waker w = Some k"
    "entry (payload (mem wl)) a = (a, i, k)"
proof -
  from assms obtain w where w: "fmlookup (mem wl) a = Some w"
    by (auto simp: wl_rep_def dest: linked_lookup)
  with assms obtain i k where "state w = Input i" "waker w = Some k"
    by (cases "state w"; cases "waker w") (auto simp: wl_rep_def dest: consistent_lookup)
  with w that show thesis by (auto simp: entry_def payload_def)
qed

lemma wl_rep_released:
  assumes "wl_rep wl xs" and "released (wl_abs wl) a = Some out"
  obtains w where "fmlookup (mem wl) a = Some w" "state w = Output out" "waker w = None"
    "a \<notin> set xs"
proof -
  from assms obtain w where w: "fmlookup (mem wl) a = Some w" "output_of (state w) = Some out"
    by (auto simp: wl_rep_abs outputs_def payload_def split: option.splits prod.splits)
  then have "state w = Output out" by (cases "state w") auto
  with assms(1) w that show thesis
    using consistent_lookup [of "mem wl" xs a w] by (auto simp: wl_rep_def)
qed

lemma q_parked_distinct: "wl_inv wl \<Longrightarrow> distinct (map fst (parked (wl_abs wl)))"
  by (auto simp: wl_inv_def wl_rep_def linked_def wl_abs_def o_def)

lemma q_parked_not_released:
  assumes "wl_inv wl" and "e \<in> set (parked (wl_abs wl))"
  shows "released (wl_abs wl) (fst e) = None"
proof -
  from assms(2) have a: "fst e \<in> set (waiting wl)" by (auto simp: wl_abs_def)
  with assms(1) show ?thesis
    unfolding wl_inv_def
    by (elim wl_rep_parked) (auto simp: wl_abs_def outputs_def payload_def)
qed

lemma finite_q_addrs: "wl_inv wl \<Longrightarrow> finite (q_addrs (wl_abs wl))"
  unfolding wl_inv_def
  by (simp add: wl_rep_addrs finite_subset[of _ "fset (fmdom (mem wl))"] subset_iff fmlookup_dom_iff)

section \<open>Keeping the representation\<close>

lemma wl_rep_frame [simp]:
  "wl_rep (wl\<lparr>borrowed := b\<rparr>) xs = wl_rep wl xs"
  "wl_rep (wl\<lparr>woken := t\<rparr>) xs = wl_rep wl xs"
  by (simp_all add: wl_rep_def)

lemma wl_rep_modify:
  assumes "wl_rep wl xs" and "fmlookup (mem wl) a = Some w" and "a \<in> set xs"
    and "prev_ptr w' = prev_ptr w" "next_ptr w' = next_ptr w"
    and "waker w' \<noteq> None" "input_of (state w') \<noteq> None"
  shows "wl_rep (wl\<lparr>mem := fmupd a w' (mem wl)\<rparr>) xs"
proof -
  from assms(2,4,5) have "links (fmupd a w' (mem wl)) = links (mem wl)"
    by (simp add: links_fmupd_same links_lookup)
  with assms show ?thesis
    by (auto simp: wl_rep_def consistent_def payload_fmupd)
qed

lemma wl_rep_insert:
  assumes "wl_rep wl xs" and "fmlookup (mem wl) a = None" and "a \<notin> set xs"
    and "prev_ptr w = None" "next_ptr w = None"
  shows "linked (links (fmupd a w (mem wl))) (inner wl) xs"
  using assms by (simp add: wl_rep_def linked_def links_fmupd chain_frame)

lemma wl_rep_remove:
  assumes "wl_rep wl xs" and "a \<notin> set xs"
  shows "wl_rep (wl\<lparr>mem := fmdrop a (mem wl)\<rparr>) xs"
  using assms
  by (auto simp: wl_rep_def linked_def links_fmdrop chain_frame consistent_def payload_fmdrop)

lemma wl_rep_dequeue:
  assumes "linked (links (mem wl)) (inner wl) (ys @ a # zs)"
    and "\<And>b s k. b \<noteq> a \<Longrightarrow> payload (mem wl) b = Some (s, k) \<Longrightarrow>
       (k \<noteq> None \<longleftrightarrow> b \<in> set (ys @ zs)) \<and> (input_of s \<noteq> None \<longleftrightarrow> b \<in> set (ys @ zs))"
  obtains h i where "dequeue a wl = Inr (wl\<lparr>mem := h, inner := i\<rparr>)"
    "linked (links h) i (ys @ zs)" "payload h = payload (mem wl)" "a \<notin> set (ys @ zs)"
    "wl_rep (wl\<lparr>mem := fmdrop a h, inner := i\<rparr>) (ys @ zs)"
proof -
  obtain h i where e: "dequeue a wl = Inr (wl\<lparr>mem := h, inner := i\<rparr>)"
    and l: "linked (links h) i (ys @ zs)" and p: "payload h = payload (mem wl)"
    using dequeue_linked [OF assms(1)] by blast
  from assms(1) have a: "a \<notin> set (ys @ zs)" by (auto simp: linked_def)
  have "consistent ((payload (mem wl))(a := None)) (ys @ zs)"
    using assms(2) by (auto simp: consistent_def)
  with l p a have "wl_rep (wl\<lparr>mem := fmdrop a h, inner := i\<rparr>) (ys @ zs)"
    by (simp add: wl_rep_def linked_def links_fmdrop payload_fmdrop chain_frame)
  with e l p a that show thesis by blast
qed

section \<open>Refinement of every operation\<close>

definition refines ::
  "('r \<times> ('i, 'o) wait_list) res \<Rightarrow> 'r \<times> ('i, 'o) wait_queue \<Rightarrow> bool" where
  "refines m rq \<longleftrightarrow> (\<exists>wl'. m = Inr (fst rq, wl') \<and> wl_inv wl' \<and> wl_abs wl' = snd rq)"

lemma refinesI:
  "m = Inr (r, wl') \<Longrightarrow> wl_rep wl' xs \<Longrightarrow> wl_abs wl' = q \<Longrightarrow> refines m (r, q)"
  by (auto simp: refines_def dest: wl_rep_inv)

lemma new_refines: "wl_inv wait_list_new \<and> wl_abs wait_list_new = q_new"
proof -
  have r: "wl_rep wait_list_new []"
    by (simp add: wl_rep_def wait_list_new_def linked_def consistent_def payload_def)
  have "wl_abs wait_list_new = q_new"
    by (simp add: wl_rep_abs [OF r])
      (simp add: wait_list_new_def q_new_def outputs_def payload_def fun_eq_iff)
  with wl_rep_inv [OF r] show ?thesis by simp
qed

lemma borrow_free: "\<not> borrowed wl \<Longrightarrow> borrow wl = Inr (wl\<lparr>borrowed := True\<rparr>)"
  by (simp add: borrow_def try_borrow_def)

lemma borrow_refines:
  assumes "wl_inv wl" and "\<not> borrowed wl"
  shows "\<exists>wl'. borrow wl = Inr wl' \<and> wl_inv wl' \<and> wl_abs wl' = wl_abs wl\<lparr>q_borrowed := True\<rparr>"
proof -
  from assms(1) have "wl_rep (wl\<lparr>borrowed := True\<rparr>) (waiting wl)"
    by (simp add: wl_inv_def)
  with assms(2) show ?thesis
    by (auto simp: borrow_free wl_rep_iff wl_abs_def)
qed

lemma drop_borrowed_refines:
  assumes "wl_inv wl" and "borrowed wl"
  shows "\<exists>wl'. drop_borrowed wl = Inr wl' \<and> wl_inv wl' \<and> wl_abs wl' = wl_abs wl\<lparr>q_borrowed := False\<rparr>"
proof -
  from assms(1) have "wl_rep (wl\<lparr>borrowed := False\<rparr>) (waiting wl)"
    by (simp add: wl_inv_def)
  with assms(2) show ?thesis
    by (auto simp: drop_borrowed_def wl_rep_iff wl_abs_def)
qed

lemma is_empty_iff: "wl_inv wl \<Longrightarrow> is_empty wl \<longleftrightarrow> parked (wl_abs wl) = []"
  by (cases "waiting wl")
    (auto simp: wl_inv_def wl_rep_def is_empty_def linked_def wl_abs_def)

lemma head_input_eq:
  assumes "wl_inv wl"
  shows "head_input wl = Inr (case parked (wl_abs wl) of [] \<Rightarrow> None | (a, i, k) # _ \<Rightarrow> Some i)"
proof (cases "waiting wl")
  case Nil
  with assms show ?thesis
    by (simp add: wl_inv_def wl_rep_def linked_def head_input_def wl_abs_def)
next
  case (Cons a xs)
  from assms have r: "wl_rep wl (waiting wl)" by (simp add: wl_inv_def)
  obtain w i k where "fmlookup (mem wl) a = Some w" "state w = Input i"
    "entry (payload (mem wl)) a = (a, i, k)"
    by (rule wl_rep_parked [OF r, of a]) (simp add: Cons)
  with r Cons show ?thesis
    by (simp add: wl_rep_def linked_def head_input_def wl_abs_def)
qed

lemma wake_one_refines:
  assumes "wl_inv wl"
  shows "refines (wake_one out wl) (q_wake out (wl_abs wl))"
proof (cases "waiting wl")
  case Nil
  with assms show ?thesis
    by (simp add: refines_def wake_one_def q_wake_def wl_abs_def)
      (simp add: wl_inv_def wl_rep_def linked_def)
next
  case (Cons a xs)
  with assms have r: "wl_rep wl (a # xs)" by (simp add: wl_inv_def)
  obtain w i k where w: "fmlookup (mem wl) a = Some w" "state w = Input i" "waker w = Some k"
    and en: "entry (payload (mem wl)) a = (a, i, k)"
    by (rule wl_rep_parked [OF r, of a]) simp
  let ?w = "w\<lparr>waker := None, state := Output out\<rparr>"
  let ?wl = "wl\<lparr>mem := fmupd a ?w (mem wl)\<rparr>"
  from r w have l: "linked (links (mem ?wl)) (inner ?wl) ([] @ a # xs)"
    by (simp add: wl_rep_def links_fmupd_same links_lookup)
  from dequeue_linked [OF l] obtain h i'
    where d: "dequeue a ?wl = Inr (?wl\<lparr>mem := h, inner := i'\<rparr>)"
      and l': "linked (links h) i' xs" and p: "payload h = payload (mem ?wl)"
    by auto
  from l have a: "a \<notin> set xs" by (simp add: linked_def)
  let ?wl' = "wl\<lparr>mem := h, inner := i', woken := woken wl @ [k]\<rparr>"
  from r a l' p have r': "wl_rep ?wl' xs"
    by (auto simp: wl_rep_def payload_fmupd consistent_def)
  from r w d have e: "wake_one out wl = Inr (Ok i, ?wl')"
    by (simp add: wake_one_def wl_rep_def linked_def)
  have "map (entry ((payload (mem wl))(a \<mapsto> v))) xs = map (entry (payload (mem wl))) xs" for v
    using a by (intro map_entry_cong) auto
  then have q: "wl_abs ?wl' = snd (q_wake out (wl_abs wl)) \<and> fst (q_wake out (wl_abs wl)) = Ok i"
    using en p by (simp add: q_wake_def wl_rep_abs [OF r'] wl_rep_abs [OF r] payload_fmupd)
      (auto simp: outputs_def fun_eq_iff)
  show ?thesis
    using e q wl_rep_inv [OF r'] by (simp add: refines_def)
qed

lemma wait_inner_poll_parked:
  assumes "wl_rep wl xs" and "\<not> borrowed wl" and "a \<in> set xs"
  shows "\<exists>wl'. wait_inner_poll a cx wl = Inr (Pending, wl') \<and> wl_rep wl' xs \<and>
     wl_abs wl' = snd (q_resume a cx (wl_abs wl))"
proof -
  obtain w i k where w: "fmlookup (mem wl) a = Some w" "state w = Input i" "waker w = Some k"
    by (rule wl_rep_parked [OF assms(1,3)])
  let ?wl' = "wl\<lparr>mem := fmupd a (w\<lparr>waker := Some cx\<rparr>) (mem wl)\<rparr>"
  have eq: "fmupd a w (mem wl) = mem wl" using w(1) by (intro fmap_ext) auto
  have r': "wl_rep ?wl' xs" by (rule wl_rep_modify [OF assms(1) w(1) assms(3)]) (simp_all add: w)
  have "wait_inner_poll a cx wl = Inr (Pending, ?wl')"
  proof (cases "k = cx")
    case True
    with w have ww: "w\<lparr>waker := Some cx\<rparr> = w" by (cases w) simp
    with True w eq assms(2) show ?thesis
      by (cases wl) (simp add: wait_inner_poll_def borrow_free will_wake_def drop_borrowed_def ww)
  next
    case False
    with w assms(2) show ?thesis
      by (cases wl) (simp add: wait_inner_poll_def borrow_free will_wake_def drop_borrowed_def)
  qed
  moreover have "wl_abs ?wl' = snd (q_resume a cx (wl_abs wl))"
  proof -
    have "outputs (payload (mem ?wl')) = outputs (payload (mem wl))"
      using w by (auto simp: outputs_def payload_fmupd payload_lookup fun_eq_iff)
    moreover have "outputs (payload (mem wl)) a = None"
      using w by (simp add: outputs_def payload_lookup)
    ultimately show ?thesis
      using w by (simp add: wl_rep_abs [OF r'] wl_rep_abs [OF assms(1)] q_resume_def)
        (auto simp: payload_fmupd entry_def payload_lookup)
  qed
  ultimately show ?thesis using r' by blast
qed

lemma wait_resume_refines:
  assumes "wl_inv wl" and "\<not> borrowed wl" and "a \<in> q_addrs (wl_abs wl)"
  shows "refines (wait_resume a cx wl) (q_resume a cx (wl_abs wl))"
proof (cases "released (wl_abs wl) a")
  case None
  from assms(1) have r: "wl_rep wl (waiting wl)" by (simp add: wl_inv_def)
  from None assms(3) have "a \<in> set (waiting wl)"
    by (auto simp: q_addrs_def wl_abs_def)
  with wait_inner_poll_parked [OF r assms(2)] obtain wl' where
    "wait_inner_poll a cx wl = Inr (Pending, wl')" "wl_rep wl' (waiting wl)"
    "wl_abs wl' = snd (q_resume a cx (wl_abs wl))"
    by blast
  with None show ?thesis
    by (auto simp: wait_resume_def q_resume_def intro: refinesI)
next
  case (Some out)
  from assms(1) have r: "wl_rep wl (waiting wl)" by (simp add: wl_inv_def)
  from Some obtain w where w: "fmlookup (mem wl) a = Some w" "state w = Output out" "waker w = None"
    and a: "a \<notin> set (waiting wl)"
    by (rule wl_rep_released [OF r])
  let ?wl' = "wl\<lparr>mem := fmdrop a (mem wl)\<rparr>"
  from w assms(2) have "wait_resume a cx wl = Inr (Ready out, ?wl')"
    by (cases wl) (simp add: wait_resume_def wait_inner_poll_def borrow_free drop_borrowed_def
        wait_inner_drop_def try_borrow_def)
  moreover have r': "wl_rep ?wl' (waiting wl)" using r a by (rule wl_rep_remove)
  moreover have "map (entry ((payload (mem wl))(a := None))) (waiting wl) =
      map (entry (payload (mem wl))) (waiting wl)"
    using a by (intro map_entry_cong) auto
  then have "wl_abs ?wl' = snd (q_resume a cx (wl_abs wl))"
    using Some by (simp add: wl_rep_abs [OF r'] wl_rep_abs [OF r] q_resume_def payload_fmdrop)
      (auto simp: outputs_def fun_eq_iff)
  ultimately show ?thesis
    using Some by (auto simp: q_resume_def intro: refinesI)
qed

lemma wait_start_refines:
  assumes "wl_inv wl" and "\<not> borrowed wl" and "a \<notin> q_addrs (wl_abs wl)"
  shows "refines (wait_start a i k wl) (Pending, q_start a i k (wl_abs wl))"
proof -
  from assms(1) have r: "wl_rep wl (waiting wl)" by (simp add: wl_inv_def)
  with assms(3) have f: "fmlookup (mem wl) a = None" by (simp add: wl_rep_addrs)
  with r have a: "a \<notin> set (waiting wl)"
    by (auto simp: wl_rep_def dest: linked_lookup)
  let ?w = "\<lparr>next_ptr = None, prev_ptr = None, state = Input i, waker = Some k\<rparr>"
  let ?wl = "wl\<lparr>mem := fmupd a ?w (mem wl), borrowed := True\<rparr>"
  have "linked (links (mem ?wl)) (inner ?wl) (waiting wl)"
    using wl_rep_insert [OF r f a, of ?w] by simp
  from enqueue_linked [OF this _ _ a, of ?w] obtain h j where
    e: "enqueue a ?wl = Inr (?wl\<lparr>mem := h, inner := j\<rparr>)"
    and l: "linked (links h) j (waiting wl @ [a])" and p: "payload h = payload (mem ?wl)"
    by auto
  let ?wl' = "wl\<lparr>mem := h, inner := j\<rparr>"
  have r': "wl_rep ?wl' (waiting wl @ [a])"
    using r l p a by (auto simp: wl_rep_def consistent_def payload_fmupd)
  have nw: "wait_inner_new a (wl\<lparr>mem := fmupd a ?w (mem wl)\<rparr>) = Inr ?wl'"
    using assms(2) e by (cases wl) (simp add: wait_inner_new_def borrow_free drop_borrowed_def)
  have "map (entry ((payload (mem wl))(a := v))) (waiting wl) = map (entry (payload (mem wl))) (waiting wl)" for v
    using a by (intro map_entry_cong) auto
  then have q: "wl_abs ?wl' = q_start a i k (wl_abs wl)"
    using f by (simp add: wl_rep_abs [OF r'] wl_rep_abs [OF r] q_start_def p payload_fmupd)
      (auto simp: outputs_def payload_def entry_def fun_eq_iff)
  have ra: "released (wl_abs ?wl') a = None"
    using f q by (simp add: q_start_def wl_rep_abs [OF r] outputs_def payload_def)
  have "refines (wait_resume a k ?wl') (q_resume a k (wl_abs ?wl'))"
    using r' assms(2) q by (intro wait_resume_refines) (auto simp: wl_rep_inv q_start_def q_addrs_def)
  moreover have "q_resume a k (wl_abs ?wl') = (Pending, q_start a i k (wl_abs wl))"
  proof -
    have "a \<notin> fst ` set (parked (wl_abs wl))" using assms(3) by (auto simp: q_addrs_def)
    then have "map (\<lambda>(b, i, ka). (b, i, if b = a then k else ka)) (parked (wl_abs wl)) = parked (wl_abs wl)"
      by (intro map_idI) force
    with ra q show ?thesis by (simp add: q_resume_def q_start_def)
  qed
  ultimately show ?thesis
    by (simp add: wait_start_def clone_waker_def nw)
qed

lemma wait_cancel_parked:
  assumes "wl_inv wl" and "\<not> borrowed wl" and "(a, i, k) \<in> set (parked (wl_abs wl))"
  shows "refines (wait_cancel a wl) (Input i, q_cancel a (wl_abs wl))"
proof -
  from assms(1) have r: "wl_rep wl (waiting wl)" by (simp add: wl_inv_def)
  from assms(3) have "a \<in> set (waiting wl)" by (auto simp: wl_abs_def entry_def)
  then obtain ys zs where sp: "waiting wl = ys @ a # zs" by (auto simp: in_set_conv_decomp)
  obtain w i' k' where w: "fmlookup (mem wl) a = Some w" "state w = Input i'" "waker w = Some k'"
    and en: "entry (payload (mem wl)) a = (a, i', k')"
    by (rule wl_rep_parked [OF r \<open>a \<in> set (waiting wl)\<close>])
  have i: "i' = i" using assms(3) en by (auto simp: wl_abs_def entry_def)
  let ?wl = "wl\<lparr>borrowed := True\<rparr>"
  have "linked (links (mem ?wl)) (inner ?wl) (ys @ a # zs)" using r sp by (simp add: wl_rep_def)
  then obtain h j where d: "dequeue a ?wl = Inr (?wl\<lparr>mem := h, inner := j\<rparr>)"
    and l: "linked (links h) j (ys @ zs)" and p: "payload h = payload (mem ?wl)"
    and a: "a \<notin> set (ys @ zs)"
    and r': "wl_rep (?wl\<lparr>mem := fmdrop a h, inner := j\<rparr>) (ys @ zs)"
    using r sp by (elim wl_rep_dequeue) (auto simp: wl_rep_def consistent_def)
  let ?wl' = "wl\<lparr>mem := fmdrop a h, inner := j\<rparr>"
  from p w obtain w' where w': "fmlookup h a = Some w'" "state w' = Input i'" "waker w' = Some k'"
    using payload_Some [of h a "Input i'" "Some k'"] by (auto simp: payload_lookup)
  have "wait_cancel a wl = Inr (Input i, ?wl')"
    using assms(2) w d w' i
    by (cases wl) (simp add: wait_cancel_def wait_inner_drop_def try_borrow_def drop_borrowed_def
        waiter_drop_def)
  moreover have r2: "wl_rep ?wl' (ys @ zs)" using r' by (simp add: wl_rep_def)
  moreover have "wl_abs ?wl' = q_cancel a (wl_abs wl)"
  proof -
    have "map (entry ((payload (mem wl))(a := None))) (ys @ zs) = map (entry (payload (mem wl))) (ys @ zs)"
      using a by (intro map_entry_cong) auto
    moreover have "filter (\<lambda>e. fst e \<noteq> a) (map (entry (payload (mem wl))) (ys @ a # zs)) =
        map (entry (payload (mem wl))) (ys @ zs)"
      using a filter_id_conv [of "\<lambda>x. x \<noteq> a" ys] filter_id_conv [of "\<lambda>x. x \<noteq> a" zs]
      by (auto simp: filter_map o_def)
    ultimately show ?thesis
      using p by (simp add: wl_rep_abs [OF r2] wl_rep_abs [OF r] q_cancel_def payload_fmdrop sp)
        (auto simp: outputs_def fun_eq_iff)
  qed
  ultimately show ?thesis by (rule refinesI)
qed

lemma wait_cancel_released:
  assumes "wl_inv wl" and "\<not> borrowed wl" and "released (wl_abs wl) a = Some out"
  shows "refines (wait_cancel a wl) (Output out, q_cancel a (wl_abs wl))"
proof -
  from assms(1) have r: "wl_rep wl (waiting wl)" by (simp add: wl_inv_def)
  obtain w where w: "fmlookup (mem wl) a = Some w" "state w = Output out" "waker w = None"
    and a: "a \<notin> set (waiting wl)"
    by (rule wl_rep_released [OF r assms(3)])
  let ?wl' = "wl\<lparr>mem := fmdrop a (mem wl)\<rparr>"
  have r': "wl_rep ?wl' (waiting wl)" using r a by (rule wl_rep_remove)
  have "wait_cancel a wl = Inr (Output out, ?wl')"
    using assms(2) w
    by (cases wl) (simp add: wait_cancel_def wait_inner_drop_def try_borrow_def drop_borrowed_def
        waiter_drop_def)
  moreover have "wl_abs ?wl' = q_cancel a (wl_abs wl)"
  proof -
    have "map (entry ((payload (mem wl))(a := None))) (waiting wl) = map (entry (payload (mem wl))) (waiting wl)"
      using a by (intro map_entry_cong) auto
    moreover have "filter (\<lambda>e. fst e \<noteq> a) (map (entry (payload (mem wl))) (waiting wl)) =
        map (entry (payload (mem wl))) (waiting wl)"
      using a by (auto simp: filter_id_conv)
    ultimately show ?thesis
      by (simp add: wl_rep_abs [OF r'] wl_rep_abs [OF r] q_cancel_def payload_fmdrop)
        (auto simp: outputs_def fun_eq_iff)
  qed
  ultimately show ?thesis using r' by (intro refinesI)
qed

text \<open>Whatever the state of the list, a fresh wait is pending: the loops that wait go round at most once.\<close>

lemma wait_start_Pending:
  assumes "wait_start a i k wl = Inr (r, wl')"
  shows "r = Pending"
proof -
  let ?w = "\<lparr>next_ptr = None, prev_ptr = None, state = Input i, waker = Some k\<rparr>"
  from assms obtain wl1 where
    1: "wait_inner_new a (wl\<lparr>mem := fmupd a ?w (mem wl)\<rparr>) = Inr wl1" "wait_resume a k wl1 = Inr (r, wl')"
    by (auto simp: wait_start_def clone_waker_def and_then_eq_Inr)
  then obtain wl2 where
    e: "enqueue a (wl\<lparr>mem := fmupd a ?w (mem wl), borrowed := True\<rparr>) = Inr wl2" "wl1 = wl2\<lparr>borrowed := False\<rparr>"
    by (auto simp: wait_inner_new_def borrow_def try_borrow_def drop_borrowed_def and_then_eq_Inr
        split: if_splits)
  have "payload (mem wl2) a = Some (Input i, Some k)"
    using e(1) by (auto simp: enqueue_def and_then_eq_Inr deref_Inr modify_Inr payload_fmupd
        payload_lookup split: option.splits if_splits)
  then obtain w where "fmlookup (mem wl1) a = Some w" "waker w = Some k"
    using e(2) by (auto simp: payload_Some)
  with 1(2) e(2) show ?thesis
    by (auto simp: wait_resume_def wait_inner_poll_def borrow_def try_borrow_def will_wake_def
        drop_borrowed_def)
qed

section \<open>The interface the primitives rely on\<close>

text \<open>
  The semaphore and the once-cell use the list through these operations and laws.  The
  lemmas of the locale are what their proofs need: waking when someone waits and when no one
  does, draining the whole list, and the life of one waiter.
\<close>

definition q_drain :: "'o \<Rightarrow> ('i, 'o) wait_queue \<Rightarrow> ('i, 'o) wait_queue" where
  "q_drain out q =
     q\<lparr>parked := [],
       released := (\<lambda>a. if a \<in> fst ` set (parked q) then Some out else released q a),
       q_woken := q_woken q @ map (\<lambda>(a, i, k). k) (parked q)\<rparr>"

locale wait_list_spec =
  fixes abs :: "'l \<Rightarrow> ('i, 'o) wait_queue"
    and inv :: "'l \<Rightarrow> bool"
    and l_borrow :: "'l \<Rightarrow> 'l res"
    and l_release :: "'l \<Rightarrow> 'l res"
    and l_empty :: "'l \<Rightarrow> bool"
    and l_head :: "'l \<Rightarrow> 'i option res"
    and l_wake :: "'o \<Rightarrow> 'l \<Rightarrow> (('i, 'o wake_one_error) result \<times> 'l) res"
    and l_start :: "addr \<Rightarrow> 'i \<Rightarrow> waker \<Rightarrow> 'l \<Rightarrow> ('o poll \<times> 'l) res"
    and l_resume :: "addr \<Rightarrow> waker \<Rightarrow> 'l \<Rightarrow> ('o poll \<times> 'l) res"
    and l_cancel :: "addr \<Rightarrow> 'l \<Rightarrow> (('i, 'o) state \<times> 'l) res"
  assumes borrow_law: "inv l \<Longrightarrow> \<not> q_borrowed (abs l) \<Longrightarrow>
        \<exists>l'. l_borrow l = Inr l' \<and> inv l' \<and> abs l' = abs l\<lparr>q_borrowed := True\<rparr>"
    and release_law: "inv l \<Longrightarrow> q_borrowed (abs l) \<Longrightarrow>
        \<exists>l'. l_release l = Inr l' \<and> inv l' \<and> abs l' = abs l\<lparr>q_borrowed := False\<rparr>"
    and empty_law: "inv l \<Longrightarrow> l_empty l \<longleftrightarrow> parked (abs l) = []"
    and head_law: "inv l \<Longrightarrow>
        l_head l = Inr (case parked (abs l) of [] \<Rightarrow> None | (a, i, k) # _ \<Rightarrow> Some i)"
    and wake_law: "inv l \<Longrightarrow>
        \<exists>l'. l_wake out l = Inr (fst (q_wake out (abs l)), l') \<and> inv l' \<and>
             abs l' = snd (q_wake out (abs l))"
    and start_law: "inv l \<Longrightarrow> \<not> q_borrowed (abs l) \<Longrightarrow> a \<notin> q_addrs (abs l) \<Longrightarrow>
        \<exists>l'. l_start a i k l = Inr (Pending, l') \<and> inv l' \<and> abs l' = q_start a i k (abs l)"
    and resume_law: "inv l \<Longrightarrow> \<not> q_borrowed (abs l) \<Longrightarrow> a \<in> q_addrs (abs l) \<Longrightarrow>
        \<exists>l'. l_resume a k l = Inr (fst (q_resume a k (abs l)), l') \<and> inv l' \<and>
             abs l' = snd (q_resume a k (abs l))"
    and cancel_parked_law: "inv l \<Longrightarrow> \<not> q_borrowed (abs l) \<Longrightarrow> (a, i, k) \<in> set (parked (abs l)) \<Longrightarrow>
        \<exists>l'. l_cancel a l = Inr (Input i, l') \<and> inv l' \<and> abs l' = q_cancel a (abs l)"
    and cancel_released_law: "inv l \<Longrightarrow> \<not> q_borrowed (abs l) \<Longrightarrow> released (abs l) a = Some out \<Longrightarrow>
        \<exists>l'. l_cancel a l = Inr (Output out, l') \<and> inv l' \<and> abs l' = q_cancel a (abs l)"
    and distinct_law: "inv l \<Longrightarrow> distinct (map fst (parked (abs l)))"
    and disjoint_law: "inv l \<Longrightarrow> e \<in> set (parked (abs l)) \<Longrightarrow> released (abs l) (fst e) = None"
    and finite_law: "inv l \<Longrightarrow> finite (q_addrs (abs l))"
begin

lemma wake_first:
  assumes "inv l" and "parked (abs l) = (a, i, k) # es"
  shows "\<exists>l'. l_wake out l = Inr (Ok i, l') \<and> inv l' \<and>
     abs l' = abs l\<lparr>parked := es, released := (released (abs l))(a \<mapsto> out),
                  q_woken := q_woken (abs l) @ [k]\<rparr>"
  using wake_law [OF assms(1), of out] assms(2) by (simp add: q_wake_def)

lemma wake_none:
  assumes "inv l" and "parked (abs l) = []"
  shows "\<exists>l'. l_wake out l = Inr (Err (WakeOneError out), l') \<and> inv l' \<and> abs l' = abs l"
  using wake_law [OF assms(1), of out] assms(2) by (simp add: q_wake_def)

lemma drain:
  assumes loop: "\<And>l. loop l = and_then (l_wake out l) (\<lambda>(r, l). case r of Ok _ \<Rightarrow> loop l | Err e \<Rightarrow> finish e l)"
    and "inv l"
  shows "\<exists>l'. loop l = finish (WakeOneError out) l' \<and> inv l' \<and> abs l' = q_drain out (abs l)"
  using assms(2)
proof (induction "parked (abs l)" arbitrary: l)
  case Nil
  from wake_none [OF Nil.prems] Nil.hyps obtain l' where
    "l_wake out l = Inr (Err (WakeOneError out), l')" "inv l'" "abs l' = abs l"
    by metis
  with Nil.hyps show ?case by (auto simp: loop [of l] q_drain_def)
next
  case (Cons e es)
  obtain a i k where e: "e = (a, i, k)" by (cases e)
  from wake_first [OF Cons.prems] Cons.hyps(2) e obtain l' where
    l': "l_wake out l = Inr (Ok i, l')" "inv l'"
    "abs l' = abs l\<lparr>parked := es, released := (released (abs l))(a \<mapsto> out),
                  q_woken := q_woken (abs l) @ [k]\<rparr>"
    by metis
  from Cons.hyps(1) [of l'] l' obtain l2 where
    "loop l' = finish (WakeOneError out) l2" "inv l2" "abs l2 = q_drain out (abs l')"
    by auto
  moreover have "q_drain out (abs l') = q_drain out (abs l)"
    using l'(3) Cons.hyps(2) [symmetric] e by (auto simp: q_drain_def fun_eq_iff)
  ultimately show ?case using l'(1) by (auto simp: loop [of l])
qed

lemma start_then_wake:
  assumes "inv l" "\<not> q_borrowed (abs l)" "a \<notin> q_addrs (abs l)" "parked (abs l) = []"
  shows "\<exists>l1 l2 l3. l_start a i k l = Inr (Pending, l1) \<and> l_wake out l1 = Inr (Ok i, l2) \<and>
     l_resume a k' l2 = Inr (Ready out, l3) \<and> inv l3 \<and>
     abs l3 = abs l\<lparr>q_woken := q_woken (abs l) @ [k]\<rparr>"
proof -
  from start_law [OF assms(1-3)] obtain l1 where
    l1: "l_start a i k l = Inr (Pending, l1)" "inv l1" "abs l1 = q_start a i k (abs l)"
    by blast
  with assms(4) have "parked (abs l1) = (a, i, k) # []" by (simp add: q_start_def)
  from wake_first [OF l1(2) this] obtain l2 where
    l2: "l_wake out l1 = Inr (Ok i, l2)" "inv l2"
    "abs l2 = abs l1\<lparr>parked := [], released := (released (abs l1))(a \<mapsto> out),
                   q_woken := q_woken (abs l1) @ [k]\<rparr>"
    by blast
  have "a \<in> q_addrs (abs l2)" "\<not> q_borrowed (abs l2)"
    using l1 l2 assms(2) by (auto simp: q_addrs_def q_start_def)
  from resume_law [OF l2(2) this(2,1), of k'] obtain l3 where
    l3: "l_resume a k' l2 = Inr (Ready out, l3)" "inv l3" "abs l3 = snd (q_resume a k' (abs l2))"
    using l2(3) by (auto simp: q_resume_def)
  have "released (abs l) a = None" using assms(3) by (auto simp: q_addrs_def)
  then have "(released (abs l))(a := None) = released (abs l)" by (simp add: fun_upd_idem)
  with l3(3) l2(3) l1(3) assms(4) have "abs l3 = abs l\<lparr>q_woken := q_woken (abs l) @ [k]\<rparr>"
    by (simp add: q_resume_def q_start_def)
  with l1 l2 l3 show ?thesis by blast
qed

end

interpretation wl: wait_list_spec wl_abs wl_inv borrow drop_borrowed is_empty head_input wake_one
  wait_start wait_resume wait_cancel
proof unfold_locales
  fix l :: "('i, 'o) wait_list" and out :: 'o and a i k e
  have b: "q_borrowed (wl_abs l) = borrowed l" by (simp add: wl_abs_def)
  assume inv: "wl_inv l"
  show "\<exists>l'. wake_one out l = Inr (fst (q_wake out (wl_abs l)), l') \<and> wl_inv l' \<and>
     wl_abs l' = snd (q_wake out (wl_abs l))"
    using wake_one_refines [OF inv, of out] by (simp add: refines_def)
  show "is_empty l \<longleftrightarrow> parked (wl_abs l) = []" using inv by (rule is_empty_iff)
  show "head_input l = Inr (case parked (wl_abs l) of [] \<Rightarrow> None | (a, i, k) # _ \<Rightarrow> Some i)"
    using inv by (rule head_input_eq)
  show "distinct (map fst (parked (wl_abs l)))" using inv by (rule q_parked_distinct)
  show "finite (q_addrs (wl_abs l))" using inv by (rule finite_q_addrs)
  { assume "e \<in> set (parked (wl_abs l))"
    with inv show "released (wl_abs l) (fst e) = None" by (rule q_parked_not_released) }
  { assume "q_borrowed (wl_abs l)"
    with inv b show "\<exists>l'. drop_borrowed l = Inr l' \<and> wl_inv l' \<and> wl_abs l' = wl_abs l\<lparr>q_borrowed := False\<rparr>"
      by (intro drop_borrowed_refines) simp_all }
  assume "\<not> q_borrowed (wl_abs l)"
  with b have nb: "\<not> borrowed l" by simp
  show "\<exists>l'. borrow l = Inr l' \<and> wl_inv l' \<and> wl_abs l' = wl_abs l\<lparr>q_borrowed := True\<rparr>"
    using inv nb by (rule borrow_refines)
  { assume "a \<notin> q_addrs (wl_abs l)"
    from wait_start_refines [OF inv nb this, of i k]
    show "\<exists>l'. wait_start a i k l = Inr (Pending, l') \<and> wl_inv l' \<and> wl_abs l' = q_start a i k (wl_abs l)"
      by (simp add: refines_def) }
  { assume "a \<in> q_addrs (wl_abs l)"
    from wait_resume_refines [OF inv nb this, of k]
    show "\<exists>l'. wait_resume a k l = Inr (fst (q_resume a k (wl_abs l)), l') \<and> wl_inv l' \<and>
       wl_abs l' = snd (q_resume a k (wl_abs l))"
      by (simp add: refines_def) }
  { assume "(a, i, k) \<in> set (parked (wl_abs l))"
    from wait_cancel_parked [OF inv nb this]
    show "\<exists>l'. wait_cancel a l = Inr (Input i, l') \<and> wl_inv l' \<and> wl_abs l' = q_cancel a (wl_abs l)"
      by (simp add: refines_def) }
  { assume "released (wl_abs l) a = Some out"
    from wait_cancel_released [OF inv nb this]
    show "\<exists>l'. wait_cancel a l = Inr (Output out, l') \<and> wl_inv l' \<and> wl_abs l' = q_cancel a (wl_abs l)"
      by (simp add: refines_def) }
qed

end
