(* ===== verification/Wait_List_System.thy ===== *)
theory Wait_List_System
  imports Wait_List_Spec
begin

text \<open>
  The wait list under any sequence of calls of its public API: futures created by \<open>wait\<close>,
  polled and dropped in any order, borrows taken and released, waiters woken.  The
  properties of the component, and the crate's own unit tests and the examples of its documentation
  run on the model.
\<close>

section \<open>The public API as a step relation\<close>

datatype ('i, 'o) wl_op =
    Wait addr 'i waker
  | Poll addr waker
  | Cancel addr
  | Borrow
  | Release
  | WakeOne 'o
  | SetHeadInput 'i
  | TryBorrow
  | IsEmpty
  | HeadInput

text \<open>What a call returns.\<close>

datatype ('i, 'o) wl_reply =
    Done
  | Polled "'o poll"
  | Freed "('i, 'o) state"
  | Woke "('i, 'o wake_one_error) result"
  | Head "'i option"
  | Answer bool

text \<open>
  What ownership allows: a new future has an address of its own, only a live future is
  polled or dropped, and only the holder of a \<open>Borrowed\<close> releases it or wakes through it.
\<close>

fun wl_enabled :: "('i, 'o) wl_op \<Rightarrow> ('i, 'o) wait_list \<Rightarrow> bool" where
  "wl_enabled (Wait a i k) wl = (fmlookup (mem wl) a = None)"
| "wl_enabled (Poll a k) wl = (fmlookup (mem wl) a \<noteq> None)"
| "wl_enabled (Cancel a) wl = (fmlookup (mem wl) a \<noteq> None)"
| "wl_enabled Borrow wl = True"
| "wl_enabled Release wl = borrowed wl"
| "wl_enabled (WakeOne out) wl = borrowed wl"
| "wl_enabled (SetHeadInput i) wl = borrowed wl"
| "wl_enabled TryBorrow wl = True"
| "wl_enabled IsEmpty wl = borrowed wl"
| "wl_enabled HeadInput wl = borrowed wl"

fun wl_call :: "('i, 'o) wl_op \<Rightarrow> ('i, 'o) wait_list \<Rightarrow> (('i, 'o) wl_reply \<times> ('i, 'o) wait_list) res" where
  "wl_call (Wait a i k) wl = and_then (wait_start a i k wl) (\<lambda>(r, wl). Inr (Polled r, wl))"
| "wl_call (Poll a k) wl = and_then (wait_resume a k wl) (\<lambda>(r, wl). Inr (Polled r, wl))"
| "wl_call (Cancel a) wl = and_then (wait_cancel a wl) (\<lambda>(s, wl). Inr (Freed s, wl))"
| "wl_call Borrow wl = and_then (borrow wl) (\<lambda>wl. Inr (Done, wl))"
| "wl_call Release wl = and_then (drop_borrowed wl) (\<lambda>wl. Inr (Done, wl))"
| "wl_call (WakeOne out) wl = and_then (wake_one out wl) (\<lambda>(r, wl). Inr (Woke r, wl))"
| "wl_call (SetHeadInput i) wl = and_then (head_input_mut (\<lambda>_. i) wl) (\<lambda>(r, wl). Inr (Head r, wl))"
| "wl_call TryBorrow wl = Inr (case try_borrow wl of None \<Rightarrow> (Answer False, wl) | Some wl \<Rightarrow> (Answer True, wl))"
| "wl_call IsEmpty wl = Inr (Answer (is_empty wl), wl)"
| "wl_call HeadInput wl = and_then (head_input wl) (\<lambda>r. Inr (Head r, wl))"

definition wl_exec :: "('i, 'o) wl_op \<Rightarrow> ('i, 'o) wait_list \<Rightarrow> ('i, 'o) wait_list res" where
  "wl_exec op wl = and_then (wl_call op wl) (\<lambda>(_, wl). Inr wl)"

lemma wl_exec_simps [simp]:
  "wl_exec (Wait a i k) wl = and_then (wait_start a i k wl) (\<lambda>(_, wl). Inr wl)"
  "wl_exec (Poll a k) wl = and_then (wait_resume a k wl) (\<lambda>(_, wl). Inr wl)"
  "wl_exec (Cancel a) wl = and_then (wait_cancel a wl) (\<lambda>(_, wl). Inr wl)"
  "wl_exec Borrow wl = borrow wl"
  "wl_exec Release wl = drop_borrowed wl"
  "wl_exec (WakeOne out) wl = and_then (wake_one out wl) (\<lambda>(_, wl). Inr wl)"
  "wl_exec (SetHeadInput i) wl = and_then (head_input_mut (\<lambda>_. i) wl) (\<lambda>(_, wl). Inr wl)"
  "wl_exec TryBorrow wl = Inr (case try_borrow wl of None \<Rightarrow> wl | Some wl \<Rightarrow> wl)"
  "wl_exec IsEmpty wl = Inr wl"
  "wl_exec HeadInput wl = and_then (head_input wl) (\<lambda>_. Inr wl)"
  by (simp_all add: wl_exec_def and_then_assoc case_prod_beta split: option.split)
    (simp_all add: and_then_def split: sum.split)

inductive wl_step :: "('i, 'o) wait_list \<Rightarrow> ('i, 'o) wait_list \<Rightarrow> bool" where
  wl_call: "wl_enabled op wl \<Longrightarrow> wl_exec op wl = Inr wl' \<Longrightarrow> wl_step wl wl'"

inductive_cases wl_stepE: "wl_step wl wl'"

definition wl_start :: "('i, 'o) wait_list \<Rightarrow> bool" where
  "wl_start wl \<longleftrightarrow> wl = wait_list_new"

section \<open>No call breaks the list\<close>

lemma head_input_mut_inv:
  assumes "wl_inv wl"
  shows "\<exists>r wl'. head_input_mut f wl = Inr (r, wl') \<and> wl_inv wl'"
proof (cases "waiting wl")
  case Nil
  with assms have "head_input_mut f wl = Inr (None, wl)"
    by (simp add: wl_inv_def wl_rep_def linked_def head_input_mut_def)
  with assms show ?thesis by blast
next
  case (Cons a xs)
  from assms have r: "wl_rep wl (waiting wl)" by (simp add: wl_inv_def)
  obtain w i k where w: "fmlookup (mem wl) a = Some w" "state w = Input i" "waker w = Some k"
    by (rule wl_rep_parked [OF r, of a]) (simp add: Cons)
  let ?wl' = "wl\<lparr>mem := fmupd a (w\<lparr>state := Input (f i)\<rparr>) (mem wl)\<rparr>"
  have "wl_rep ?wl' (waiting wl)"
    by (rule wl_rep_modify [OF r w(1)]) (simp_all add: w Cons)
  moreover have "head_input_mut f wl = Inr (Some (f i), ?wl')"
    using r w Cons by (simp add: head_input_mut_def wl_rep_def linked_def)
  ultimately show ?thesis by (auto dest: wl_rep_inv)
qed

lemma live_iff_addrs: "wl_inv wl \<Longrightarrow> fmlookup (mem wl) a \<noteq> None \<longleftrightarrow> a \<in> q_addrs (wl_abs wl)"
  unfolding wl_inv_def by (simp add: wl_rep_addrs)

lemma wait_cancel_ok:
  assumes "wl_inv wl" and "\<not> borrowed wl" and "a \<in> q_addrs (wl_abs wl)"
  shows "\<exists>p wl'. wait_cancel a wl = Inr (p, wl') \<and> wl_inv wl'"
  using assms wl.cancel_parked_law [OF assms(1)] wl.cancel_released_law [OF assms(1)]
  unfolding q_addrs_def borrowed_abs dom_def by fastforce

lemma wl_exec_free:
  assumes "wl_inv wl" and "wl_enabled op wl" and "\<not> borrowed wl"
  shows "\<exists>wl'. wl_exec op wl = Inr wl' \<and> wl_inv wl'"
proof (cases op)
  case (Wait a i k)
  with assms wl.start_law [OF assms(1), of a i k] show ?thesis
    using live_iff_addrs [OF assms(1), of a] by (auto simp: borrowed_abs)
next
  case (Poll a k)
  with assms wl.resume_law [OF assms(1), of a k] show ?thesis
    using live_iff_addrs [OF assms(1), of a] by (auto simp: borrowed_abs)
next
  case (Cancel a)
  with assms wait_cancel_ok [OF assms(1,3), of a] show ?thesis
    using live_iff_addrs [OF assms(1), of a] by auto
next
  case Borrow
  with assms wl.borrow_law [OF assms(1)] show ?thesis by (auto simp: borrowed_abs)
next
  case TryBorrow
  with assms wl.borrow_law [OF assms(1)] show ?thesis
    by (auto simp: borrowed_abs borrow_def try_borrow_def)
qed (use assms in auto)

lemma wl_exec_held:
  assumes "wl_inv wl" and "borrowed wl"
  shows "\<exists>wl'. wl_exec Release wl = Inr wl' \<and> wl_inv wl'"
    and "\<exists>wl'. wl_exec (WakeOne out) wl = Inr wl' \<and> wl_inv wl'"
    and "\<exists>wl'. wl_exec (SetHeadInput i) wl = Inr wl' \<and> wl_inv wl'"
    and "wl_exec TryBorrow wl = Inr wl" "wl_exec IsEmpty wl = Inr wl" "wl_exec HeadInput wl = Inr wl"
  using assms wl.release_law [OF assms(1)] wl.wake_law [OF assms(1), of out]
    head_input_mut_inv [OF assms(1), of "\<lambda>_. i"] wl.head_law [OF assms(1)]
  by (auto simp: borrowed_abs try_borrow_def)

lemma wl_exec_busy:
  assumes "borrowed wl"
  shows "wl_exec (Wait a i k) wl = Inl (Panic ''attempted to borrow `WaitList` while it is already borrowed'')"
    and "wl_exec Borrow wl = Inl (Panic ''attempted to borrow `WaitList` while it is already borrowed'')"
    and "wl_exec (Poll a k) wl = Inl Abort"
    and "wl_exec (Cancel a) wl = Inl Abort"
  using assms
  by (simp_all add: wait_start_def clone_waker_def wait_inner_new_def borrow_def try_borrow_def
      wait_resume_def wait_inner_poll_def wait_cancel_def wait_inner_drop_def)

lemma wl_exec_inv:
  assumes "wl_inv wl" and "wl_enabled op wl" and "wl_exec op wl = Inr wl'"
  shows "wl_inv wl'"
proof (cases "borrowed wl")
  case True
  note held = wl_exec_held [OF assms(1) True]
  show ?thesis
  proof (cases op)
    case (WakeOne out)
    with assms(3) held(2) [of out] show ?thesis by (auto simp del: wl_exec_simps)
  next
    case (SetHeadInput i)
    with assms(3) held(3) [of i] show ?thesis by (auto simp del: wl_exec_simps)
  qed (use True assms(1,3) held(1,4-6) in \<open>auto simp: wl_exec_busy simp del: wl_exec_simps\<close>)
next
  case False
  with assms wl_exec_free [OF assms(1,2) False] show ?thesis by auto
qed

interpretation wl_sys: inductive_invariant wl_start wl_step wl_inv
  by unfold_locales (auto simp: wl_start_def new_refines elim!: wl_stepE intro: wl_exec_inv)

section \<open>The pointers, read backwards\<close>

fun walk_back :: "nat \<Rightarrow> ('i, 'o) waiter store \<Rightarrow> addr option \<Rightarrow> addr list" where
  "walk_back 0 h p = []"
| "walk_back (Suc n) h p =
     (case p of
        None \<Rightarrow> []
      | Some a \<Rightarrow> (case fmlookup h a of None \<Rightarrow> [] | Some w \<Rightarrow> a # walk_back n h (prev_ptr w)))"

definition waiting_back :: "('i, 'o) wait_list \<Rightarrow> addr list" where
  "waiting_back wl = walk_back (fcard (fmdom (mem wl))) (mem wl) (tail (inner wl))"

lemma walk_back_chain:
  "chain (links h) None xs nx \<Longrightarrow> length xs \<le> n \<Longrightarrow> walk_back n h (last_of xs None) = rev xs"
proof (induction xs arbitrary: nx n rule: rev_induct)
  case Nil
  then show ?case by (cases n) simp_all
next
  case (snoc x xs)
  then obtain m where "n = Suc m" "length xs \<le> m" by (cases n) auto
  with snoc.prems snoc.IH [of "Some x" m] show ?case by (auto simp: links_Some)
qed

lemma linked_back:
  assumes "linked (links (mem wl)) (inner wl) xs"
  shows "waiting_back wl = rev xs"
  using assms linked_length [OF assms] by (auto simp: waiting_back_def linked_def intro: walk_back_chain)

section \<open>Lists of waiters for the examples\<close>

fun wait_all :: "(addr \<times> 'i \<times> waker) list \<Rightarrow> ('i, 'o) wait_list \<Rightarrow> ('i, 'o) wait_list res" where
  "wait_all [] wl = Inr wl"
| "wait_all ((a, i, k) # es) wl = and_then (wait_start a i k wl) (\<lambda>(_, wl). wait_all es wl)"

lemma wait_all_parks:
  assumes "wl_inv l" and "\<not> borrowed l" and "distinct (map fst es)"
    and "fst ` set es \<inter> q_addrs (wl_abs l) = {}"
  shows "\<exists>l'. wait_all es l = Inr l' \<and> wl_inv l' \<and>
     wl_abs l' = wl_abs l\<lparr>parked := parked (wl_abs l) @ es\<rparr>"
  using assms
proof (induction es arbitrary: l)
  case Nil
  then show ?case by simp
next
  case (Cons e es)
  obtain a i k where e: "e = (a, i, k)" by (cases e)
  with Cons.prems wl.start_law [of l a i k] obtain l1 where
    l1: "wait_start a i k l = Inr (Pending, l1)" "wl_inv l1" "wl_abs l1 = q_start a i k (wl_abs l)"
    by (auto simp: borrowed_abs)
  then have "\<not> borrowed l1" "q_addrs (wl_abs l1) = insert a (q_addrs (wl_abs l))"
    using Cons.prems(2) by (auto simp: borrowed_abs [symmetric] q_start_def q_addrs_def)
  with Cons.IH [of l1] Cons.prems e l1 show ?case by (auto simp: q_start_def)
qed

lemma wait_all_new:
  assumes "distinct (map fst es)"
  shows "\<exists>l. wait_all es wait_list_new = Inr l \<and> wl_inv l \<and> \<not> borrowed l \<and> parked (wl_abs l) = es"
proof -
  have "wl_inv (wait_list_new :: ('a, 'b) wait_list)" "wl_abs (wait_list_new :: ('a, 'b) wait_list) = q_new"
    by (simp_all add: new_refines)
  with wait_all_parks [of "wait_list_new :: ('a, 'b) wait_list" es] assms
  obtain l :: "('a, 'b) wait_list" where "wait_all es wait_list_new = Inr l" "wl_inv l"
    "wl_abs l = q_new\<lparr>parked := es\<rparr>"
    by (auto simp: q_addrs_def q_new_def borrowed_abs [symmetric])
  then show ?thesis by (auto simp: borrowed_abs [symmetric] q_new_def)
qed

section \<open>Properties\<close>

text \<open>C1.
  Memory safety of the intrusive list.  From an empty list, after any calls in any order
  (waits started, polled and dropped, borrows taken and released, waiters woken), a further
  call that ownership allows either completes or ends in the documented refusal because a
  \<open>Borrowed\<close> is still held: a panic for a new borrow or a first poll, an abort for a poll or
  a drop of a parked future.  No dangling pointer is followed, the union is never read at the
  wrong field, and no debug assertion fails.
\<close>

theorem wait_list_memory_safe:
  assumes "reachable wl_start wl_step wl" and "wl_enabled op wl"
  shows "(\<exists>wl'. wl_exec op wl = Inr wl') \<or>
     (borrowed wl \<and> (\<exists>a i k. op \<in> {Wait a i k, Borrow}) \<and>
        wl_exec op wl = Inl (Panic ''attempted to borrow `WaitList` while it is already borrowed'')) \<or>
     (borrowed wl \<and> (\<exists>a k. op \<in> {Poll a k, Cancel a}) \<and> wl_exec op wl = Inl Abort)"
proof (cases "borrowed wl")
  case True
  from assms(1) have "wl_inv wl" by (rule wl_sys.inv_reachable)
  with True wl_exec_held [of wl] show ?thesis
    by (cases op) (auto simp: wl_exec_busy simp del: wl_exec_simps)
next
  case False
  from assms(1) have "wl_inv wl" by (rule wl_sys.inv_reachable)
  with assms(2) False wl_exec_free [of wl op] show ?thesis by blast
qed

theorem wait_list_memory_safe_witness:
  "reachable wl_start wl_step (wait_list_new :: (nat, nat) wait_list) \<and>
   wl_enabled (Wait 1 5 0) (wait_list_new :: (nat, nat) wait_list) \<and>
   (\<exists>wl'. wl_exec (Wait 1 5 0) (wait_list_new :: (nat, nat) wait_list) = Inr wl')"
proof -
  have r: "reachable wl_start wl_step (wait_list_new :: (nat, nat) wait_list)"
    by (rule reach_start) (simp add: wl_start_def)
  have e: "wl_enabled (Wait 1 5 0) (wait_list_new :: (nat, nat) wait_list)"
    by (simp add: wait_list_new_def)
  have "\<not> borrowed (wait_list_new :: (nat, nat) wait_list)" by (simp add: wait_list_new_def)
  with wait_list_memory_safe [OF r e] r e show ?thesis by blast
qed

text \<open>C17.
  The list is well formed whatever was called.  Following the forward pointers from the head and the
  backward pointers from the tail visits the same waiters in opposite order, each once, all of them
  alive; \<open>head\<close> is None exactly when \<open>tail\<close> is.  A live waiter is in the list exactly when it has a
  waker, and exactly then its union is at the input; a waiter that was woken has left the list, has no
  waker any more, and its union is at the output.
\<close>

theorem wait_list_well_formed:
  assumes "reachable wl_start wl_step wl"
  shows "waiting_back wl = rev (waiting wl) \<and> distinct (waiting wl) \<and>
     (head (inner wl) = None \<longleftrightarrow> tail (inner wl) = None) \<and>
     (\<forall>a\<in>set (waiting wl). fmlookup (mem wl) a \<noteq> None) \<and>
     (\<forall>a w. fmlookup (mem wl) a = Some w \<longrightarrow>
        (if a \<in> set (waiting wl) then (\<exists>k i. waker w = Some k \<and> state w = Input i)
         else waker w = None \<and> (\<exists>out. state w = Output out)))"
proof -
  from wl_sys.inv_reachable [OF assms] have r: "linked (links (mem wl)) (inner wl) (waiting wl)"
    "consistent (payload (mem wl)) (waiting wl)"
    by (simp_all add: wl_inv_def wl_rep_def)
  have u: "if a \<in> set (waiting wl) then (\<exists>k i. waker w = Some k \<and> state w = Input i)
      else waker w = None \<and> (\<exists>out. state w = Output out)" if "fmlookup (mem wl) a = Some w" for a w
    using consistent_lookup [OF r(2) that] by (cases "state w") auto
  have e: "head (inner wl) = None \<longleftrightarrow> tail (inner wl) = None" and d: "distinct (waiting wl)"
    using r(1) by (auto simp: linked_def first_of_def last_of_def split: list.splits)
  have l: "fmlookup (mem wl) a \<noteq> None" if "a \<in> set (waiting wl)" for a
    using linked_lookup [OF r(1) that] by auto
  show ?thesis by (intro conjI ballI allI impI linked_back [OF r(1)] d e l u)
qed

theorem wait_list_well_formed_witness:
  "\<exists>wl. run_script wl_enabled wl_exec [(Wait 1 5 0, \<lambda>_. True), (Wait 2 6 3, \<lambda>_. True), (Wait 3 7 3, \<lambda>_. True),
       (Borrow, \<lambda>_. True), (WakeOne 9, \<lambda>_. True)] (wait_list_new :: (nat, nat) wait_list) = Inr wl \<and>
     waiting wl = [2, 3] \<and> waiting_back wl = [3, 2] \<and> (\<forall>w. fmlookup (mem wl) 1 = Some w \<longrightarrow> waker w = None)"
proof -
  let ?calls = "[(Wait 1 5 0, \<lambda>_. True), (Wait 2 6 3, \<lambda>_. True), (Wait 3 7 3, \<lambda>_. True),
      (Borrow, \<lambda>_. True), (WakeOne 9, \<lambda>_. True)]"
  have "passes (run_script wl_enabled wl_exec ?calls (wait_list_new :: (nat, nat) wait_list)) (\<lambda>wl. waiting wl = [2, 3])"
    by code_simp
  then obtain wl :: "(nat, nat) wait_list" where wl: "run_script wl_enabled wl_exec ?calls wait_list_new = Inr wl" "waiting wl = [2, 3]"
    by (rule passesE)
  have "reachable wl_start wl_step (wait_list_new :: (nat, nat) wait_list)"
    by (rule reach_start) (simp add: wl_start_def)
  then have "reachable wl_start wl_step wl" by (rule run_script_reachable [OF wl(1)]) (rule wl_call)
  from wait_list_well_formed [OF this] wl show ?thesis by auto
qed

text \<open>C18.
  First in, first out.  On a list with parked waiters, \<open>wake_one\<close> gives back the input of the
  oldest one, calls its latest waker, leaves the others in their order, and the next poll of
  that waiter's future returns exactly the value passed to \<open>wake_one\<close>.
\<close>

theorem wait_list_fifo:
  assumes "wl_inv l" and "\<not> borrowed l" and "parked (wl_abs l) = (a, i, k) # es"
  shows "\<exists>l1 l2. wake_one out l = Inr (Ok i, l1) \<and> parked (wl_abs l1) = es \<and>
     woken l1 = woken l @ [k] \<and>
     wait_resume a cx l1 = Inr (Ready out, l2) \<and> wl_inv l2 \<and> parked (wl_abs l2) = es"
proof -
  from wl.wake_first [OF assms(1,3), of out] obtain l1 where
    l1: "wake_one out l = Inr (Ok i, l1)" "wl_inv l1"
    "wl_abs l1 = wl_abs l\<lparr>parked := es, released := (released (wl_abs l))(a \<mapsto> out),
       q_woken := q_woken (wl_abs l) @ [k]\<rparr>"
    by blast
  then have "a \<in> q_addrs (wl_abs l1)" "\<not> q_borrowed (wl_abs l1)"
    using assms(2) by (auto simp: q_addrs_def borrowed_abs)
  from wl.resume_law [OF l1(2) this(2,1), of cx] l1(3) obtain l2 where
    "wait_resume a cx l1 = Inr (Ready out, l2)" "wl_inv l2" "parked (wl_abs l2) = es"
    by (auto simp: q_resume_def)
  moreover have "woken l1 = woken l @ [k]"
    using arg_cong [OF l1(3), of q_woken] by (simp add: wl_abs_def)
  ultimately show ?thesis using l1 by auto
qed

theorem wait_list_fifo_witness:
  "\<exists>l l1 l2. wait_all [(1, 5, 0), (2, 7, 3)] wait_list_new = Inr (l :: (nat, nat) wait_list) \<and>
     wake_one 6 l = Inr (Ok 5, l1) \<and> woken l1 = woken l @ [0] \<and>
     wait_resume 1 9 l1 = Inr (Ready 6, l2) \<and> parked (wl_abs l2) = [(2, 7, 3)]"
proof -
  have "distinct (map fst ([(1, 5, 0), (2, 7, 3)] :: (addr \<times> nat \<times> waker) list))" by simp
  from wait_all_new [OF this] obtain l :: "(nat, nat) wait_list" where
    "wait_all [(1, 5, 0), (2, 7, 3)] wait_list_new = Inr l" "wl_inv l" "\<not> borrowed l"
    "parked (wl_abs l) = (1, 5, 0) # [(2, 7, 3)]"
    by blast
  with wait_list_fifo [of l 1 5 0 "[(2, 7, 3)]" 6 9] show ?thesis by blast
qed

text \<open>
  Dropping a parked future removes exactly its own waiter, wherever it stands in the list,
  and gives its input back to be dropped; the others keep their order and their wakers.
\<close>

theorem wait_list_cancel_middle:
  assumes "wl_inv l" and "\<not> borrowed l" and "parked (wl_abs l) = xs @ (a, i, k) # ys"
  shows "\<exists>l'. wait_cancel a l = Inr (Input i, l') \<and> wl_inv l' \<and>
     parked (wl_abs l') = xs @ ys \<and> fmlookup (mem l') a = None \<and> woken l' = woken l"
proof -
  from assms wl.cancel_parked_law [OF assms(1), of a i k] obtain l' where
    l': "wait_cancel a l = Inr (Input i, l')" "wl_inv l'" "wl_abs l' = q_cancel a (wl_abs l)"
    by (auto simp: borrowed_abs)
  from assms wl.distinct_law [OF assms(1)] have "a \<notin> fst ` set (xs @ ys)" by auto
  then have p: "parked (wl_abs l') = xs @ ys"
    using assms(3) l'(3) by (simp add: q_cancel_def filter_fst_neq image_Un)
  then have "a \<notin> q_addrs (wl_abs l')"
    using l'(3) \<open>a \<notin> fst ` set (xs @ ys)\<close> by (simp add: q_addrs_def) (simp add: q_cancel_def)
  with live_iff_addrs [OF l'(2), of a] have "fmlookup (mem l') a = None" by blast
  moreover have "woken l' = woken l"
    using arg_cong [OF l'(3), of q_woken] by (simp add: wl_abs_def q_cancel_def)
  ultimately show ?thesis using l' p by blast
qed

theorem wait_list_cancel_middle_witness:
  "\<exists>l l'. wait_all [(1, 1, 0), (2, 2, 0), (3, 3, 0)] wait_list_new = Inr (l :: (nat, nat) wait_list) \<and>
     wait_cancel 2 l = Inr (Input 2, l') \<and> parked (wl_abs l') = [(1, 1, 0), (3, 3, 0)]"
proof -
  have "distinct (map fst ([(1, 1, 0), (2, 2, 0), (3, 3, 0)] :: (addr \<times> nat \<times> waker) list))" by simp
  from wait_all_new [OF this] obtain l :: "(nat, nat) wait_list" where
    "wait_all [(1, 1, 0), (2, 2, 0), (3, 3, 0)] wait_list_new = Inr l" "wl_inv l" "\<not> borrowed l"
    "parked (wl_abs l) = [(1, 1, 0)] @ (2, 2, 0) # [(3, 3, 0)]"
    by (metis append_Cons append_Nil)
  with wait_list_cancel_middle [of l "[(1, 1, 0)]" 2 2 0 "[(3, 3, 0)]"] show ?thesis by force
qed

text \<open>C27.
  A borrow is exclusive: once taken, \<open>try_borrow\<close> gives nothing, \<open>borrow\<close> and the first
  poll of a wait panic, a poll or a drop of a parked future aborts the process (its memory
  must not be freed while the list points to it), and releasing it makes the list available
  again unchanged.
\<close>

theorem wait_list_exclusive_borrow:
  assumes "borrow wl = Inr wl'"
  shows "try_borrow wl' = None \<and>
     borrow wl' = Inl (Panic ''attempted to borrow `WaitList` while it is already borrowed'') \<and>
     wait_start a i k wl' = Inl (Panic ''attempted to borrow `WaitList` while it is already borrowed'') \<and>
     wait_resume a k wl' = Inl Abort \<and> wait_cancel a wl' = Inl Abort \<and>
     drop_borrowed wl' = Inr wl"
proof -
  from assms have w: "\<not> borrowed wl" "wl' = wl\<lparr>borrowed := True\<rparr>"
    by (auto simp: borrow_def try_borrow_def split: if_splits)
  then have b: "borrowed wl'" by simp
  from w have "drop_borrowed wl' = Inr wl" by (cases wl) (simp add: drop_borrowed_def)
  with b show ?thesis
    by (simp add: try_borrow_def borrow_def wait_start_def clone_waker_def wait_inner_new_def
        wait_resume_def wait_inner_poll_def wait_cancel_def wait_inner_drop_def)
qed

theorem wait_list_exclusive_borrow_witness:
  "\<exists>wl'. borrow (wait_list_new :: (nat, nat) wait_list) = Inr wl' \<and> try_borrow wl' = None \<and>
     wait_cancel 1 wl' = Inl Abort \<and> drop_borrowed wl' = Inr wait_list_new"
proof -
  have "borrow (wait_list_new :: (nat, nat) wait_list) = Inr (wait_list_new\<lparr>borrowed := True\<rparr>)"
    by (simp add: borrow_def try_borrow_def wait_list_new_def)
  with wait_list_exclusive_borrow [OF this, of 1] show ?thesis by blast
qed

section \<open>The unit tests of the crate\<close>

definition expect_pending :: "('o poll \<times> 's) res \<Rightarrow> 's res" where
  "expect_pending m = and_then m (\<lambda>(r, s). assert_that (r = Pending) s)"

fun poll_times :: "nat \<Rightarrow> addr \<Rightarrow> waker \<Rightarrow> ('i, 'o) wait_list \<Rightarrow> ('i, 'o) wait_list res" where
  "poll_times 0 a cx wl = Inr wl"
| "poll_times (Suc n) a cx wl = and_then (expect_pending (wait_resume a cx wl)) (poll_times n a cx)"

definition test_cancel :: "(nat, unit) wait_list res" where
  "test_cancel =
     and_then (expect_pending (wait_start 1 5 0 wait_list_new)) (\<lambda>list.
     and_then (poll_times 9 1 0 list) (\<lambda>list.
     and_then (wait_cancel 1 list) (\<lambda>(_, list). Inr list)))"

definition test_drop_in_middle :: "(nat, unit) wait_list res" where
  "test_drop_in_middle =
     and_then (expect_pending (wait_start 1 1 0 wait_list_new)) (\<lambda>list.
     and_then (expect_pending (wait_start 2 2 0 list)) (\<lambda>list.
     and_then (expect_pending (wait_start 3 3 0 list)) (\<lambda>list.
     and_then (wait_cancel 2 list) (\<lambda>(_, list).
     and_then (wait_cancel 3 list) (\<lambda>(_, list).
     and_then (wait_cancel 1 list) (\<lambda>(_, list).
     and_then (borrow list) (\<lambda>list.
     assert_that (is_empty list) list)))))))"

lemma test_cancel_passes: "\<not> isl test_cancel"
  by code_simp

lemma test_drop_in_middle_passes: "\<not> isl test_drop_in_middle"
  by code_simp

section \<open>The examples of the documentation\<close>

definition try_borrow_example :: "(unit, unit) wait_list res" where
  "try_borrow_example =
     and_then (borrow wait_list_new) (\<lambda>list.
     assert_that (Option.is_none (try_borrow list)) list)"

definition borrow_example :: "(unit, unit) wait_list res" where
  "borrow_example = and_then (borrow wait_list_new) borrow"

text \<open>A \<open>Borrowed\<close> that is a temporary is dropped at the end of its statement.\<close>

definition borrowing ::
  "(('i, 'o) wait_list \<Rightarrow> ('r \<times> ('i, 'o) wait_list) res) \<Rightarrow> ('i, 'o) wait_list \<Rightarrow> ('r \<times> ('i, 'o) wait_list) res" where
  "borrowing f list =
     and_then (borrow list) (\<lambda>list.
     and_then (f list) (\<lambda>(r, list).
     and_then (drop_borrowed list) (\<lambda>list. Inr (r, list))))"

definition look :: "('i, 'o) wait_list \<Rightarrow> ('i option \<times> ('i, 'o) wait_list) res" where
  "look = borrowing (\<lambda>list. and_then (head_input list) (\<lambda>i. Inr (i, list)))"

definition waking :: "'o \<Rightarrow> ('i, 'o) wait_list \<Rightarrow> (('i, 'o wake_one_error) result \<times> ('i, 'o) wait_list) res" where
  "waking out = borrowing (wake_one out)"

definition expecting :: "('r \<Rightarrow> bool) \<Rightarrow> ('r \<times> 's) res \<Rightarrow> 's res" where
  "expecting P m = and_then m (\<lambda>(r, s). assert_that (P r) s)"

fun is_ok :: "('a, 'e) result \<Rightarrow> bool" where
  "is_ok (Ok v) = True"
| "is_ok (Err e) = False"

definition wake_one_example :: "(usize, nat) wait_list res" where
  "wake_one_example =
     and_then (expect_pending (wait_start 1 5 0 wait_list_new)) (\<lambda>list.
     and_then (expecting (\<lambda>i. i = Some 5) (look list)) (\<lambda>list.
     and_then (expecting is_ok (waking 6 list)) (\<lambda>list.
     and_then (expecting (\<lambda>r. r = Ready 6) (wait_resume 1 0 list)) (\<lambda>list.
     expecting (\<lambda>i. i = None) (look list)))))"

definition wake_many_example :: "(usize, nat) wait_list res" where
  "wake_many_example =
     and_then (expect_pending (wait_start 1 1 0 wait_list_new)) (\<lambda>list.
     and_then (expect_pending (wait_start 2 2 0 list)) (\<lambda>list.
     and_then (expecting is_ok (waking 1 list)) (\<lambda>list.
     and_then (expect_pending (wait_start 3 3 0 list)) (\<lambda>list.
     and_then (expecting is_ok (waking 2 list)) (\<lambda>list.
     and_then (expecting is_ok (waking 3 list)) (\<lambda>list.
     and_then (expecting (\<lambda>r. r = Ready 1) (wait_resume 1 0 list)) (\<lambda>list.
     and_then (expecting (\<lambda>r. r = Ready 2) (wait_resume 2 0 list)) (\<lambda>list.
     expecting (\<lambda>r. r = Ready 3) (wait_resume 3 0 list)))))))))"

definition wake_nobody_example :: "(unit, unit) wait_list res" where
  "wake_nobody_example =
     and_then (expecting (\<lambda>r. \<not> is_ok r) (waking () wait_list_new)) (\<lambda>list.
     expecting (\<lambda>i. i = None) (look list))"

lemma wait_list_examples_pass:
  "\<not> isl try_borrow_example"
  "borrow_example = Inl (Panic ''attempted to borrow `WaitList` while it is already borrowed'')"
  "\<not> isl wake_one_example"
  "\<not> isl wake_many_example"
  "\<not> isl wake_nobody_example"
  by code_simp+

end
