(* ===== verification/Call_Refinement.thy ===== *)
theory Call_Refinement
  imports Unsync_Prelude
begin

text \<open>
  Sequences of calls and their refinement.  A call answers with a reply and a new state, or with
  \<open>None\<close> when ownership does not allow it or it does not complete.  When a component answers every
  call as its specification does, it answers every sequence of calls so; the locale
  \<open>call_refinement\<close> is interpreted by each component that has such a specification.
\<close>

definition answer :: "('op \<Rightarrow> 's \<Rightarrow> bool) \<Rightarrow> ('op \<Rightarrow> 's \<Rightarrow> ('r \<times> 's) res) \<Rightarrow> 'op \<Rightarrow> 's \<Rightarrow> ('r \<times> 's) option" where
  "answer enabled call op s =
     (if enabled op s then (case call op s of Inl _ \<Rightarrow> None | Inr rs \<Rightarrow> Some rs) else None)"

lemma answer_Some: "answer enabled call op s = Some rs \<longleftrightarrow> enabled op s \<and> call op s = Inr rs"
  by (auto simp: answer_def split: sum.split)

lemma answer_simps [simp]:
  "\<not> enabled op s \<Longrightarrow> answer enabled call op s = None"
  "call op s = Inr rs \<Longrightarrow> enabled op s \<Longrightarrow> answer enabled call op s = Some rs"
  by (simp_all add: answer_def)

fun run_calls :: "('op \<Rightarrow> 's \<Rightarrow> ('r \<times> 's) option) \<Rightarrow> 'op list \<Rightarrow> 's \<Rightarrow> ('r list \<times> 's) option" where
  "run_calls call [] s = Some ([], s)"
| "run_calls call (op # ops) s =
     Option.bind (call op s) (\<lambda>(r, s). map_option (\<lambda>(rs, s). (r # rs, s)) (run_calls call ops s))"

text \<open>
  The general contract: the specification may leave choices open, and the code makes them; and the
  invariant may have to budget for the calls that are still to come.
\<close>

locale call_simulation =
  fixes code :: "'op \<Rightarrow> 's \<Rightarrow> ('r \<times> 's) option"
    and spec :: "'k \<Rightarrow> 'op \<Rightarrow> 'a \<Rightarrow> ('r \<times> 'a) option"
    and abs :: "'s \<Rightarrow> 'a"
    and inv :: "nat \<Rightarrow> 's \<Rightarrow> bool"
  assumes choice_law: "inv (Suc n) s \<Longrightarrow>
      \<exists>k. map_option (\<lambda>(r, s). (r, abs s)) (code op s) = spec k op (abs s)"
    and budget_law: "inv (Suc n) s \<Longrightarrow> code op s = Some (r, s') \<Longrightarrow> inv n s'"
begin

lemma runs_simulate:
  assumes "inv (length ops) s"
  shows "\<exists>ks. length ks = length ops \<and>
     map_option (\<lambda>(rs, s). (rs, abs s)) (run_calls code ops s) =
       run_calls (\<lambda>(k, op). spec k op) (zip ks ops) (abs s)"
  using assms
proof (induction ops arbitrary: s)
  case (Cons op ops)
  from Cons.prems have i: "inv (Suc (length ops)) s" by simp
  from choice_law [OF i, of op] obtain k where
    k: "map_option (\<lambda>(r, s). (r, abs s)) (code op s) = spec k op (abs s)" by blast
  show ?case
  proof (cases "code op s")
    case None
    with k show ?thesis by (intro exI [of _ "k # replicate (length ops) k"]) simp
  next
    case (Some rs)
    obtain r t where rs: "rs = (r, t)" by (cases rs)
    with Some k have "spec k op (abs s) = Some (r, abs t)" by simp
    moreover from Cons.IH [OF budget_law [OF i, of op r t]] Some rs obtain ks where
      "length ks = length ops"
      "run_calls (\<lambda>(k, op). spec k op) (zip ks ops) (abs t) =
        map_option (\<lambda>(rs, s). (rs, abs s)) (run_calls code ops t)" by auto
    ultimately show ?thesis
      using Some rs by (intro exI [of _ "k # ks"]) (cases "run_calls code ops t"; auto)
  qed
qed simp

end

lemma run_calls_unit:
  "length ks = length ops \<Longrightarrow> run_calls (\<lambda>(k :: unit, op). call op) (zip ks ops) s = run_calls call ops s"
  by (induction ks ops arbitrary: s rule: list_induct2) simp_all

text \<open>Most specifications leave no choice, and most invariants hold for ever.\<close>

locale call_refinement =
  fixes code :: "'op \<Rightarrow> 's \<Rightarrow> ('r \<times> 's) option"
    and spec :: "'op \<Rightarrow> 'a \<Rightarrow> ('r \<times> 'a) option"
    and abs :: "'s \<Rightarrow> 'a"
    and inv :: "'s \<Rightarrow> bool"
  assumes call_law: "inv s \<Longrightarrow> map_option (\<lambda>(r, s). (r, abs s)) (code op s) = spec op (abs s)"
    and inv_law: "inv s \<Longrightarrow> code op s = Some (r, s') \<Longrightarrow> inv s'"

sublocale call_refinement \<subseteq> choiceless: call_simulation code "\<lambda>k :: unit. spec" abs "\<lambda>n. inv"
  by unfold_locales (use call_law inv_law in blast)+

context call_refinement
begin

lemma runs_refine:
  assumes "inv s"
  shows "map_option (\<lambda>(rs, s). (rs, abs s)) (run_calls code ops s) = run_calls spec ops (abs s)"
  using choiceless.runs_simulate [where ops = ops and s = s] assms run_calls_unit [of _ ops spec] by auto

end

end
