(* ===== verification/Wait_List_Refinement.thy ===== *)
theory Wait_List_Refinement
  imports Wait_List_System Call_Refinement
begin

text \<open>
  The whole public API of the wait list against its abstract specification: the queue of waiters
  with the outputs handed out, on which each call is a short equation (\<open>q_call\<close>).  Any sequence of
  calls gives the same replies on the pointers and on the queue, and parking then cancelling a future
  restores every pointer.
\<close>

section \<open>The specification\<close>

fun q_head :: "('i, 'o) wait_queue \<Rightarrow> 'i option" where
  "q_head q = (case parked q of [] \<Rightarrow> None | (a, i, k) # es \<Rightarrow> Some i)"

definition q_set_head :: "'i \<Rightarrow> ('i, 'o) wait_queue \<Rightarrow> ('i, 'o) wait_queue" where
  "q_set_head j q = q\<lparr>parked := (case parked q of [] \<Rightarrow> [] | (a, i, k) # es \<Rightarrow> (a, j, k) # es)\<rparr>"

text \<open>What waits at an address: the input of a parked future, or the output of a woken one.\<close>

definition q_slot :: "addr \<Rightarrow> ('i, 'o) wait_queue \<Rightarrow> ('i, 'o) state option" where
  "q_slot a q =
     (case released q a of
        Some out \<Rightarrow> Some (Output out)
      | None \<Rightarrow> map_option (\<lambda>(i, k). Input i) (map_of (parked q) a))"

text \<open>\<open>None\<close>: ownership does not allow the call, or it is refused because a borrow is held.\<close>

fun q_call :: "('i, 'o) wl_op \<Rightarrow> ('i, 'o) wait_queue \<Rightarrow> (('i, 'o) wl_reply \<times> ('i, 'o) wait_queue) option" where
  "q_call (Wait a i k) q =
     (if q_borrowed q \<or> \<not> Option.is_none (q_slot a q) then None else Some (Polled Pending, q_start a i k q))"
| "q_call (Poll a k) q =
     (if q_borrowed q \<or> Option.is_none (q_slot a q) then None
      else Some (Polled (fst (q_resume a k q)), snd (q_resume a k q)))"
| "q_call (Cancel a) q =
     (if q_borrowed q then None else map_option (\<lambda>s. (Freed s, q_cancel a q)) (q_slot a q))"
| "q_call Borrow q = (if q_borrowed q then None else Some (Done, q\<lparr>q_borrowed := True\<rparr>))"
| "q_call TryBorrow q = Some (Answer (\<not> q_borrowed q), q\<lparr>q_borrowed := True\<rparr>)"
| "q_call Release q = (if q_borrowed q then Some (Done, q\<lparr>q_borrowed := False\<rparr>) else None)"
| "q_call (WakeOne out) q =
     (if q_borrowed q then Some (Woke (fst (q_wake out q)), snd (q_wake out q)) else None)"
| "q_call (SetHeadInput i) q =
     (if q_borrowed q then Some (Head (q_head (q_set_head i q)), q_set_head i q) else None)"
| "q_call IsEmpty q = (if q_borrowed q then Some (Answer (parked q = []), q) else None)"
| "q_call HeadInput q = (if q_borrowed q then Some (Head (q_head q), q) else None)"

abbreviation q_run :: "('i, 'o) wl_op list \<Rightarrow> ('i, 'o) wait_queue \<Rightarrow> (('i, 'o) wl_reply list \<times> ('i, 'o) wait_queue) option" where
  "q_run \<equiv> run_calls q_call"

text \<open>The same for the code.\<close>

definition wl_reply :: "('i, 'o) wl_op \<Rightarrow> ('i, 'o) wait_list \<Rightarrow> (('i, 'o) wl_reply \<times> ('i, 'o) wait_list) option" where
  "wl_reply = answer wl_enabled wl_call"

abbreviation wl_run :: "('i, 'o) wl_op list \<Rightarrow> ('i, 'o) wait_list \<Rightarrow> (('i, 'o) wl_reply list \<times> ('i, 'o) wait_list) option" where
  "wl_run \<equiv> run_calls wl_reply"

lemma wl_reply_eq:
  "wl_reply op wl =
     (if wl_enabled op wl then (case wl_call op wl of Inl _ \<Rightarrow> None | Inr r \<Rightarrow> Some r) else None)"
  by (simp add: wl_reply_def answer_def)

section \<open>Each call\<close>

lemma head_input_mut_refines:
  assumes "wl_inv wl"
  shows "refines (head_input_mut (\<lambda>_. j) wl) (q_head (q_set_head j (wl_abs wl)), q_set_head j (wl_abs wl))"
proof (cases "waiting wl")
  case Nil
  then have "parked (wl_abs wl) = []" by (simp add: wl_abs_def)
  moreover have "head_input_mut (\<lambda>_. j) wl = Inr (None, wl)"
    using assms Nil by (simp add: wl_inv_def wl_rep_def linked_def head_input_mut_def)
  ultimately show ?thesis
    using assms by (cases "wl_abs wl") (simp add: refines_def q_set_head_def)
next
  case (Cons a xs)
  from assms have r: "wl_rep wl (a # xs)" using Cons by (simp add: wl_inv_def)
  obtain w i k where w: "fmlookup (mem wl) a = Some w" "state w = Input i" "waker w = Some k"
    "entry (payload (mem wl)) a = (a, i, k)"
    by (rule wl_rep_parked [OF r, of a]) simp
  have a: "a \<notin> set xs" using r by (simp add: wl_rep_def linked_def)
  let ?wl' = "wl\<lparr>mem := fmupd a (w\<lparr>state := Input j\<rparr>) (mem wl)\<rparr>"
  have r': "wl_rep ?wl' (a # xs)"
    by (rule wl_rep_modify [OF r w(1)]) (simp_all add: w)
  have "head_input_mut (\<lambda>_. j) wl = Inr (Some j, ?wl')"
    using r w by (simp add: head_input_mut_def wl_rep_def linked_def)
  moreover have "wl_abs ?wl' = q_set_head j (wl_abs wl)"
  proof -
    have "map (entry ((payload (mem wl))(a := v))) xs = map (entry (payload (mem wl))) xs" for v
      using a by (intro map_entry_cong) auto
    then show ?thesis
      using w by (simp add: wl_rep_abs [OF r'] wl_rep_abs [OF r] q_set_head_def payload_fmupd)
        (auto simp: entry_def outputs_def payload_def fun_eq_iff)
  qed
  moreover have "q_head (q_set_head j (wl_abs wl)) = Some j"
    using w(4) by (simp add: wl_rep_abs [OF r] q_set_head_def)
  ultimately show ?thesis using r' by (auto intro: refinesI)
qed

lemma q_slot_live:
  fixes wl :: "('i, 'o) wait_list"
  assumes "wl_inv wl"
  shows "q_slot a (wl_abs wl) = None \<longleftrightarrow> fmlookup (mem wl) a = None"
proof -
  have "q_slot a q = None \<longleftrightarrow> a \<notin> q_addrs q" for q :: "('i, 'o) wait_queue"
    by (auto simp: q_slot_def q_addrs_def map_of_eq_None_iff split: option.split)
  with live_iff_addrs [OF assms, of a] show ?thesis by auto
qed

lemma wait_cancel_refines:
  assumes "wl_inv wl" and "\<not> borrowed wl" and "q_slot a (wl_abs wl) = Some s"
  shows "refines (wait_cancel a wl) (s, q_cancel a (wl_abs wl))"
proof (cases "released (wl_abs wl) a")
  case None
  with assms(3) obtain i k where "map_of (parked (wl_abs wl)) a = Some (i, k)" "s = Input i"
    by (auto simp: q_slot_def)
  with wait_cancel_parked [OF assms(1,2) map_of_SomeD] show ?thesis by blast
next
  case (Some out)
  with wait_cancel_released [OF assms(1,2) Some] assms(3) show ?thesis by (simp add: q_slot_def)
qed

text \<open>The queue gives what the list gives, and what it becomes is what the list becomes.\<close>

definition simulates ::
  "('r \<times> ('i, 'o) wait_list) option \<Rightarrow> ('r \<times> ('i, 'o) wait_queue) option \<Rightarrow> bool" where
  "simulates m q \<longleftrightarrow> map_option (\<lambda>(r, wl). (r, wl_abs wl)) m = q \<and> (\<forall>r wl. m = Some (r, wl) \<longrightarrow> wl_inv wl)"

lemma refines_simulates:
  "refines m (r, q) \<Longrightarrow> simulates (case and_then m (\<lambda>(r, wl). Inr (f r, wl)) of Inl _ \<Rightarrow> None | Inr r \<Rightarrow> Some r) (Some (f r, q))"
  by (auto simp: refines_def simulates_def)

lemma simulates_None [simp]: "simulates None q \<longleftrightarrow> q = None"
  by (auto simp: simulates_def)

lemma simulates_Some: "wl_inv wl \<Longrightarrow> wl_abs wl = q \<Longrightarrow> simulates (Some (r, wl)) (Some (r, q))"
  by (simp add: simulates_def)

lemma call_busy: "wl_exec op wl = Inl e \<Longrightarrow> wl_reply op wl = None"
  by (auto simp: wl_exec_def wl_reply_eq and_then_eq_Inl)

lemma borrowed_call_simulates:
  assumes "wl_inv wl" and "borrowed wl"
  shows "simulates (wl_reply op wl) (q_call op (wl_abs wl))"
proof (cases op)
  case Release
  with wl.release_law [OF assms(1)] assms(2) borrowed_abs [of wl] show ?thesis
    by (auto simp: wl_reply_eq intro: simulates_Some)
next
  case (WakeOne out)
  have "refines (wake_one out wl) (fst (q_wake out (wl_abs wl)), snd (q_wake out (wl_abs wl)))"
    using wake_one_refines [OF assms(1)] by simp
  from refines_simulates [OF this, of Woke] WakeOne assms(2) borrowed_abs [of wl] show ?thesis by (simp add: wl_reply_eq)
next
  case (SetHeadInput i)
  from refines_simulates [OF head_input_mut_refines [OF assms(1), of i], of Head] SetHeadInput
    assms(2) borrowed_abs [of wl]
  show ?thesis by (simp add: wl_reply_eq)
next
  case TryBorrow
  with assms assms(2) borrowed_abs [of wl] show ?thesis
    by (cases "wl_abs wl") (auto simp: wl_reply_eq try_borrow_def intro!: simulates_Some)
next
  case IsEmpty
  with assms borrowed_abs [of wl] is_empty_iff [OF assms(1)] show ?thesis by (auto simp: wl_reply_eq intro: simulates_Some)
next
  case HeadInput
  with assms borrowed_abs [of wl] head_input_eq [OF assms(1)] show ?thesis by (auto simp: wl_reply_eq intro: simulates_Some)
qed (use assms(2) borrowed_abs [of wl] wl_exec_busy [OF assms(2), THEN call_busy]
       in \<open>auto simp del: wl_enabled.simps wl_call.simps\<close>)

lemma wait_simulates:
  assumes "wl_inv wl" and "\<not> borrowed wl"
  shows "simulates (wl_reply (Wait a i k) wl) (q_call (Wait a i k) (wl_abs wl))"
proof (cases "fmlookup (mem wl) a")
  case None
  with live_iff_addrs [OF assms(1), of a] have "a \<notin> q_addrs (wl_abs wl)" by simp
  from refines_simulates [OF wait_start_refines [OF assms this, of i k], of Polled] None
    assms(2) borrowed_abs [of wl] q_slot_live [OF assms(1), of a]
  show ?thesis by (simp add: wl_reply_eq Option.is_none_def)
qed (use assms(2) borrowed_abs [of wl] q_slot_live [OF assms(1), of a]
       in \<open>simp add: wl_reply_eq Option.is_none_def\<close>)

lemma poll_simulates:
  assumes "wl_inv wl" and "\<not> borrowed wl"
  shows "simulates (wl_reply (Poll a k) wl) (q_call (Poll a k) (wl_abs wl))"
proof (cases "fmlookup (mem wl) a")
  case (Some w)
  with live_iff_addrs [OF assms(1), of a] have "a \<in> q_addrs (wl_abs wl)" by simp
  then have "refines (wait_resume a k wl) (fst (q_resume a k (wl_abs wl)), snd (q_resume a k (wl_abs wl)))"
    using wait_resume_refines [OF assms] by simp
  from refines_simulates [OF this, of Polled] Some assms(2) borrowed_abs [of wl] q_slot_live [OF assms(1), of a]
  show ?thesis by (auto simp: wl_reply_eq Option.is_none_def)
qed (use assms(2) borrowed_abs [of wl] q_slot_live [OF assms(1), of a]
       in \<open>simp add: wl_reply_eq Option.is_none_def\<close>)

lemma cancel_simulates:
  assumes "wl_inv wl" and "\<not> borrowed wl"
  shows "simulates (wl_reply (Cancel a) wl) (q_call (Cancel a) (wl_abs wl))"
proof (cases "q_slot a (wl_abs wl)")
  case (Some s)
  from refines_simulates [OF wait_cancel_refines [OF assms Some], of Freed] Some
    assms(2) borrowed_abs [of wl] q_slot_live [OF assms(1), of a]
  show ?thesis by (simp add: wl_reply_eq)
qed (use assms(2) borrowed_abs [of wl] q_slot_live [OF assms(1), of a] in \<open>simp add: wl_reply_eq\<close>)

lemma free_call_simulates:
  assumes "wl_inv wl" and "\<not> borrowed wl"
  shows "simulates (wl_reply op wl) (q_call op (wl_abs wl))"
proof (cases op)
  case (Wait a i k)
  with wait_simulates [OF assms] show ?thesis by simp
next
  case (Poll a k)
  with poll_simulates [OF assms] show ?thesis by simp
next
  case (Cancel a)
  with cancel_simulates [OF assms] show ?thesis by simp
next
  case Borrow
  with wl.borrow_law [OF assms(1)] assms(2) borrowed_abs [of wl] show ?thesis
    by (auto simp: wl_reply_eq intro: simulates_Some)
next
  case TryBorrow
  with wl.borrow_law [OF assms(1)] assms(2) borrowed_abs [of wl] show ?thesis
    by (auto simp: wl_reply_eq borrow_def try_borrow_def intro: simulates_Some)
qed (use assms(2) borrowed_abs [of wl] in \<open>simp_all add: wl_reply_eq\<close>)

lemma call_simulates:
  assumes "wl_inv wl"
  shows "simulates (wl_reply op wl) (q_call op (wl_abs wl))"
  using borrowed_call_simulates [OF assms] free_call_simulates [OF assms] by blast

interpretation wl_calls: call_refinement wl_reply q_call wl_abs wl_inv
  by unfold_locales (use call_simulates in \<open>auto simp: simulates_def\<close>)

text \<open>The definitions that one poll and one drop of a future go through.\<close>

lemmas wait_defs = wait_start_def clone_waker_def wait_inner_new_def borrow_def try_borrow_def enqueue_def
  drop_borrowed_def wait_resume_def wait_inner_poll_def will_wake_def wait_cancel_def wait_inner_drop_def
  dequeue_defs waiter_drop_def

text \<open>A run through most of the calls.\<close>

lemma wl_run_example:
  "map_option fst (wl_run [Wait 1 5 0, Wait 2 7 3, Borrow, TryBorrow, SetHeadInput 6, WakeOne 9, IsEmpty, HeadInput,
       Release, Poll 1 0, Cancel 2] (wait_list_new :: (nat, nat) wait_list)) =
     Some [Polled Pending, Polled Pending, Done, Answer False, Head (Some 6), Woke (Ok 6), Answer False,
       Head (Some 7), Done, Polled (Ready 9), Freed (Input 7)]"
  by code_simp

section \<open>Properties\<close>

text \<open>C10.
  The intrusive list is its specification.  For any sequence of public calls on a new list, the
  pointer program completes every call with a reply exactly when the abstract queue allows the whole
  sequence, the replies are equal one by one, and what the pointers represent at the end is the
  queue that results.
\<close>

theorem wait_list_refines_queue:
  "map_option (\<lambda>(replies, wl). (replies, wl_abs wl)) (wl_run ops wait_list_new) = q_run ops q_new"
proof -
  have "wl_inv (wait_list_new :: ('a, 'b) wait_list) \<and> wl_abs (wait_list_new :: ('a, 'b) wait_list) = q_new"
    by (rule new_refines)
  with wl_calls.runs_refine [of wait_list_new ops] show ?thesis by simp
qed

text \<open>C38.
  A future that is polled once and dropped leaves no trace: the list is what it was, in every pointer
  of every waiter, in both ends and in its memory, and the input is given back.
\<close>

theorem wait_list_cancel_undoes_wait:
  assumes "wl_inv l" and "\<not> borrowed l" and "fmlookup (mem l) a = None"
  shows "\<exists>l'. wait_start a i k l = Inr (Pending, l') \<and> wait_cancel a l' = Inr (Input i, l)"
proof -
  from assms(1) have r: "wl_rep l (waiting l)" by (simp add: wl_inv_def)
  have mem: "fmdrop a (mem l) = mem l" by (rule fmdrop_idle) (use assms(3) in \<open>simp add: fmdom_notI\<close>)
  show ?thesis
  proof (cases "waiting l" rule: rev_cases)
    case Nil
    with r have "head (inner l) = None" "tail (inner l) = None" by (simp_all add: wl_rep_def linked_def)
    with assms(2) mem show ?thesis
      by (cases l, cases "inner l") (simp add: wait_defs fmdrop_fmupd)
  next
    case (snoc xs p)
    from r snoc have "links (mem l) p = Some (last_of xs None, None)" "head (inner l) \<noteq> None"
      "tail (inner l) = Some p"
      by (auto simp: wl_rep_def linked_def first_of_def split: list.split)
    then obtain w x where p: "fmlookup (mem l) p = Some w" "next_ptr w = None" "head (inner l) = Some x"
      "tail (inner l) = Some p"
      by (auto simp: links_Some)
    have "p \<noteq> a" "a \<noteq> p" using p(1) assms(3) by auto
    with p assms(2) mem show ?thesis
      by (cases l, cases "inner l", cases w) (simp add: wait_defs fmdrop_fmupd fmupd_idle)
  qed
qed

theorem wait_list_cancel_undoes_wait_witness:
  "\<exists>l l'. wait_all [(1, 5, 0)] wait_list_new = Inr (l :: (nat, nat) wait_list) \<and>
     wait_start 2 6 3 l = Inr (Pending, l') \<and> wait_cancel 2 l' = Inr (Input 6, l)"
proof -
  have "distinct (map fst ([(1, 5, 0)] :: (addr \<times> nat \<times> waker) list))" by simp
  from wait_all_new [OF this] obtain l :: "(nat, nat) wait_list" where
    l: "wait_all [(1, 5, 0)] wait_list_new = Inr l" "wl_inv l" "\<not> borrowed l" by blast
  have "passes (wait_all [(1, 5, 0)] (wait_list_new :: (nat, nat) wait_list)) (\<lambda>l. Option.is_none (fmlookup (mem l) 2))"
    by code_simp
  with l(1) have "fmlookup (mem l) 2 = None" by (simp add: passes_def Option.is_none_def)
  with wait_list_cancel_undoes_wait [of l 2 6 3] l show ?thesis by blast
qed

end
