(* ===== verification/Mutex.thy ===== *)
theory Mutex
  imports Wait_List_Spec
begin

text \<open>
  The unfair mutex that the documentation of \<open>WaitList\<close> (\<open>src/wait_list.rs\<close>) builds on the list:
  its code, the clients that hold guards and suspended \<open>lock\<close> futures, and what it guarantees.
  A guard carries no data, so the clients count the guards that are alive.
\<close>

section \<open>The code\<close>

record 'd mutex =
  data :: 'd
  locked :: bool
  lock_waiters :: "(unit, unit) wait_list"

definition mutex_new :: "'d \<Rightarrow> 'd mutex" where
  "mutex_new d = \<lparr>data = d, locked = False, lock_waiters = wait_list_new\<rparr>"

text \<open>
  The loop of \<open>lock\<close>, from its test on.  A fresh wait is always pending, so a round either ends
  with the guard or suspends.
\<close>

function lock_loop :: "addr \<Rightarrow> waker \<Rightarrow> 'd mutex \<Rightarrow> (unit poll \<times> 'd mutex) res" where
  "lock_loop a cx m =
     (let was_locked = locked m; m = m\<lparr>locked := True\<rparr> in
      if \<not> was_locked then Inr (Ready (), m)
      else
        and_then (wait_start a () cx (lock_waiters m)) (\<lambda>(r, wl).
        case r of
          Pending \<Rightarrow> Inr (Pending, m\<lparr>lock_waiters := wl\<rparr>)
        | Ready _ \<Rightarrow> lock_loop a cx (m\<lparr>lock_waiters := wl\<rparr>)))"
  by pat_completeness auto
termination
  by (relation "{}") (auto dest: wait_start_Pending)

declare lock_loop.simps [simp del]

definition lock_resume :: "addr \<Rightarrow> waker \<Rightarrow> 'd mutex \<Rightarrow> (unit poll \<times> 'd mutex) res" where
  "lock_resume a cx m =
     and_then (wait_resume a cx (lock_waiters m)) (\<lambda>(r, wl).
     case r of
       Pending \<Rightarrow> Inr (Pending, m\<lparr>lock_waiters := wl\<rparr>)
     | Ready _ \<Rightarrow> lock_loop a cx (m\<lparr>lock_waiters := wl\<rparr>))"

definition lock_drop :: "addr \<Rightarrow> 'd mutex \<Rightarrow> 'd mutex res" where
  "lock_drop a m =
     and_then (wait_cancel a (lock_waiters m)) (\<lambda>(slot, wl). Inr (m\<lparr>lock_waiters := wl\<rparr>))"

definition mutex_deref :: "'d mutex \<Rightarrow> 'd" where
  "mutex_deref m = data m"

definition mutex_deref_mut :: "('d \<Rightarrow> 'd) \<Rightarrow> 'd mutex \<Rightarrow> 'd mutex" where
  "mutex_deref_mut f m = m\<lparr>data := f (data m)\<rparr>"

definition mutex_guard_drop :: "'d mutex \<Rightarrow> 'd mutex res" where
  "mutex_guard_drop m =
     (let m = m\<lparr>locked := False\<rparr> in
      and_then (borrow (lock_waiters m)) (\<lambda>wl.
      and_then (wake_one () wl) (\<lambda>(r, wl).
      and_then (drop_borrowed wl) (\<lambda>wl. Inr (m\<lparr>lock_waiters := wl\<rparr>)))))"

section \<open>The clients\<close>

record 'd mutex_sys =
  mutex :: "'d mutex"
  locking :: "addr set"
  guard_count :: nat

datatype 'd mutex_op =
    Lock addr waker
  | PollLock addr waker
  | DropLock addr
  | UpdateData "'d \<Rightarrow> 'd"
  | Unlock

fun mutex_enabled :: "'d mutex_op \<Rightarrow> 'd mutex_sys \<Rightarrow> bool" where
  "mutex_enabled (Lock a cx) S \<longleftrightarrow> a \<notin> locking S"
| "mutex_enabled (PollLock a cx) S \<longleftrightarrow> a \<in> locking S"
| "mutex_enabled (DropLock a) S \<longleftrightarrow> a \<in> locking S"
| "mutex_enabled (UpdateData f) S \<longleftrightarrow> 0 < guard_count S"
| "mutex_enabled Unlock S \<longleftrightarrow> 0 < guard_count S"

definition after_lock :: "addr \<Rightarrow> unit poll \<Rightarrow> 'd mutex \<Rightarrow> 'd mutex_sys \<Rightarrow> 'd mutex_sys" where
  "after_lock a r m S =
     (case r of
        Ready _ \<Rightarrow> S\<lparr>mutex := m, locking := locking S - {a}, guard_count := Suc (guard_count S)\<rparr>
      | Pending \<Rightarrow> S\<lparr>mutex := m, locking := insert a (locking S)\<rparr>)"

fun mutex_exec :: "'d mutex_op \<Rightarrow> 'd mutex_sys \<Rightarrow> 'd mutex_sys res" where
  "mutex_exec (Lock a cx) S = and_then (lock_loop a cx (mutex S)) (\<lambda>(r, m). Inr (after_lock a r m S))"
| "mutex_exec (PollLock a cx) S = and_then (lock_resume a cx (mutex S)) (\<lambda>(r, m). Inr (after_lock a r m S))"
| "mutex_exec (DropLock a) S =
     and_then (lock_drop a (mutex S)) (\<lambda>m. Inr (S\<lparr>mutex := m, locking := locking S - {a}\<rparr>))"
| "mutex_exec (UpdateData f) S = Inr (S\<lparr>mutex := mutex_deref_mut f (mutex S)\<rparr>)"
| "mutex_exec Unlock S =
     and_then (mutex_guard_drop (mutex S)) (\<lambda>m. Inr (S\<lparr>mutex := m, guard_count := guard_count S - 1\<rparr>))"

abbreviation lock_queue :: "'d mutex_sys \<Rightarrow> (unit, unit) wait_queue" where
  "lock_queue S \<equiv> wl_abs (lock_waiters (mutex S))"

definition mutex_start :: "'d mutex_sys \<Rightarrow> bool" where
  "mutex_start S \<longleftrightarrow> (\<exists>d. S = \<lparr>mutex = mutex_new d, locking = {}, guard_count = 0\<rparr>)"

inductive mutex_step :: "'d mutex_sys \<Rightarrow> 'd mutex_sys \<Rightarrow> bool" where
  mutex_call: "mutex_enabled op S \<Longrightarrow> mutex_exec op S = Inr S' \<Longrightarrow> mutex_step S S'"

text \<open>The steps that do not drop a future that was woken and has not run since.\<close>

definition drops_woken :: "'d mutex_op \<Rightarrow> 'd mutex_sys \<Rightarrow> bool" where
  "drops_woken op S \<longleftrightarrow> (case op of DropLock a \<Rightarrow> \<not> Option.is_none (released (lock_queue S) a) | _ \<Rightarrow> False)"

inductive mutex_keeping_step :: "'d mutex_sys \<Rightarrow> 'd mutex_sys \<Rightarrow> bool" where
  mutex_keeping_call: "mutex_enabled op S \<Longrightarrow> mutex_exec op S = Inr S' \<Longrightarrow> \<not> drops_woken op S \<Longrightarrow>
     mutex_keeping_step S S'"

inductive_cases mutex_stepE: "mutex_step S S'"
inductive_cases mutex_keeping_stepE: "mutex_keeping_step S S'"

section \<open>The invariants\<close>

definition mutex_ok :: "'d mutex_sys \<Rightarrow> bool" where
  "mutex_ok S \<longleftrightarrow> wl_inv (lock_waiters (mutex S)) \<and> \<not> q_borrowed (lock_queue S) \<and>
     q_addrs (lock_queue S) = locking S \<and> guard_count S = of_bool (locked (mutex S))"

definition mutex_settled :: "'d mutex_sys \<Rightarrow> bool" where
  "mutex_settled S \<longleftrightarrow> (parked (lock_queue S) \<noteq> [] \<longrightarrow>
     locked (mutex S) \<or> (\<exists>a. released (lock_queue S) a \<noteq> None))"

text \<open>A call completes, keeps the first invariant, and the second unless it drops a woken future.\<close>

definition mutex_completes :: "'d mutex_op \<Rightarrow> 'd mutex_sys \<Rightarrow> bool" where
  "mutex_completes op S \<longleftrightarrow> (\<exists>S'. mutex_exec op S = Inr S' \<and> mutex_ok S' \<and>
     (mutex_settled S \<and> \<not> drops_woken op S \<longrightarrow> mutex_settled S'))"

lemma q_addrs_start [simp]: "q_addrs (q_start a i k q) = insert a (q_addrs q)"
  by (auto simp: q_addrs_def q_start_def)

lemma lock_loop_eq:
  assumes "wl_inv (lock_waiters m)" and "\<not> q_borrowed (wl_abs (lock_waiters m))" and "a \<notin> q_addrs (wl_abs (lock_waiters m))"
  shows "if locked m
     then \<exists>wl. lock_loop a cx m = Inr (Pending, m\<lparr>lock_waiters := wl\<rparr>) \<and> wl_inv wl \<and>
        wl_abs wl = q_start a () cx (wl_abs (lock_waiters m))
     else lock_loop a cx m = Inr (Ready (), m\<lparr>locked := True\<rparr>)"
proof (cases "locked m")
  case True
  from wl.start_law [OF assms, of "()" cx] obtain wl where
    "wait_start a () cx (lock_waiters m) = Inr (Pending, wl)" "wl_inv wl"
    "wl_abs wl = q_start a () cx (wl_abs (lock_waiters m))"
    by blast
  with True show ?thesis by (cases m) (simp add: lock_loop.simps)
qed (simp add: lock_loop.simps)

lemma lock_completes:
  assumes "mutex_ok S" and "a \<notin> locking S"
  shows "mutex_completes (Lock a cx) S"
proof -
  have m: "wl_inv (lock_waiters (mutex S))" "\<not> q_borrowed (lock_queue S)" "a \<notin> q_addrs (lock_queue S)"
    using assms by (simp_all add: mutex_ok_def)
  show ?thesis
  proof (cases "locked (mutex S)")
    case True
    with lock_loop_eq [OF m, of cx] obtain wl where
      "lock_loop a cx (mutex S) = Inr (Pending, mutex S\<lparr>lock_waiters := wl\<rparr>)" "wl_inv wl"
      "wl_abs wl = q_start a () cx (lock_queue S)" by auto
    with m assms True show ?thesis
      by (simp add: mutex_completes_def mutex_ok_def mutex_settled_def after_lock_def) (simp add: q_start_def)
  next
    case False
    with lock_loop_eq [OF m, of cx] assms show ?thesis
      by (simp add: mutex_completes_def mutex_ok_def mutex_settled_def after_lock_def)
  qed
qed

lemma poll_lock_completes:
  assumes "mutex_ok S" and "a \<in> locking S"
  shows "mutex_completes (PollLock a cx) S"
proof -
  let ?q = "lock_queue S"
  have m: "wl_inv (lock_waiters (mutex S))" "\<not> q_borrowed ?q" "a \<in> q_addrs ?q"
    using assms by (simp_all add: mutex_ok_def)
  from wl.resume_law [OF m, of cx] obtain wl where
    w: "wait_resume a cx (lock_waiters (mutex S)) = Inr (fst (q_resume a cx ?q), wl)"
    "wl_inv wl" "wl_abs wl = snd (q_resume a cx ?q)" by blast
  show ?thesis
  proof (cases "released ?q a")
    case None
    have "fst ` (\<lambda>(b, i, k). (b, i, if b = a then cx else k)) ` set (parked ?q) = fst ` set (parked ?q)"
      by (force simp: image_image)
    with None w m assms show ?thesis
      by (auto simp: mutex_completes_def lock_resume_def q_resume_def after_lock_def mutex_ok_def
          mutex_settled_def q_addrs_def)
  next
    case (Some u)
    let ?m = "mutex S\<lparr>lock_waiters := wl\<rparr>"
    have q: "wl_abs wl = ?q\<lparr>released := (released ?q)(a := None)\<rparr>" using w(3) Some by (simp add: q_resume_def)
    have "a \<notin> fst ` set (parked ?q)" using wl.disjoint_law [OF m(1)] Some by fastforce
    then have a: "q_addrs (wl_abs wl) = locking S - {a}"
      using q assms(1) by (auto simp: q_addrs_def mutex_ok_def)
    have e: "mutex_exec (PollLock a cx) S = and_then (lock_loop a cx ?m) (\<lambda>(r, m). Inr (after_lock a r m S))"
      using w(1) Some by (simp add: lock_resume_def q_resume_def)
    have l: "wl_inv (lock_waiters ?m)" "\<not> q_borrowed (wl_abs (lock_waiters ?m))"
      "a \<notin> q_addrs (wl_abs (lock_waiters ?m))"
      using w(2) q m(2) a by simp_all
    show ?thesis
    proof (cases "locked (mutex S)")
      case True
      with lock_loop_eq [OF l, of cx] obtain wl' where
        "lock_loop a cx ?m = Inr (Pending, ?m\<lparr>lock_waiters := wl'\<rparr>)" "wl_inv wl'"
        "wl_abs wl' = q_start a () cx (wl_abs wl)" by auto
      with e a q m(2) assms True show ?thesis
        by (simp add: mutex_completes_def mutex_ok_def mutex_settled_def after_lock_def del: mutex_exec.simps)
          (auto simp: q_start_def)
    next
      case False
      with lock_loop_eq [OF l, of cx] e a q w(2) m(2) assms show ?thesis
        by (simp add: mutex_completes_def mutex_ok_def mutex_settled_def after_lock_def del: mutex_exec.simps)
    qed
  qed
qed

lemma q_addrs_cancel: "q_addrs (q_cancel a q) = q_addrs q - {a}"
  by (auto simp: q_addrs_def q_cancel_def split: if_splits)

lemma drop_lock_completes:
  assumes "mutex_ok S" and "a \<in> locking S"
  shows "mutex_completes (DropLock a) S"
proof -
  let ?q = "lock_queue S"
  have m: "wl_inv (lock_waiters (mutex S))" "\<not> q_borrowed ?q" "a \<in> q_addrs ?q"
    using assms by (simp_all add: mutex_ok_def)
  have "\<exists>slot wl. wait_cancel a (lock_waiters (mutex S)) = Inr (slot, wl) \<and> wl_inv wl \<and> wl_abs wl = q_cancel a ?q"
  proof (cases "released ?q a")
    case None
    with m(3) obtain i k where "(a, i, k) \<in> set (parked ?q)" by (auto simp: q_addrs_def)
    from wl.cancel_parked_law [OF m(1,2) this] show ?thesis by blast
  next
    case (Some out)
    from wl.cancel_released_law [OF m(1,2) this] show ?thesis by blast
  qed
  then obtain slot wl where w: "wait_cancel a (lock_waiters (mutex S)) = Inr (slot, wl)" "wl_inv wl"
    "wl_abs wl = q_cancel a ?q" by blast
  have "locked (mutex S) \<or> (\<exists>b. released (q_cancel a ?q) b \<noteq> None)"
    if s: "mutex_settled S" and d: "\<not> drops_woken (DropLock a) S" and p: "parked (q_cancel a ?q) \<noteq> []"
  proof -
    have "parked ?q \<noteq> []" using p by (auto simp: q_cancel_def)
    with s consider "locked (mutex S)" | b where "released ?q b \<noteq> None" unfolding mutex_settled_def by blast
    then show ?thesis
    proof cases
      case (2 b)
      from d have "released ?q a = None" by (cases "released ?q a") (simp_all add: drops_woken_def)
      with 2 have "released (q_cancel a ?q) b \<noteq> None" by (cases "b = a") (simp_all add: q_cancel_def)
      then show ?thesis by blast
    qed simp
  qed
  moreover have "\<not> q_borrowed (q_cancel a ?q)" using m(2) by (simp add: q_cancel_def)
  ultimately show ?thesis using w assms
    by (simp add: mutex_completes_def lock_drop_def mutex_ok_def mutex_settled_def q_addrs_cancel)
qed

lemma guard_drop_eq:
  assumes "wl_inv (lock_waiters m)" and "\<not> q_borrowed (wl_abs (lock_waiters m))"
  obtains wl where "mutex_guard_drop m = Inr (m\<lparr>locked := False, lock_waiters := wl\<rparr>)" and "wl_inv wl"
    and "wl_abs wl = snd (q_wake () (wl_abs (lock_waiters m)))"
proof -
  let ?q = "wl_abs (lock_waiters m)"
  from wl.borrow_law [OF assms] obtain l1 where
    1: "borrow (lock_waiters m) = Inr l1" "wl_inv l1" "wl_abs l1 = ?q\<lparr>q_borrowed := True\<rparr>" by blast
  from wl.wake_law [OF 1(2), of "()"] obtain l2 where
    2: "wake_one () l1 = Inr (fst (q_wake () (wl_abs l1)), l2)" "wl_inv l2" "wl_abs l2 = snd (q_wake () (wl_abs l1))"
    by blast
  have "q_borrowed (wl_abs l2)" using 2(3) 1(3) by (simp add: q_wake_def split: list.split)
  from wl.release_law [OF 2(2) this] obtain l3 where
    3: "drop_borrowed l2 = Inr l3" "wl_inv l3" "wl_abs l3 = wl_abs l2\<lparr>q_borrowed := False\<rparr>" by blast
  have "wl_abs l3 = snd (q_wake () ?q)"
    using 1(3) 2(3) 3(3) assms(2) by (cases ?q) (simp add: q_wake_def split: list.split)
  with that [of l3] 1(1) 2(1) 3(1,2) show thesis by (simp add: mutex_guard_drop_def)
qed

lemma q_wake_keeps:
  "q_borrowed (snd (q_wake () q)) = q_borrowed q" "q_addrs (snd (q_wake () q)) = q_addrs q"
  "parked (snd (q_wake () q)) \<noteq> [] \<Longrightarrow> \<exists>b. released (snd (q_wake () q)) b \<noteq> None"
  by (auto simp: q_wake_def q_addrs_def split: list.splits)

lemma unlock_completes:
  assumes "mutex_ok S" and "0 < guard_count S"
  shows "mutex_completes Unlock S"
proof -
  have m: "wl_inv (lock_waiters (mutex S))" "\<not> q_borrowed (lock_queue S)" using assms by (simp_all add: mutex_ok_def)
  obtain wl where w: "mutex_guard_drop (mutex S) = Inr (mutex S\<lparr>locked := False, lock_waiters := wl\<rparr>)" "wl_inv wl"
    "wl_abs wl = snd (q_wake () (lock_queue S))"
    by (rule guard_drop_eq [OF m])
  have "mutex_exec Unlock S =
      Inr (S\<lparr>mutex := mutex S\<lparr>locked := False, lock_waiters := wl\<rparr>, guard_count := guard_count S - 1\<rparr>)"
    using w(1) by simp
  then show ?thesis
    using w(2,3) q_wake_keeps [of "lock_queue S"] m assms
    by (auto simp: mutex_completes_def mutex_ok_def mutex_settled_def simp del: mutex_exec.simps)
qed

lemma mutex_exec_ok:
  assumes "mutex_ok S" and "mutex_enabled op S"
  shows "mutex_completes op S"
proof (cases op)
  case (UpdateData f)
  with assms(1) show ?thesis
    by (simp add: mutex_completes_def mutex_ok_def mutex_settled_def mutex_deref_mut_def)
qed (use assms lock_completes poll_lock_completes drop_lock_completes unlock_completes in simp_all)

lemma mutex_start_ok: "mutex_start S \<Longrightarrow> mutex_ok S \<and> mutex_settled S"
proof -
  have "wl_inv (wait_list_new :: (unit, unit) wait_list) \<and> wl_abs (wait_list_new :: (unit, unit) wait_list) = q_new"
    by (rule new_refines)
  then show "mutex_start S \<Longrightarrow> mutex_ok S \<and> mutex_settled S"
    by (auto simp: mutex_start_def mutex_ok_def mutex_settled_def mutex_new_def q_new_def q_addrs_def)
qed

lemma unlocked_resume_takes:
  assumes "mutex_ok S" and "released (lock_queue S) a = Some ()" and "\<not> locked (mutex S)"
  shows "\<exists>m. lock_resume a cx (mutex S) = Inr (Ready (), m) \<and> locked m"
proof -
  have m: "wl_inv (lock_waiters (mutex S))" "\<not> q_borrowed (lock_queue S)" "a \<in> q_addrs (lock_queue S)"
    using assms by (auto simp: mutex_ok_def q_addrs_def)
  from wl.resume_law [OF m, of cx] assms(2) obtain wl where
    "wait_resume a cx (lock_waiters (mutex S)) = Inr (Ready (), wl)" by (auto simp: q_resume_def)
  with assms(3) show ?thesis by (simp add: lock_resume_def lock_loop.simps)
qed

interpretation mutex_all: inductive_invariant mutex_start mutex_step mutex_ok
  by unfold_locales
    (auto simp: mutex_start_ok mutex_completes_def elim!: mutex_stepE dest!: mutex_exec_ok)

interpretation mutex_keeping: inductive_invariant mutex_start mutex_keeping_step
  "\<lambda>S. mutex_ok S \<and> mutex_settled S"
  by unfold_locales
    (auto simp: mutex_start_ok mutex_completes_def elim!: mutex_keeping_stepE dest!: mutex_exec_ok)

section \<open>What the mutex guarantees\<close>

abbreviation mutex_reach :: "'d mutex_sys \<Rightarrow> bool" where
  "mutex_reach \<equiv> reachable mutex_start mutex_step"

definition mutex_sys_new :: "'d \<Rightarrow> 'd mutex_sys" where
  "mutex_sys_new d = \<lparr>mutex = mutex_new d, locking = {}, guard_count = 0\<rparr>"

lemma mutex_start_new: "mutex_start (mutex_sys_new d)"
  unfolding mutex_start_def mutex_sys_new_def by blast

abbreviation mutex_script :: "('d mutex_op \<times> ('d mutex_sys \<Rightarrow> bool)) list \<Rightarrow> 'd mutex_sys \<Rightarrow> 'd mutex_sys res" where
  "mutex_script \<equiv> run_script mutex_enabled mutex_exec"

lemma mutex_script_reachable: "mutex_script calls (mutex_sys_new d) = Inr S \<Longrightarrow> mutex_reach S"
  by (erule run_script_reachable) (auto intro: reach_start mutex_start_new mutex_call)

text \<open>A script of calls none of which drops a woken future, so that every state in it keeps its wake-ups.\<close>

definition keeping_exec :: "'d mutex_op \<Rightarrow> 'd mutex_sys \<Rightarrow> bool" where
  "keeping_exec op S \<longleftrightarrow> mutex_enabled op S \<and> \<not> drops_woken op S"

lemma keeping_script_reachable:
  "run_script keeping_exec mutex_exec calls (mutex_sys_new d) = Inr S \<Longrightarrow>
     reachable mutex_start mutex_keeping_step S"
  by (erule run_script_reachable)
    (auto intro: reach_start mutex_start_new mutex_keeping_call simp: keeping_exec_def)

text \<open>C28.
  The mutex excludes: in every reachable state, however locks, polls, cancellations and unlocks are
  interleaved, there is at most one guard, there is one exactly when the flag says so, and whatever
  call the clients may make next completes without a panic and leads to such a state again.
\<close>

theorem mutex_exclusive:
  assumes "mutex_reach S"
  shows "guard_count S \<le> 1 \<and> (guard_count S = 1 \<longleftrightarrow> locked (mutex S)) \<and>
     (\<forall>op. mutex_enabled op S \<longrightarrow> (\<exists>S'. mutex_exec op S = Inr S' \<and> guard_count S' \<le> 1))"
proof -
  from assms have ok: "mutex_ok S" by (rule mutex_all.inv_reachable)
  have "\<exists>S'. mutex_exec op S = Inr S' \<and> guard_count S' \<le> 1" if "mutex_enabled op S" for op
    using mutex_exec_ok [OF ok that] by (auto simp: mutex_completes_def mutex_ok_def)
  with ok show ?thesis by (auto simp: mutex_ok_def)
qed

theorem mutex_exclusive_witness:
  "\<exists>S :: nat mutex_sys. guard_count S = 1 \<and> parked (lock_queue S) = [(2, (), 8)] \<and>
     (\<exists>S'. mutex_exec Unlock S = Inr S' \<and> guard_count S' \<le> 1)"
proof -
  have "passes (mutex_script [(Lock 1 7, any), (Lock 2 8, any)] (mutex_sys_new (0 :: nat)))
    (\<lambda>S. guard_count S = 1 \<and> parked (lock_queue S) = [(2, (), 8)])"
    by code_simp
  then obtain S where S: "mutex_script [(Lock 1 7, any), (Lock 2 8, any)] (mutex_sys_new (0 :: nat)) = Inr S"
    "guard_count S = 1" "parked (lock_queue S) = [(2, (), 8)]"
    by (elim passesE conjE)
  have "mutex_enabled Unlock S" using S(2) by simp
  with mutex_exclusive [OF mutex_script_reachable [OF S(1)]] S(2,3) show ?thesis by blast
qed

text \<open>C29.
  As long as no future is dropped between its wake-up and its next poll, nobody waits for a free
  mutex: when a future is parked, either a guard is alive, whose drop will wake the oldest of them, or
  a future has been woken and not run yet; its next poll takes the lock if it is still free.
\<close>

theorem mutex_no_lost_wakeup:
  assumes "reachable mutex_start mutex_keeping_step S" and "parked (lock_queue S) \<noteq> []"
  shows "guard_count S = 1 \<or>
     (\<exists>a \<in> locking S. \<forall>cx. \<exists>m. lock_resume a cx (mutex S) = Inr (Ready (), m) \<and> locked m)"
proof (cases "locked (mutex S)")
  case True
  with mutex_keeping.inv_reachable [OF assms(1)] show ?thesis by (simp add: mutex_ok_def)
next
  case False
  have ok: "mutex_ok S" and set: "mutex_settled S"
    using mutex_keeping.inv_reachable [OF assms(1)] by blast+
  from set assms(2) False obtain a where "released (lock_queue S) a \<noteq> None"
    unfolding mutex_settled_def by blast
  then have r: "released (lock_queue S) a = Some ()" and a: "a \<in> locking S"
    using ok by (auto simp: mutex_ok_def q_addrs_def)
  have "\<exists>m. lock_resume a cx (mutex S) = Inr (Ready (), m) \<and> locked m" for cx
    using unlocked_resume_takes [OF ok r False] .
  with a show ?thesis by blast
qed

theorem mutex_no_lost_wakeup_witness:
  "\<exists>S :: nat mutex_sys. parked (lock_queue S) = [(3, (), 9)] \<and> guard_count S = 0 \<and>
     (\<exists>a \<in> locking S. \<forall>cx. \<exists>m. lock_resume a cx (mutex S) = Inr (Ready (), m) \<and> locked m)"
proof -
  let ?c = "[(Lock 1 7, any), (Lock 2 8, any), (Lock 3 9, any), (Unlock, any)]"
  have "passes (run_script keeping_exec mutex_exec ?c (mutex_sys_new (0 :: nat)))
    (\<lambda>S. guard_count S = 0 \<and> parked (lock_queue S) = [(3, (), 9)])"
    by code_simp
  then obtain S where S: "run_script keeping_exec mutex_exec ?c (mutex_sys_new (0 :: nat)) = Inr S"
    "guard_count S = 0" "parked (lock_queue S) = [(3, (), 9)]"
    by (elim passesE conjE)
  then have "parked (lock_queue S) \<noteq> []" "guard_count S \<noteq> 1" by simp_all
  with mutex_no_lost_wakeup [OF keeping_script_reachable [OF S(1)]] S(2,3) show ?thesis by blast
qed

section \<open>The wake-up that is lost\<close>

text \<open>Every call but a new \<open>lock\<close> and the drop of the future at \<open>b\<close>.\<close>

fun awaits_wake :: "addr \<Rightarrow> 'd mutex_op \<Rightarrow> bool" where
  "awaits_wake b (Lock a cx) \<longleftrightarrow> False"
| "awaits_wake b (DropLock a) \<longleftrightarrow> a \<noteq> b"
| "awaits_wake b op \<longleftrightarrow> True"

inductive mutex_waiting_step :: "addr \<Rightarrow> 'd mutex_sys \<Rightarrow> 'd mutex_sys \<Rightarrow> bool" for b where
  mutex_waiting_call: "mutex_enabled op S \<Longrightarrow> awaits_wake b op \<Longrightarrow> mutex_exec op S = Inr S' \<Longrightarrow>
     mutex_waiting_step b S S'"

inductive_cases mutex_waiting_stepE: "mutex_waiting_step b S S'"

text \<open>The mutex is free, the future at \<open>b\<close> is parked at the head, and nobody is on the way to run.\<close>

definition mutex_stranded :: "addr \<Rightarrow> waker list \<Rightarrow> 'd mutex_sys \<Rightarrow> bool" where
  "mutex_stranded b ws S \<longleftrightarrow> mutex_ok S \<and> \<not> locked (mutex S) \<and> q_woken (lock_queue S) = ws \<and>
     released (lock_queue S) = Map.empty \<and> (\<exists>k es. parked (lock_queue S) = (b, (), k) # es)"

lemma mutex_stranded_queue:
  assumes "mutex_stranded b ws S" and "mutex_ok T" and "locked (mutex T) = locked (mutex S)"
    and "lock_queue T = lock_queue S\<lparr>parked := es\<rparr>" and "\<exists>k fs. es = (b, (), k) # fs"
  shows "mutex_stranded b ws T"
  using assms by (simp add: mutex_stranded_def)

lemma waiting_call_strands_lock:
  assumes "mutex_stranded b ws S" and "mutex_enabled op S" and "awaits_wake b op" and "mutex_exec op S = Inr T"
  shows "mutex_stranded b ws T"
proof -
  let ?q = "lock_queue S"
  from assms(1) have ok: "mutex_ok S" "\<not> locked (mutex S)" and r: "released ?q = Map.empty"
    by (simp_all add: mutex_stranded_def)
  from assms(1) obtain k es where q: "parked ?q = (b, (), k) # es" by (auto simp: mutex_stranded_def)
  have m: "wl_inv (lock_waiters (mutex S))" "\<not> q_borrowed ?q" "q_addrs ?q = locking S" "guard_count S = 0"
    using ok by (simp_all add: mutex_ok_def)
  have T: "mutex_ok T" using mutex_exec_ok [OF ok(1) assms(2)] assms(4) by (auto simp: mutex_completes_def)
  note keep = mutex_stranded_queue [OF assms(1) T]
  show ?thesis
  proof (cases op)
    case (PollLock a cx)
    with assms(2) m(3) have "a \<in> q_addrs ?q" by simp
    from wl.resume_law [OF m(1,2) this, of cx] r obtain l where
      "wait_resume a cx (lock_waiters (mutex S)) = Inr (Pending, l)" "wl_abs l = snd (q_resume a cx ?q)"
      by (auto simp: q_resume_def)
    with PollLock assms(4) q r show ?thesis
      by (intro keep [of "map (\<lambda>(c, i, k). (c, i, if c = a then cx else k)) (parked ?q)"])
        (auto simp: lock_resume_def after_lock_def q_resume_def)
  next
    case (DropLock a)
    with assms(2) m(3) r have "a \<in> fst ` set (parked ?q)" by (simp add: q_addrs_def)
    then obtain i l where "(a, i, l) \<in> set (parked ?q)" by auto
    from wl.cancel_parked_law [OF m(1,2) this] obtain wl where
      "wait_cancel a (lock_waiters (mutex S)) = Inr (Input i, wl)" "wl_abs wl = q_cancel a ?q" by blast
    moreover have "(released ?q)(a := None) = released ?q" by (simp add: r fun_upd_idem)
    ultimately show ?thesis using DropLock assms(3,4) q
      by (intro keep [of "filter (\<lambda>e. fst e \<noteq> a) (parked ?q)"]) (auto simp: lock_drop_def q_cancel_def)
  qed (use assms(2,3) m(4) in simp_all)
qed

interpretation mutex_stranded: inductive_invariant "mutex_stranded b ws" "mutex_waiting_step b" "mutex_stranded b ws"
  for b and ws
  by unfold_locales (auto elim!: mutex_waiting_stepE intro: waiting_call_strands_lock)

lemma drop_woken_eq:
  assumes "mutex_ok S" and "released (lock_queue S) a = Some ()"
  obtains wl where "mutex_exec (DropLock a) S = Inr (S\<lparr>mutex := mutex S\<lparr>lock_waiters := wl\<rparr>, locking := locking S - {a}\<rparr>)"
    and "wl_abs wl = lock_queue S\<lparr>released := (released (lock_queue S))(a := None)\<rparr>"
proof -
  let ?q = "lock_queue S"
  have m: "wl_inv (lock_waiters (mutex S))" "\<not> q_borrowed ?q" using assms(1) by (simp_all add: mutex_ok_def)
  from wl.cancel_released_law [OF m assms(2)] obtain wl where
    w: "wait_cancel a (lock_waiters (mutex S)) = Inr (Output (), wl)" "wl_abs wl = q_cancel a ?q" by blast
  have "a \<notin> fst ` set (parked ?q)" using wl.disjoint_law [OF m(1)] assms(2) by fastforce
  then have "q_cancel a ?q = ?q\<lparr>released := (released ?q)(a := None)\<rparr>" by (simp add: q_cancel_def filter_fst_neq)
  with w that show thesis by (simp add: lock_drop_def)
qed

text \<open>C40.
  The wake-up that is lost.  Take any reachable state in which the mutex is free, futures are parked,
  and the only future that was woken and has not run since is the one at \<open>a\<close>.  Dropping that future
  succeeds and wakes nobody.  From then on, however often anybody polls, and whichever of the other
  futures are dropped, the mutex stays free, nobody gets a guard, no waker is ever called, and the
  future at the head of the queue stays parked there, until somebody calls \<open>lock\<close> anew.
\<close>

theorem mutex_cancelled_waker_strands:
  assumes "mutex_reach S" and "\<not> locked (mutex S)" and "parked (lock_queue S) = (b, (), k) # es"
    and "released (lock_queue S) = [a \<mapsto> ()]"
  shows "\<exists>S'. mutex_enabled (DropLock a) S \<and> mutex_exec (DropLock a) S = Inr S' \<and>
     parked (lock_queue S') = (b, (), k) # es \<and>
     (\<forall>T. (mutex_waiting_step b)\<^sup>*\<^sup>* S' T \<longrightarrow>
        \<not> locked (mutex T) \<and> guard_count T = 0 \<and> (\<exists>l fs. parked (lock_queue T) = (b, (), l) # fs) \<and>
        woken (lock_waiters (mutex T)) = woken (lock_waiters (mutex S)))"
proof -
  from assms(1) have ok: "mutex_ok S" by (rule mutex_all.inv_reachable)
  have a: "released (lock_queue S) a = Some ()" by (simp add: assms(4))
  with ok have e: "mutex_enabled (DropLock a) S" by (auto simp: mutex_ok_def q_addrs_def)
  obtain wl where x: "mutex_exec (DropLock a) S = Inr (S\<lparr>mutex := mutex S\<lparr>lock_waiters := wl\<rparr>, locking := locking S - {a}\<rparr>)"
    and q: "wl_abs wl = lock_queue S\<lparr>released := (released (lock_queue S))(a := None)\<rparr>"
    by (rule drop_woken_eq [OF ok a])
  let ?S = "S\<lparr>mutex := mutex S\<lparr>lock_waiters := wl\<rparr>, locking := locking S - {a}\<rparr>"
  have "mutex_ok ?S" using mutex_exec_ok [OF ok e] x by (auto simp: mutex_completes_def simp del: mutex_exec.simps)
  then have "mutex_stranded b (q_woken (lock_queue S)) ?S" using q assms(2-4) by (simp add: mutex_stranded_def)
  then have "mutex_stranded b (q_woken (lock_queue S)) T" if "(mutex_waiting_step b)\<^sup>*\<^sup>* ?S T" for T
    using mutex_stranded.inv_steps [OF that] by blast
  moreover have "woken (lock_waiters m) = q_woken (wl_abs (lock_waiters m))" for m :: "'a mutex" by (simp add: wl_abs_def)
  ultimately show ?thesis using e x q assms(3)
    by (intro exI [of _ ?S]) (simp add: mutex_stranded_def mutex_ok_def del: mutex_exec.simps)
qed

text \<open>Three futures lock; the first drops its guard, which wakes the second; the second is dropped.\<close>

theorem mutex_cancelled_waker_strands_witness:
  "\<exists>S S' :: nat mutex_sys. mutex_reach S \<and> mutex_exec (DropLock 2) S = Inr S' \<and> parked (lock_queue S') = [(3, (), 9)] \<and>
     (\<forall>T. (mutex_waiting_step 3)\<^sup>*\<^sup>* S' T \<longrightarrow> \<not> locked (mutex T) \<and> (\<exists>l fs. parked (lock_queue T) = (3, (), l) # fs))"
proof -
  let ?c = "[(Lock 1 7, any), (Lock 2 8, any), (Lock 3 9, any), (Unlock, any)]"
  let ?one = "\<lambda>S. fBall (fmdom (mem (lock_waiters (mutex S)))) (\<lambda>a. released (lock_queue S) a = [2 \<mapsto> ()] a)"
  have "passes (mutex_script ?c (mutex_sys_new (0 :: nat))) (\<lambda>S. \<not> locked (mutex S) \<and>
     parked (lock_queue S) = [(3, (), 9)] \<and> released (lock_queue S) 2 = Some () \<and> ?one S)"
    by code_simp
  then obtain S where S: "mutex_script ?c (mutex_sys_new (0 :: nat)) = Inr S" "\<not> locked (mutex S)"
    "parked (lock_queue S) = [(3, (), 9)]" "released (lock_queue S) 2 = Some ()" "?one S"
    by (elim passesE conjE) (rule that)
  have "released (lock_queue S) = [2 \<mapsto> ()]" by (rule released_only [OF S(4,5)])
  from mutex_cancelled_waker_strands [OF mutex_script_reachable [OF S(1)] S(2,3) this]
    mutex_script_reachable [OF S(1)] show ?thesis by blast
qed

end
