(* ===== verification/Wait_List_Rouse.thy ===== *)
theory Wait_List_Rouse
  imports Wait_List_Spec
begin

text \<open>
  Wake-ups as the executor of a system of tasks sees them.  Task \<open>k\<close> has the waker \<open>k\<close> and its futures
  live at the address \<open>k\<close>; a call made for task \<open>k\<close> may let others leave the queue, and then it
  must have called their wakers.
\<close>

text \<open>Whoever leaves the queue, the caller apart, has its waker called; and nobody else enters it.\<close>

definition rouses :: "addr \<Rightarrow> ('i, 'o) wait_queue \<Rightarrow> ('i, 'o) wait_queue \<Rightarrow> bool" where
  "rouses k q q' \<longleftrightarrow> (\<exists>calls. q_woken q' = q_woken q @ calls \<and>
     (\<forall>(a, i, w) \<in> set (parked q). a = k \<or> (a, i, w) \<in> set (parked q') \<or> w \<in> set calls) \<and>
     (\<forall>e \<in> set (parked q'). fst e = k \<or> e \<in> set (parked q)))"

definition own_wakers :: "('i, 'o) wait_queue \<Rightarrow> bool" where
  "own_wakers q \<longleftrightarrow> (\<forall>(a, i, w) \<in> set (parked q). w = a)"

lemma rousesI:
  assumes "q_woken q' = q_woken q @ calls"
    and "\<And>a i w. (a, i, w) \<in> set (parked q) \<Longrightarrow> a = k \<or> (a, i, w) \<in> set (parked q') \<or> w \<in> set calls"
    and "\<And>e. e \<in> set (parked q') \<Longrightarrow> fst e = k \<or> e \<in> set (parked q)"
  shows "rouses k q q'"
  unfolding rouses_def using assms by blast

lemma rouses_same: "parked q' = parked q \<Longrightarrow> q_woken q' = q_woken q \<Longrightarrow> rouses k q q'"
  by (rule rousesI [of q' q "[]"]) auto

lemma rouses_refl: "rouses k q q"
  by (rule rouses_same) simp_all

lemma rouses_trans:
  assumes "rouses k p q" and "rouses k q r"
  shows "rouses k p r"
proof -
  from assms obtain c d where
    c: "q_woken q = q_woken p @ c"
    "\<forall>(a, n, w) \<in> set (parked p). a = k \<or> (a, n, w) \<in> set (parked q) \<or> w \<in> set c"
    "\<forall>e \<in> set (parked q). fst e = k \<or> e \<in> set (parked p)" and
    d: "q_woken r = q_woken q @ d"
    "\<forall>(a, n, w) \<in> set (parked q). a = k \<or> (a, n, w) \<in> set (parked r) \<or> w \<in> set d"
    "\<forall>e \<in> set (parked r). fst e = k \<or> e \<in> set (parked q)"
    unfolding rouses_def by blast
  show ?thesis
  proof (rule rousesI)
    show "q_woken r = q_woken p @ (c @ d)" using c(1) d(1) by simp
    show "a = k \<or> (a, i, w) \<in> set (parked r) \<or> w \<in> set (c @ d)" if "(a, i, w) \<in> set (parked p)" for a i w
      using that c(2) d(2) by fastforce
    show "fst e = k \<or> e \<in> set (parked p)" if "e \<in> set (parked r)" for e using that c(3) d(3) by blast
  qed
qed

text \<open>The waiters at the front of the queue are woken.\<close>

lemma rouses_front:
  assumes "parked q = es @ parked q'" and "q_woken q' = q_woken q @ map (\<lambda>(a, i, w). w) es"
  shows "rouses k q q'" and "own_wakers q \<Longrightarrow> own_wakers q'"
proof -
  show "rouses k q q'"
  proof (rule rousesI [OF assms(2)])
    show "a = k \<or> (a, i, w) \<in> set (parked q') \<or> w \<in> set (map (\<lambda>(a, i, w). w) es)"
      if "(a, i, w) \<in> set (parked q)" for a i w
      using that assms(1) by force
  qed (simp add: assms(1))
  show "own_wakers q'" if "own_wakers q" using that assms(1) by (auto simp: own_wakers_def)
qed

lemma rouses_wake:
  "rouses k q (snd (q_wake out q))" "own_wakers q \<Longrightarrow> own_wakers (snd (q_wake out q))"
  using rouses_front [where q = q and es = "take 1 (parked q)" and q' = "snd (q_wake out q)"]
  by (simp_all add: q_wake_def rouses_refl split: list.splits prod.splits)

lemma rouses_drain: "rouses k q (q_drain out q)" "own_wakers (q_drain out q)"
  using rouses_front [where q = q and es = "parked q" and q' = "q_drain out q"] by (simp_all add: q_drain_def own_wakers_def)

lemma rouses_start: "rouses k q (q_start k i w q)" "own_wakers q \<Longrightarrow> own_wakers (q_start k i k q)"
  by (rule rousesI [of _ _ "[]"]) (auto simp: q_start_def own_wakers_def)

lemma rouses_cancel: "rouses k q (q_cancel k q)" "own_wakers q \<Longrightarrow> own_wakers (q_cancel k q)"
  by (rule rousesI [of _ _ "[]"]) (auto simp: q_cancel_def own_wakers_def)

text \<open>A poll with the same waker changes nothing.\<close>

lemma resume_own:
  assumes "own_wakers q" and "released q k = None"
  shows "snd (q_resume k k q) = q"
proof -
  have "map (\<lambda>(b, i, c). (b, i, if b = k then k else c)) (parked q) = parked q"
    by (rule map_idI) (use assms(1) in \<open>auto simp: own_wakers_def\<close>)
  with assms(2) show ?thesis by (simp add: q_resume_def)
qed

end
