(* ===== verification/Mutex_Tasks.thy ===== *)
theory Mutex_Tasks
  imports Mutex Wait_List_Rouse
begin

text \<open>
  Tasks that share a number behind the mutex of the documentation, on an executor that runs any task
  that was woken since it was last run.  Each task works through a list of entries: it locks, reads
  the number, may yield with the guard in its hands, writes back the number it read plus its own, and
  drops the guard.  Without the exclusion an entry that yields would lose those made meanwhile.  Task
  \<open>k\<close> has the waker \<open>k\<close>, and its lock futures live one after the other at the address \<open>k\<close>.
\<close>

section \<open>The tasks\<close>

record entry =
  amount :: nat
  pauses :: bool

datatype clerk = Posting "entry list" | Queued entry "entry list" | Midway nat entry "entry list"

text \<open>\<open>*guard = x + amount\<close>, and the guard is dropped.\<close>

definition write_back :: "nat \<Rightarrow> entry \<Rightarrow> nat mutex \<Rightarrow> nat mutex res" where
  "write_back x e m = mutex_guard_drop (mutex_deref_mut (\<lambda>_. x + amount e) m)"

definition proceed ::
  "(nat mutex \<Rightarrow> (clerk \<times> bool \<times> nat mutex) res) \<Rightarrow> entry \<Rightarrow> entry list \<Rightarrow> unit poll \<times> nat mutex \<Rightarrow>
   (clerk \<times> bool \<times> nat mutex) res" where
  "proceed rest e es rm =
     (case fst rm of
        Pending \<Rightarrow> Inr (Queued e es, False, snd rm)
      | Ready _ \<Rightarrow>
          if pauses e then Inr (Midway (mutex_deref (snd rm)) e es, True, snd rm)
          else and_then (write_back (mutex_deref (snd rm)) e (snd rm)) rest)"

fun posting :: "addr \<Rightarrow> entry list \<Rightarrow> nat mutex \<Rightarrow> (clerk \<times> bool \<times> nat mutex) res" where
  "posting k [] m = Inr (Posting [], False, m)"
| "posting k (e # es) m = and_then (lock_loop k k m) (proceed (\<lambda>m. posting k es m) e es)"

fun clerk_poll :: "addr \<Rightarrow> clerk \<Rightarrow> nat mutex \<Rightarrow> (clerk \<times> bool \<times> nat mutex) res" where
  "clerk_poll k (Posting es) m = posting k es m"
| "clerk_poll k (Queued e es) m = and_then (lock_resume k k m) (proceed (\<lambda>m. posting k es m) e es)"
| "clerk_poll k (Midway x e es) m = and_then (write_back x e m) (posting k es)"

section \<open>The executor\<close>

record bureau =
  book :: "nat mutex"
  clerk :: "nat \<Rightarrow> clerk"
  staff :: "nat set"
  awake :: "waker set"

fun is_off :: "clerk \<Rightarrow> bool" where
  "is_off (Posting []) = True"
| "is_off c = False"

definition runnable :: "nat \<Rightarrow> bureau \<Rightarrow> bool" where
  "runnable k S \<longleftrightarrow> k \<in> staff S \<and> k \<in> awake S \<and> \<not> is_off (clerk S k)"

definition run_clerk :: "nat \<Rightarrow> bureau \<Rightarrow> bureau res" where
  "run_clerk k S =
     and_then (clerk_poll k (clerk S k) (book S)) (\<lambda>(c, again, m).
     Inr (S\<lparr>book := m, clerk := (clerk S)(k := c),
       awake := awake S - {k} \<union> (if again then {k} else {}) \<union>
         set (drop (length (woken (lock_waiters (book S)))) (woken (lock_waiters m)))\<rparr>))"

definition bureau_open :: "nat \<Rightarrow> nat \<Rightarrow> (nat \<Rightarrow> entry list) \<Rightarrow> bureau" where
  "bureau_open d n plan = \<lparr>book = mutex_new d, clerk = (\<lambda>k. Posting (plan k)), staff = {..<n}, awake = {..<n}\<rparr>"

inductive bureau_step :: "bureau \<Rightarrow> bureau \<Rightarrow> bool" where
  run_clerk: "runnable k S \<Longrightarrow> run_clerk k S = Inr S' \<Longrightarrow> bureau_step S S'"

inductive_cases bureau_stepE: "bureau_step S S'"

fun run_clerks :: "nat list \<Rightarrow> bureau \<Rightarrow> bureau res" where
  "run_clerks [] S = Inr S"
| "run_clerks (k # ks) S =
     (if runnable k S then and_then (run_clerk k S) (run_clerks ks) else Inl (Panic ''asleep''))"

definition two_entries :: "nat \<Rightarrow> entry list" where
  "two_entries k = (if k = 0 then [\<lparr>amount = 5, pauses = True\<rparr>, \<lparr>amount = 1, pauses = False\<rparr>] else [\<lparr>amount = 7, pauses = True\<rparr>])"

section \<open>What the calls do\<close>

abbreviation mq :: "nat mutex \<Rightarrow> (unit, unit) wait_queue" where
  "mq m \<equiv> wl_abs (lock_waiters m)"

text \<open>The tasks \<open>Q\<close> are in the queue, and \<open>b\<close> says whether there is a guard.\<close>

definition mx_ok :: "addr set \<Rightarrow> bool \<Rightarrow> nat mutex \<Rightarrow> bool" where
  "mx_ok Q b m \<longleftrightarrow> wl_inv (lock_waiters m) \<and> \<not> q_borrowed (mq m) \<and> q_addrs (mq m) = Q \<and> own_wakers (mq m) \<and>
     locked m = b \<and> (parked (mq m) \<noteq> [] \<longrightarrow> b \<or> (\<exists>a. released (mq m) a \<noteq> None))"

lemma mx_okD:
  assumes "mx_ok Q b m"
  shows "wl_inv (lock_waiters m)" "\<not> q_borrowed (mq m)" "q_addrs (mq m) = Q" "own_wakers (mq m)" "locked m = b"
    "parked (mq m) \<noteq> [] \<Longrightarrow> b \<or> (\<exists>a. released (mq m) a \<noteq> None)"
  using assms unfolding mx_ok_def by blast+

text \<open>Others are called, at most so many of them.\<close>

definition calls_up_to :: "nat \<Rightarrow> nat mutex \<Rightarrow> nat mutex \<Rightarrow> bool" where
  "calls_up_to n m m' \<longleftrightarrow> (\<exists>calls. q_woken (mq m') = q_woken (mq m) @ calls \<and> length calls \<le> n)"

lemma calls_none: "q_woken (mq m') = q_woken (mq m) \<Longrightarrow> calls_up_to n m m'"
  by (simp add: calls_up_to_def)

lemma calls_trans: "calls_up_to i l m \<Longrightarrow> calls_up_to j m m' \<Longrightarrow> i + j \<le> n \<Longrightarrow> calls_up_to n l m'"
  by (fastforce simp: calls_up_to_def)

lemma write_back_ok:
  assumes "mx_ok Q True m"
  obtains m' where "write_back x e m = Inr m'" and "mx_ok Q False m'" and "data m' = x + amount e"
    and "rouses k (mq m) (mq m')" and "calls_up_to 1 m m'"
proof -
  note h = mx_okD [OF assms]
  let ?m = "mutex_deref_mut (\<lambda>_. x + amount e) m"
  have q: "lock_waiters ?m = lock_waiters m" by (simp add: mutex_deref_mut_def)
  obtain wl where w: "mutex_guard_drop ?m = Inr (?m\<lparr>locked := False, lock_waiters := wl\<rparr>)" "wl_inv wl"
    "wl_abs wl = snd (q_wake () (mq m))"
    by (rule guard_drop_eq [of ?m, unfolded q, OF h(1,2)])
  let ?m' = "?m\<lparr>locked := False, lock_waiters := wl\<rparr>"
  show thesis
  proof (rule that [of ?m'])
    show "mx_ok Q False ?m'"
      using w(2,3) h q_wake_keeps [of "mq m"] rouses_wake(2) [of "mq m" "()"] by (simp add: mx_ok_def)
    show "rouses k (mq m) (mq ?m')" using w(3) rouses_wake(1) [of k "mq m" "()"] by simp
    show "calls_up_to 1 m ?m'" using w(3) by (auto simp: calls_up_to_def q_wake_def split: list.split)
  qed (use w(1) in \<open>simp_all add: write_back_def mutex_deref_mut_def\<close>)
qed

lemma mx_ok_lock: "mx_ok Q False m \<Longrightarrow> mx_ok Q True (m\<lparr>locked := True\<rparr>)"
  by (simp add: mx_ok_def)

lemma lock_free_ok:
  assumes "mx_ok Q True (m\<lparr>locked := True\<rparr>)" and "\<not> locked m" and "k \<notin> Q"
  shows "lock_loop k k m = Inr (Ready (), m\<lparr>locked := True\<rparr>)"
  using lock_loop_eq [of m k k] mx_okD(1-3) [OF assms(1)] assms(2,3) by simp

lemma lock_taken_ok:
  assumes "mx_ok Q True m" and "k \<notin> Q"
  obtains m' where "lock_loop k k m = Inr (Pending, m')" and "mx_ok (insert k Q) True m'" and "data m' = data m"
    and "mq m' = q_start k () k (mq m)"
proof -
  note h = mx_okD [OF assms(1)]
  from lock_loop_eq [of m k k] h assms(2) obtain wl where
    l: "lock_loop k k m = Inr (Pending, m\<lparr>lock_waiters := wl\<rparr>)" "wl_inv wl" "wl_abs wl = q_start k () k (mq m)"
    by auto
  show thesis
  proof (rule that [OF l(1)])
    show "mx_ok (insert k Q) True (m\<lparr>lock_waiters := wl\<rparr>)"
      using l(2,3) h rouses_start(2) [of "mq m" k "()"] by (simp add: mx_ok_def) (simp add: q_start_def)
  qed (use l(3) in simp_all)
qed

section \<open>One poll of a task\<close>

fun is_queued :: "clerk \<Rightarrow> bool" where
  "is_queued (Queued e es) = True"
| "is_queued c = False"

fun is_midway :: "clerk \<Rightarrow> bool" where
  "is_midway (Midway x e es) = True"
| "is_midway c = False"

fun entries_of :: "clerk \<Rightarrow> entry list" where
  "entries_of (Posting es) = es"
| "entries_of (Queued e es) = e # es"
| "entries_of (Midway x e es) = e # es"

definition due :: "entry list \<Rightarrow> nat" where
  "due es = sum_list (map amount es)"

lemma due_simps [simp]: "due [] = 0" "due (e # es) = amount e + due es"
  by (simp_all add: due_def)

text \<open>Each entry is worth three polls: one to read, one to write back, one for the task it wakes.\<close>

definition weight :: "clerk \<Rightarrow> nat" where
  "weight c = 3 * length (entries_of c) - of_bool (is_midway c)"

text \<open>
  What a poll of task \<open>k\<close> leads to from \<open>m\<close>, when its entries come to \<open>d\<close> and it has \<open>n\<close> polls to
  spend: \<open>Q\<close> are the others that are queued, and \<open>b\<close> says whether one of the others has the guard.
\<close>

definition polled ::
  "addr set \<Rightarrow> bool \<Rightarrow> addr \<Rightarrow> nat \<Rightarrow> nat \<Rightarrow> nat mutex \<Rightarrow> clerk \<times> bool \<times> nat mutex \<Rightarrow> bool" where
  "polled Q b k d n m r \<longleftrightarrow> (case r of (c, again, m') \<Rightarrow>
     mx_ok (if is_queued c then insert k Q else Q) (b \<or> is_midway c) m' \<and> rouses k (mq m) (mq m') \<and>
     (\<exists>i. calls_up_to i m m' \<and> i + weight c + of_bool again \<le> n) \<and>
     data m' + due (entries_of c) = data m + d \<and> (b \<longrightarrow> data m' = data m \<and> \<not> is_midway c) \<and>
     (\<forall>x e es. c = Midway x e es \<longrightarrow> x = data m') \<and>
     (again \<or> is_off c \<or> k \<in> fst ` set (parked (mq m'))))"

lemma polled_after:
  assumes "polled Q b k d n t r" and "rouses k (mq m) (mq t)" and "calls_up_to i m t" and "i + n \<le> n'"
    and "data t + d = data m + d'" and "b \<longrightarrow> data t = data m"
  shows "polled Q b k d' n' m r"
proof -
  obtain c again m' where r: "r = (c, again, m')" by (cases r)
  with assms(1) obtain j where j: "calls_up_to j t m'" "j + weight c + of_bool again \<le> n" by (auto simp: polled_def)
  have "calls_up_to (i + j) m m'" by (rule calls_trans [OF assms(3) j(1)]) simp
  moreover have "(i + j) + weight c + of_bool again \<le> n'" using j(2) assms(4) by simp
  ultimately have "\<exists>i. calls_up_to i m m' \<and> i + weight c + of_bool again \<le> n'" by blast
  with assms(1,2,5,6) r show ?thesis by (auto simp: polled_def intro: rouses_trans)
qed

lemma clerk_queues_ok:
  assumes "mx_ok Q True m" and "k \<notin> Q"
  obtains m' where "lock_loop k k m = Inr (Pending, m')"
    and "polled Q True k (amount e + due es) (3 * length es + 3) m (Queued e es, False, m')"
proof -
  obtain m' where l: "lock_loop k k m = Inr (Pending, m')" "mx_ok (insert k Q) True m'" "data m' = data m"
    "mq m' = q_start k () k (mq m)"
    by (rule lock_taken_ok [OF assms])
  have "polled Q True k (amount e + due es) (3 * length es + 3) m (Queued e es, False, m')"
    using l(2-4) calls_none [of m' m 0] rouses_start(1) [of k "mq m" "()" k]
    by (auto simp: polled_def weight_def q_start_def)
  with l(1) that show thesis by blast
qed

text \<open>The lock was taken, and \<open>rest\<close> does the other entries.\<close>

lemma proceed_ok:
  assumes "mx_ok Q True m"
    and rest: "\<And>t. mx_ok Q False t \<Longrightarrow> \<exists>r. rest t = Inr r \<and> polled Q False k (due es) (3 * length es) t r"
  shows "\<exists>r. proceed rest e es (Ready (), m) = Inr r \<and> polled Q False k (amount e + due es) (3 * length es + 3) m r"
proof (cases "pauses e")
  case True
  then show ?thesis
    using assms(1) calls_none [of m m 0]
    by (auto simp: proceed_def polled_def weight_def mutex_deref_def rouses_refl)
next
  case False
  obtain t where t: "write_back (data m) e m = Inr t" "mx_ok Q False t" "data t = data m + amount e"
    "rouses k (mq m) (mq t)" "calls_up_to 1 m t"
    by (rule write_back_ok [OF assms(1)])
  from rest [OF t(2)] obtain r where r: "rest t = Inr r" "polled Q False k (due es) (3 * length es) t r" by blast
  have "polled Q False k (amount e + due es) (3 * length es + 3) m r"
    by (rule polled_after [OF r(2) t(4,5)]) (use t(3) in simp_all)
  with False t(1) r(1) show ?thesis by (simp add: proceed_def mutex_deref_def)
qed

lemma posting_ok:
  assumes "mx_ok Q b m" and "k \<notin> Q"
  shows "\<exists>r. posting k es m = Inr r \<and> polled Q b k (due es) (3 * length es) m r"
  using assms(1)
proof (induction es arbitrary: b m)
  case Nil
  with calls_none [of m m 0] show ?case by (auto simp: polled_def weight_def rouses_refl)
next
  case (Cons e es)
  show ?case
  proof (cases b)
    case True
    with Cons.prems obtain m' where "lock_loop k k m = Inr (Pending, m')"
      "polled Q True k (amount e + due es) (3 * length es + 3) m (Queued e es, False, m')"
      by (metis (full_types) clerk_queues_ok assms(2))
    with True show ?thesis by (simp add: proceed_def algebra_simps)
  next
    case False
    with Cons.prems have m: "mx_ok Q True (m\<lparr>locked := True\<rparr>)" "\<not> locked m"
      using mx_ok_lock mx_okD(5) by simp_all
    have "\<exists>r. proceed (\<lambda>m. posting k es m) e es (Ready (), m\<lparr>locked := True\<rparr>) = Inr r \<and>
        polled Q False k (amount e + due es) (3 * length es + 3) (m\<lparr>locked := True\<rparr>) r"
      by (rule proceed_ok [OF m(1)]) (rule Cons.IH)
    then obtain r where r: "proceed (\<lambda>m. posting k es m) e es (Ready (), m\<lparr>locked := True\<rparr>) = Inr r"
      "polled Q False k (amount e + due es) (3 * length es + 3) (m\<lparr>locked := True\<rparr>) r" by blast
    have "polled Q False k (amount e + due es) (3 * length es + 3) m r"
      by (rule polled_after [OF r(2), of m 0]) (simp_all add: rouses_refl calls_none)
    with False r(1) lock_free_ok [OF m assms(2)] show ?thesis by (simp add: algebra_simps)
  qed
qed

text \<open>A task whose lock future is woken finds the mutex free, or has to queue up again.\<close>

lemma resume_queued:
  assumes "mx_ok (insert k Q) b m" and "k \<notin> Q"
  obtains m' where "released (mq m) k = None" and "lock_resume k k m = Inr (Pending, m')" and "mx_ok (insert k Q) b m'"
      and "mq m' = mq m" and "data m' = data m" and "k \<in> fst ` set (parked (mq m))"
    | m' where "lock_resume k k m = lock_loop k k m'" and "mx_ok Q True (m'\<lparr>locked := True\<rparr>)" and "locked m' = b"
      and "rouses k (mq m) (mq m')" and "calls_up_to 0 m m'" and "data m' = data m"
proof -
  note h = mx_okD [OF assms(1)]
  have "k \<in> q_addrs (mq m)" using h(3) by simp
  from wl.resume_law [OF h(1,2) this, of k] obtain wl where
    w: "wait_resume k k (lock_waiters m) = Inr (fst (q_resume k k (mq m)), wl)" "wl_inv wl"
    "wl_abs wl = snd (q_resume k k (mq m))" by blast
  let ?m = "m\<lparr>lock_waiters := wl\<rparr>"
  show thesis
  proof (cases "released (mq m) k")
    case None
    have q: "mq ?m = mq m" using w(3) resume_own [OF h(4) None] by simp
    show thesis
    proof (rule that(1) [of ?m])
      show "lock_resume k k m = Inr (Pending, ?m)" using w(1) None by (simp add: lock_resume_def q_resume_def)
      show "mx_ok (insert k Q) b ?m" using w(2) h q by (simp add: mx_ok_def)
      show "k \<in> fst ` set (parked (mq m))" using h(3) None by (auto simp: q_addrs_def)
    qed (use None q in simp_all)
  next
    case (Some u)
    have q: "mq ?m = (mq m)\<lparr>released := (released (mq m))(k := None)\<rparr>" using w(3) Some by (simp add: q_resume_def)
    have "k \<notin> fst ` set (parked (mq m))" using wl.disjoint_law [OF h(1)] Some by fastforce
    then have "q_addrs (mq ?m) = Q" using q h(3) assms(2) by (auto simp: q_addrs_def)
    then have "mx_ok Q True (?m\<lparr>locked := True\<rparr>)" using w(2) q h(2,4) by (simp add: mx_ok_def own_wakers_def)
    moreover have "lock_resume k k m = lock_loop k k ?m" using w(1) Some by (simp add: lock_resume_def q_resume_def)
    ultimately show thesis using that(2) [of ?m] q h(5) by (simp add: rouses_same calls_none)
  qed
qed

lemma queued_poll_ok:
  assumes "mx_ok (insert k Q) b m" and "k \<notin> Q"
  shows "\<exists>r. and_then (lock_resume k k m) (proceed (\<lambda>m. posting k es m) e es) = Inr r \<and>
    polled Q b k (amount e + due es) (3 * length es + 3) m r"
  using assms(1)
proof (cases rule: resume_queued [OF _ assms(2), consumes 1])
  case (1 m')
  have "polled Q b k (amount e + due es) (3 * length es + 3) m (Queued e es, False, m')"
    using 1(3-6) calls_none [of m' m 0] rouses_same [of "mq m'" "mq m" k] by (auto simp: polled_def weight_def)
  with 1(2) show ?thesis by (simp add: proceed_def)
next
  case (2 m')
  show ?thesis
  proof (cases b)
    case True
    with 2(2,3) have "mx_ok Q True m'" by (cases m') simp
    from clerk_queues_ok [OF this assms(2), of e es] obtain t where t: "lock_loop k k m' = Inr (Pending, t)"
      "polled Q True k (amount e + due es) (3 * length es + 3) m' (Queued e es, False, t)" by blast
    have "polled Q b k (amount e + due es) (3 * length es + 3) m (Queued e es, False, t)"
      by (rule polled_after [OF t(2) [folded eqTrueI [OF True]] 2(4,5)]) (use 2(6) in simp_all)
    with t(1) 2(1) show ?thesis by (simp add: proceed_def)
  next
    case False
    with 2(3) have l: "\<not> locked m'" by simp
    have "\<exists>r. proceed (\<lambda>m. posting k es m) e es (Ready (), m'\<lparr>locked := True\<rparr>) = Inr r \<and>
        polled Q False k (amount e + due es) (3 * length es + 3) (m'\<lparr>locked := True\<rparr>) r"
      by (rule proceed_ok [OF 2(2)]) (rule posting_ok [OF _ assms(2)])
    then obtain r where r: "proceed (\<lambda>m. posting k es m) e es (Ready (), m'\<lparr>locked := True\<rparr>) = Inr r"
      "polled Q False k (amount e + due es) (3 * length es + 3) (m'\<lparr>locked := True\<rparr>) r" by blast
    have c: "calls_up_to 0 m (m'\<lparr>locked := True\<rparr>)" using 2(5) by (simp add: calls_up_to_def)
    have "polled Q False k (amount e + due es) (3 * length es + 3) m r"
      by (rule polled_after [OF r(2) _ c]) (use 2(4,6) in simp_all)
    with r(1) 2(1) lock_free_ok [OF 2(2) l assms(2)] False show ?thesis by simp
  qed
qed

lemma clerk_poll_ok:
  assumes "mx_ok (if is_queued c then insert k Q else Q) (b \<or> is_midway c) m" and "k \<notin> Q"
    and "\<And>x e es. c = Midway x e es \<Longrightarrow> x = data m \<and> \<not> b"
  shows "\<exists>r. clerk_poll k c m = Inr r \<and> polled Q b k (due (entries_of c)) (weight c) m r"
proof (cases c)
  case (Posting es)
  with assms(1) posting_ok [of Q b m k es] assms(2) show ?thesis by (simp add: weight_def)
next
  case (Midway x e es)
  with assms(1,3) have "mx_ok Q True m" and x: "x = data m" and b: "\<not> b" by simp_all
  then obtain t where t: "write_back x e m = Inr t" "mx_ok Q False t" "data t = data m + amount e"
    "rouses k (mq m) (mq t)" "calls_up_to 1 m t"
    by (metis write_back_ok)
  from posting_ok [OF t(2) assms(2)] obtain r where r: "posting k es t = Inr r" "polled Q False k (due es) (3 * length es) t r"
    by blast
  have "polled Q False k (amount e + due es) (3 * length es + 2) m r"
    by (rule polled_after [OF r(2) t(4,5)]) (use t(3) in simp_all)
  with Midway t(1) r(1) b show ?thesis by (simp add: weight_def)
next
  case (Queued e es)
  with assms(1) queued_poll_ok [of k Q b m es e] assms(2) show ?thesis by (simp add: weight_def add.commute)
qed

section \<open>The bureau\<close>

definition in_line :: "bureau \<Rightarrow> addr set" where
  "in_line S = {k \<in> staff S. is_queued (clerk S k)}"

definition in_use :: "bureau \<Rightarrow> bool" where
  "in_use S \<longleftrightarrow> (\<exists>k\<in>staff S. is_midway (clerk S k))"

definition bureau_holds :: "nat \<Rightarrow> bureau \<Rightarrow> bool" where
  "bureau_holds full S \<longleftrightarrow>
     mx_ok (in_line S) (in_use S) (book S) \<and> finite (staff S) \<and>
     data (book S) + (\<Sum>k\<in>staff S. due (entries_of (clerk S k))) = full \<and>
     (\<forall>k\<in>staff S. \<forall>x e es. clerk S k = Midway x e es \<longrightarrow> x = data (book S)) \<and>
     (\<forall>k\<in>staff S. \<forall>l\<in>staff S. is_midway (clerk S k) \<longrightarrow> is_midway (clerk S l) \<longrightarrow> k = l) \<and>
     (\<forall>k\<in>staff S. is_off (clerk S k) \<or> k \<in> awake S \<or> k \<in> fst ` set (parked (mq (book S))))"

lemma bureau_holdsD:
  assumes "bureau_holds full S"
  shows "mx_ok (in_line S) (in_use S) (book S)" "finite (staff S)"
    "data (book S) + (\<Sum>k\<in>staff S. due (entries_of (clerk S k))) = full"
    "\<And>k x e es. k \<in> staff S \<Longrightarrow> clerk S k = Midway x e es \<Longrightarrow> x = data (book S)"
    "\<And>k l. k \<in> staff S \<Longrightarrow> l \<in> staff S \<Longrightarrow> is_midway (clerk S k) \<Longrightarrow> is_midway (clerk S l) \<Longrightarrow> k = l"
    "\<And>k. k \<in> staff S \<Longrightarrow> is_off (clerk S k) \<or> k \<in> awake S \<or> k \<in> fst ` set (parked (mq (book S)))"
  using assms unfolding bureau_holds_def by blast+

definition bureau_work :: "bureau \<Rightarrow> nat" where
  "bureau_work S = (\<Sum>k\<in>staff S. weight (clerk S k)) + card (awake S \<inter> staff S)"

definition bureau_done :: "bureau \<Rightarrow> bool" where
  "bureau_done S \<longleftrightarrow> (\<forall>k\<in>staff S. is_off (clerk S k))"

text \<open>Who else is in the queue, and whether one of the others has the guard.\<close>

definition others_in_line :: "nat \<Rightarrow> bureau \<Rightarrow> addr set" where
  "others_in_line k S = in_line S - {k}"

definition others_in_use :: "nat \<Rightarrow> bureau \<Rightarrow> bool" where
  "others_in_use k S \<longleftrightarrow> (\<exists>l\<in>staff S - {k}. is_midway (clerk S l))"

lemma line_upd:
  assumes "k \<in> staff S" and "staff T = staff S" and "clerk T = (clerk S)(k := c)"
  shows "in_line T = (if is_queued c then insert k (others_in_line k S) else others_in_line k S)"
    and "in_use T \<longleftrightarrow> others_in_use k S \<or> is_midway c"
  using assms by (auto simp: in_line_def in_use_def others_in_line_def others_in_use_def)

lemma line_split:
  assumes "k \<in> staff S"
  shows "in_line S = (if is_queued (clerk S k) then insert k (others_in_line k S) else others_in_line k S)"
    and "in_use S \<longleftrightarrow> others_in_use k S \<or> is_midway (clerk S k)"
  using line_upd [OF assms, of S "clerk S k"] by simp_all

lemma another_in_use: "l \<in> staff S \<Longrightarrow> l \<noteq> k \<Longrightarrow> is_midway (clerk S l) \<Longrightarrow> others_in_use k S"
  by (auto simp: others_in_use_def)

text \<open>Whoever is not at rest will be polled, or is parked.\<close>

lemma stays_awake:
  assumes "bureau_holds full S" and "rouses k (mq (book S)) (mq m)" and "q_woken (mq m) = q_woken (mq (book S)) @ calls"
    and "l \<in> staff S" and "l \<noteq> k"
  shows "is_off (clerk S l) \<or> l \<in> awake S \<union> set calls \<or> l \<in> fst ` set (parked (mq m))"
proof (cases "l \<in> fst ` set (parked (mq (book S)))")
  case True
  then obtain n v where e: "(l, n, v) \<in> set (parked (mq (book S)))" by auto
  then have v: "v = l" using mx_okD(4) [OF bureau_holdsD(1) [OF assms(1)]] by (auto simp: own_wakers_def)
  obtain calls' where "q_woken (mq m) = q_woken (mq (book S)) @ calls'" "(l, n, v) \<in> set (parked (mq m)) \<or> v \<in> set calls'"
    using assms(2,5) e unfolding rouses_def by blast
  with assms(3) v show ?thesis by force
next
  case False
  with bureau_holdsD(6) [OF assms(1,4)] show ?thesis by blast
qed

lemma card_awake:
  assumes "finite A" and "k \<in> A" and "k \<in> B"
  shows "card ((B - {k} \<union> (if again then {k} else {}) \<union> set calls) \<inter> A) < card (B \<inter> A) + (of_bool again + length calls)"
proof -
  let ?new = "(if again then {k} else {}) \<union> set calls"
  have "(B - {k} \<union> (if again then {k} else {}) \<union> set calls) \<inter> A \<subseteq> (B \<inter> A - {k}) \<union> ?new" by auto
  then have "card ((B - {k} \<union> (if again then {k} else {}) \<union> set calls) \<inter> A) \<le> card ((B \<inter> A - {k}) \<union> ?new)"
    by (rule card_mono [rotated]) (use assms(1) in simp)
  also have "\<dots> \<le> card (B \<inter> A - {k}) + (card (if again then {k} else {}) + card (set calls))"
    by (intro order_trans [OF card_Un_le] add_left_mono card_Un_le)
  also have "\<dots> \<le> card (B \<inter> A - {k}) + (of_bool again + length calls)"
    using card_length [of calls] by simp
  finally have le: "card ((B - {k} \<union> (if again then {k} else {}) \<union> set calls) \<inter> A) \<le>
      card (B \<inter> A - {k}) + (of_bool again + length calls)" .
  have "card (B \<inter> A) = Suc (card (B \<inter> A - {k}))"
    by (rule card.remove) (use assms in simp_all)
  with le show ?thesis by simp
qed

text \<open>The state after a poll of task \<open>k\<close>.\<close>

lemma bureau_after:
  assumes S: "bureau_holds full S" and k: "k \<in> staff S" "k \<in> awake S"
    and r: "polled (others_in_line k S) (others_in_use k S) k (due (entries_of (clerk S k))) (weight (clerk S k)) (book S)
        (c, again, m)"
    and calls: "q_woken (mq m) = q_woken (mq (book S)) @ calls"
    and T: "T = S\<lparr>book := m, clerk := (clerk S)(k := c), awake := awake S - {k} \<union> (if again then {k} else {}) \<union> set calls\<rparr>"
  shows "bureau_holds full T" and "bureau_work T < bureau_work S"
proof -
  note h = bureau_holdsD [OF S]
  have t: "staff T = staff S" "clerk T = (clerk S)(k := c)" "book T = m" by (simp_all add: T)
  have p: "mx_ok (if is_queued c then insert k (others_in_line k S) else others_in_line k S) (others_in_use k S \<or> is_midway c) m"
    "rouses k (mq (book S)) (mq m)" "data m + due (entries_of c) = data (book S) + due (entries_of (clerk S k))"
    "others_in_use k S \<Longrightarrow> data m = data (book S) \<and> \<not> is_midway c" "\<And>x e es. c = Midway x e es \<Longrightarrow> x = data m"
    "again \<or> is_off c \<or> k \<in> fst ` set (parked (mq m))"
    using r by (simp_all add: polled_def)
  obtain i where i: "calls_up_to i (book S) m" "i + weight c + of_bool again \<le> weight (clerk S k)"
    using r by (auto simp: polled_def)
  have "data (book T) + (\<Sum>l\<in>staff T. due (entries_of (clerk T l))) = full"
    using sum_fun_upd [OF h(2) k(1), of "\<lambda>c. due (entries_of c)" "clerk S" c] p(3) h(3) by (simp add: t)
  moreover have "x = data (book T)" if "l \<in> staff T" "clerk T l = Midway x e es" for l x e es
  proof (cases "l = k")
    case False
    with that another_in_use [of l S k] have "others_in_use k S" by (simp add: t)
    with p(4) h(4) [of l] that False show ?thesis by (simp add: t)
  qed (use that p(5) in \<open>simp add: t\<close>)
  moreover have "l = j" if lj: "l \<in> staff T" "j \<in> staff T" "is_midway (clerk T l)" "is_midway (clerk T j)" for l j
  proof -
    have "\<not> (l \<noteq> k \<and> j = k)" "\<not> (l = k \<and> j \<noteq> k)"
      using lj p(4) another_in_use [of l S k] another_in_use [of j S k] by (auto simp: t split: if_splits)
    with lj h(5) show ?thesis by (cases "l = k") (simp_all add: t)
  qed
  moreover have "is_off (clerk T l) \<or> l \<in> awake T \<or> l \<in> fst ` set (parked (mq (book T)))" if l: "l \<in> staff T" for l
    using stays_awake [OF S p(2) calls, of l] l p(6) by (cases "l = k") (auto simp: T)
  ultimately show "bureau_holds full T"
    unfolding bureau_holds_def line_upd [OF k(1) t(1,2)] using p(1) h(2) by (simp add: t)
  have "card (awake T \<inter> staff T) < card (awake S \<inter> staff S) + (of_bool again + i)"
    using card_awake [OF h(2) k, of again calls] i(1) calls by (auto simp: T calls_up_to_def)
  moreover have "(\<Sum>l\<in>staff T. weight (clerk T l)) + weight (clerk S k) = (\<Sum>l\<in>staff S. weight (clerk S l)) + weight c"
    using sum_fun_upd [OF h(2) k(1), of weight "clerk S" c] by (simp add: t)
  ultimately show "bureau_work T < bureau_work S" using i(2) unfolding bureau_work_def by simp
qed

lemma run_clerk_ok:
  assumes "bureau_holds full S" and "runnable k S"
  shows "\<exists>T. run_clerk k S = Inr T \<and> bureau_holds full T \<and> bureau_work T < bureau_work S"
proof -
  note h = bureau_holdsD [OF assms(1)]
  from assms(2) have k: "k \<in> staff S" "k \<in> awake S" by (simp_all add: runnable_def)
  have "x = data (book S) \<and> \<not> others_in_use k S" if "clerk S k = Midway x e es" for x e es
    using h(4) [OF k(1) that] h(5) [OF k(1)] that by (auto simp: others_in_use_def)
  then have "\<exists>r. clerk_poll k (clerk S k) (book S) = Inr r \<and>
      polled (others_in_line k S) (others_in_use k S) k (due (entries_of (clerk S k))) (weight (clerk S k)) (book S) r"
    by (intro clerk_poll_ok h(1) [unfolded line_split [OF k(1)]]) (auto simp: others_in_line_def)
  then obtain c again m where r: "clerk_poll k (clerk S k) (book S) = Inr (c, again, m)"
    "polled (others_in_line k S) (others_in_use k S) k (due (entries_of (clerk S k))) (weight (clerk S k)) (book S) (c, again, m)"
    by (metis prod_cases3)
  then obtain calls where c: "q_woken (mq m) = q_woken (mq (book S)) @ calls" by (auto simp: polled_def rouses_def)
  obtain T where T: "T = S\<lparr>book := m, clerk := (clerk S)(k := c),
      awake := awake S - {k} \<union> (if again then {k} else {}) \<union> set calls\<rparr>" by blast
  have "woken (lock_waiters m) = q_woken (mq m)" for m :: "nat mutex" by (simp add: wl_abs_def)
  then have "run_clerk k S = Inr T" using r(1) c by (simp add: run_clerk_def T)
  with bureau_after [OF assms(1) k r(2) c T] show ?thesis by blast
qed

text \<open>
  When nobody can run, nobody has the guard, so the mutex is free; then somebody who is parked must have
  been woken, who could run.
\<close>

lemma is_off_iff: "is_off c \<longleftrightarrow> c = Posting []"
  by (cases c rule: is_off.cases) simp_all

lemma in_line_clerk: "k \<in> in_line S \<Longrightarrow> k \<in> staff S \<and> \<not> is_off (clerk S k) \<and> \<not> is_midway (clerk S k)"
  by (cases "clerk S k") (auto simp: in_line_def)

lemma bureau_at_rest:
  assumes "bureau_holds full S" and "\<And>k. \<not> runnable k S"
  shows "bureau_done S" and "\<not> in_use S" and "parked (mq (book S)) = []"
proof -
  note h = bureau_holdsD [OF assms(1)] and m = mx_okD [OF bureau_holdsD(1) [OF assms(1)]]
  have rest: "is_off (clerk S k) \<or> k \<in> fst ` set (parked (mq (book S)))" if "k \<in> staff S" for k
    using h(6) [OF that] assms(2) [of k] that by (auto simp: runnable_def)
  have line: "k \<in> in_line S" if "k \<in> fst ` set (parked (mq (book S)))" for k
    using that m(3) by (auto simp: q_addrs_def)
  show "\<not> in_use S"
  proof
    assume "in_use S"
    then obtain k where "k \<in> staff S" "is_midway (clerk S k)" by (auto simp: in_use_def)
    with rest [of k] line [of k] in_line_clerk [of k S] show False by (auto simp: is_off_iff)
  qed
  moreover have "released (mq (book S)) a = None" for a
  proof (rule ccontr)
    assume a: "released (mq (book S)) a \<noteq> None"
    then have "a \<in> in_line S" using m(3) by (auto simp: q_addrs_def)
    moreover have "a \<notin> fst ` set (parked (mq (book S)))" using wl.disjoint_law [OF m(1)] a by fastforce
    ultimately show False using rest [of a] in_line_clerk [of a S] by blast
  qed
  ultimately show p: "parked (mq (book S)) = []" using m(6) by (cases "parked (mq (book S)) = []") simp_all
  with rest show "bureau_done S" by (auto simp: bureau_done_def)
qed

lemma bureau_done_closes:
  assumes "bureau_holds full S" and "bureau_done S"
  shows "data (book S) = full" and "\<not> locked (book S)" and "q_addrs (mq (book S)) = {}"
proof -
  note h = bureau_holdsD [OF assms(1)]
  have off: "clerk S k = Posting []" if "k \<in> staff S" for k using assms(2) that by (simp add: bureau_done_def is_off_iff)
  then show "data (book S) = full" using h(3) by simp
  have "in_line S = {}" "\<not> in_use S" using off by (auto simp: in_line_def in_use_def)
  then show "\<not> locked (book S)" "q_addrs (mq (book S)) = {}" using mx_okD(3,5) [OF h(1)] by simp_all
qed

definition bureau_start :: "nat \<Rightarrow> nat \<Rightarrow> (nat \<Rightarrow> entry list) \<Rightarrow> bureau \<Rightarrow> bool" where
  "bureau_start d n plan S \<longleftrightarrow> S = bureau_open d n plan"

lemma bureau_start_holds:
  shows "bureau_holds (d + (\<Sum>k<n. due (plan k))) (bureau_open d n plan)"
    and "bureau_work (bureau_open d n plan) = 3 * (\<Sum>k<n. length (plan k)) + n"
proof -
  have "wl_abs (wait_list_new :: (unit, unit) wait_list) = q_new" "wl_inv (wait_list_new :: (unit, unit) wait_list)"
    using new_refines by blast+
  then have "mx_ok {} False (mutex_new d)"
    by (simp add: mx_ok_def mutex_new_def q_new_def q_addrs_def own_wakers_def)
  then show "bureau_holds (d + (\<Sum>k<n. due (plan k))) (bureau_open d n plan)"
    by (simp add: bureau_holds_def bureau_open_def in_line_def in_use_def) (simp add: mutex_new_def)
  show "bureau_work (bureau_open d n plan) = 3 * (\<Sum>k<n. length (plan k)) + n"
    by (simp add: bureau_work_def bureau_open_def weight_def sum_distrib_left)
qed

interpretation bureau: bounded_runs "bureau_start d n plan" bureau_step "bureau_holds (d + (\<Sum>k<n. due (plan k)))"
  bureau_done bureau_work
  for d and n and plan
proof unfold_locales
  fix S
  assume S: "bureau_holds (d + (\<Sum>k<n. due (plan k))) S" "\<not> bureau_done S"
  from bureau_at_rest(1) [OF S(1)] S(2) obtain k where "runnable k S" by blast
  with run_clerk_ok [OF S(1) this] show "\<exists>T. bureau_step S T" by (auto intro: bureau_step.run_clerk)
next
  fix S T
  assume S: "bureau_holds (d + (\<Sum>k<n. due (plan k))) S" "bureau_step S T"
  then obtain k where "runnable k S" "run_clerk k S = Inr T" by (auto elim: bureau_stepE)
  with run_clerk_ok [OF S(1), of k] show "bureau_work T < bureau_work S" by simp
next
  fix S T
  assume S: "bureau_step S T" "bureau_holds (d + (\<Sum>k<n. due (plan k))) S"
  then obtain k where "runnable k S" "run_clerk k S = Inr T" by (auto elim: bureau_stepE)
  with run_clerk_ok [OF S(2), of k] show "bureau_holds (d + (\<Sum>k<n. due (plan k))) T" by simp
qed (use bureau_start_holds in \<open>simp add: bureau_start_def\<close>)

section \<open>No update is lost\<close>

lemma bureau_steps_staff: "(bureau_step ^^ m) S T \<Longrightarrow> staff T = staff S"
  by (induction m arbitrary: T) (auto elim!: bureau_stepE simp: run_clerk_def and_then_eq_Inr)

text \<open>C15.
  Any number of tasks that add their amounts to a number behind the mutex, reading it and writing it
  back with a suspension in between whenever they like, and none of which is aborted, always finish,
  and no update is lost.  However
  the executor chooses among the tasks that are awake, no call faults, at most one task is in the
  middle of an entry, and it still finds the number as it read it; there is no deadlock, and no run has
  more than three polls per entry and one per task.  A run that cannot go on has made all the entries:
  the number is the one at the start plus all the amounts, the mutex is free and nobody is in its queue.
\<close>

theorem mutex_every_schedule_adds:
  assumes "(bureau_step ^^ m) (bureau_open d n plan) T"
  shows "m \<le> 3 * (\<Sum>k<n. length (plan k)) + n \<and>
     (\<forall>k. runnable k T \<longrightarrow> (\<exists>U. run_clerk k T = Inr U)) \<and>
     (\<forall>k<n. \<forall>l<n. is_midway (clerk T k) \<longrightarrow> is_midway (clerk T l) \<longrightarrow> k = l) \<and>
     (\<forall>k<n. \<forall>x e es. clerk T k = Midway x e es \<longrightarrow> mutex_deref (book T) = x \<and> locked (book T)) \<and>
     ((\<forall>k<n. clerk T k = Posting []) \<and> mutex_deref (book T) = d + (\<Sum>k<n. \<Sum>e\<leftarrow>plan k. amount e) \<and>
        \<not> locked (book T) \<and> q_addrs (wl_abs (lock_waiters (book T))) = {}
      \<or> (\<exists>U. bureau_step T U))"
proof -
  let ?full = "d + (\<Sum>k<n. due (plan k))"
  have r: "bureau_holds ?full T \<and> m \<le> bureau_work (bureau_open d n plan) \<and> (bureau_done T \<or> (\<exists>U. bureau_step T U))"
    by (rule bureau.run_continues [OF assms]) (simp add: bureau_start_def)
  then have h: "bureau_holds ?full T" by blast
  have c: "staff T = {..<n}" using bureau_steps_staff [OF assms] by (simp add: bureau_open_def)
  have "\<exists>U. run_clerk k T = Inr U" if "runnable k T" for k using run_clerk_ok [OF h that] by blast
  moreover have "k = l" if "k < n" "l < n" "is_midway (clerk T k)" "is_midway (clerk T l)" for k l
    using bureau_holdsD(5) [OF h] that by (simp add: c)
  moreover have "mutex_deref (book T) = x \<and> locked (book T)" if k: "k < n" "clerk T k = Midway x e es" for k x e es
  proof -
    have "in_use T" unfolding in_use_def c by (rule bexI [of _ k]) (use k in simp_all)
    with bureau_holdsD(4) [OF h, of k] mx_okD(5) [OF bureau_holdsD(1) [OF h]] k show ?thesis
      by (simp add: c mutex_deref_def)
  qed
  moreover have "(\<forall>k<n. clerk T k = Posting []) \<and> mutex_deref (book T) = d + (\<Sum>k<n. \<Sum>e\<leftarrow>plan k. amount e) \<and>
      \<not> locked (book T) \<and> q_addrs (mq (book T)) = {}" if "bureau_done T"
    using bureau_done_closes [OF h that] that by (simp add: bureau_done_def is_off_iff c mutex_deref_def due_def)
  ultimately show ?thesis using r bureau_start_holds(2) [of d n plan] by auto
qed

lemma run_clerks_steps: "run_clerks ks S = Inr T \<Longrightarrow> (bureau_step ^^ length ks) S T"
proof (induction ks arbitrary: S)
  case (Cons k ks)
  then obtain U where "runnable k S" "run_clerk k S = Inr U" "run_clerks ks U = Inr T"
    by (auto simp: and_then_eq_Inr split: if_splits)
  with Cons.IH [of U] have "bureau_step S U" "(bureau_step ^^ length ks) U T" by (auto intro: bureau_step.run_clerk)
  then show ?case unfolding list.size(4) add_Suc_right by (simp only: add_0_right relpowp_Suc_I2)
qed simp

theorem mutex_every_schedule_adds_witness:
  "\<exists>T. run_clerks [0, 1, 0, 1, 1] (bureau_open 2 2 two_entries) = Inr T \<and>
     (\<forall>k<2. clerk T k = Posting []) \<and> mutex_deref (book T) = 15"
proof -
  let ?ks = "[0, 1, 0, 1, 1]"
  have "passes (run_clerks ?ks (bureau_open 2 2 two_entries)) (\<lambda>T. \<not> runnable 0 T \<and> \<not> runnable 1 T \<and> staff T = {..<2})"
    by code_simp
  then obtain T where T: "run_clerks ?ks (bureau_open 2 2 two_entries) = Inr T" "\<not> runnable 0 T" "\<not> runnable 1 T"
    "staff T = {..<2}"
    by (elim passesE conjE) (rule that)
  have "\<not> bureau_step T U" for U
  proof
    assume "bureau_step T U"
    then obtain k where k: "runnable k T" by (auto elim: bureau_stepE)
    then have "k < 2" using T(4) by (auto simp: runnable_def)
    then have "k = 0 \<or> k = 1" by auto
    with k T(2,3) show False by auto
  qed
  moreover have "(\<Sum>k<2. \<Sum>e\<leftarrow>two_entries k. amount e) = 13" by code_simp
  ultimately show ?thesis using mutex_every_schedule_adds [OF run_clerks_steps [OF T(1)]] T(1) by fastforce
qed

end
