(* ===== verification/Semaphore.thy ===== *)
theory Semaphore
  imports Wait_List_Spec
begin

text \<open>
  \<open>src/semaphore.rs\<close>: the semaphore over the wait list.  A permit guard is the number of
  permits it holds, the two wake-up values are what a woken waiter finds in its slot, and the
  destructors (\<open>UnfairWoken\<close>, \<open>FairGrant\<close>, \<open>Permit\<close>) are functions that the code paths that
  drop such a value call.  The futures of \<open>acquire\<close> and \<open>acquire_unfair\<close> are their first
  poll, their later polls and their drop; the future pinned at address \<open>a\<close> keeps its waiter
  at \<open>a\<close>.
\<close>

section \<open>Data\<close>

datatype fairness = Fair | Unfair

datatype unfair_woken = UnfairWoken

datatype fair_grant = FairGrant (grant_permits: usize)

datatype wake_up = WakeUnfair unfair_woken | WakeFair fair_grant

record semaphore =
  waiters :: "(usize, wake_up) wait_list"
  permits :: usize
  total_permits :: usize

datatype permit = Permit (held_permits: usize)

definition semaphore_new :: "usize \<Rightarrow> semaphore" where
  "semaphore_new n = \<lparr>waiters = wait_list_new, permits = n, total_permits = n\<rparr>"

definition available_permits :: "semaphore \<Rightarrow> usize" where
  "available_permits s = permits s"

definition total_permits_of :: "semaphore \<Rightarrow> usize" where
  "total_permits_of s = total_permits s"

section \<open>Releasing permits\<close>

text \<open>
  The loop of \<open>release_permits\<close>.  Each round wakes one waiter, so it ends whatever the
  state of the list is.
\<close>

function release_loop :: "fairness \<Rightarrow> usize \<Rightarrow> semaphore \<Rightarrow> semaphore res" where
  "release_loop fairness p s =
     and_then (head_input (waiters s)) (\<lambda>head.
     case head of
       None \<Rightarrow> Inr s
     | Some wanted_permits \<Rightarrow>
         (case checked_sub p wanted_permits of
            None \<Rightarrow> Inr s
          | Some new_permits \<Rightarrow>
              let s' = (case fairness of Fair \<Rightarrow> s\<lparr>permits := new_permits\<rparr> | Unfair \<Rightarrow> s);
                  wake = (case fairness of
                      Fair \<Rightarrow> WakeFair (FairGrant wanted_permits)
                    | Unfair \<Rightarrow> WakeUnfair UnfairWoken)
              in and_then (wake_one wake (waiters s')) (\<lambda>(r, wl).
                 case r of
                   Err _ \<Rightarrow> Inl (Panic ''internal error: entered unreachable code'')
                 | Ok _ \<Rightarrow> release_loop fairness new_permits (s'\<lparr>waiters := wl\<rparr>))))"
  by pat_completeness auto
termination
  by (relation "measure (\<lambda>(f, p, s). wakers_left (waiters s))")
    (auto dest: wake_one_decreases split: fairness.splits)

declare release_loop.simps [simp del]

definition release_permits :: "semaphore \<Rightarrow> usize \<Rightarrow> fairness \<Rightarrow> semaphore res" where
  "release_permits s n fairness =
     and_then (usize_add (permits s) n) (\<lambda>p.
     let s = s\<lparr>permits := p\<rparr> in
     and_then (borrow (waiters s)) (\<lambda>wl.
     and_then (release_loop fairness p (s\<lparr>waiters := wl\<rparr>)) (\<lambda>s.
     and_then (drop_borrowed (waiters s)) (\<lambda>wl. Inr (s\<lparr>waiters := wl\<rparr>)))))"

definition unfair_woken_drop :: "unfair_woken \<Rightarrow> semaphore \<Rightarrow> semaphore res" where
  "unfair_woken_drop token s = release_permits s 0 Unfair"

definition fair_grant_drop :: "fair_grant \<Rightarrow> semaphore \<Rightarrow> semaphore res" where
  "fair_grant_drop grant s = release_permits s (grant_permits grant) Unfair"

fun wake_up_drop :: "wake_up \<Rightarrow> semaphore \<Rightarrow> semaphore res" where
  "wake_up_drop (WakeUnfair token) s = unfair_woken_drop token s"
| "wake_up_drop (WakeFair grant) s = fair_grant_drop grant s"

definition add_permits :: "semaphore \<Rightarrow> usize \<Rightarrow> semaphore res" where
  "add_permits s new_permits =
     (case checked_add (total_permits s) new_permits of
        None \<Rightarrow> Inl (Panic ''number of permits overflowed'')
      | Some t \<Rightarrow> release_permits (s\<lparr>total_permits := t\<rparr>) new_permits Unfair)"

definition add_permits_fair :: "semaphore \<Rightarrow> usize \<Rightarrow> semaphore res" where
  "add_permits_fair s new_permits =
     (case checked_add (total_permits s) new_permits of
        None \<Rightarrow> Inl (Panic ''called `Option::unwrap()` on a `None` value'')
      | Some t \<Rightarrow> release_permits (s\<lparr>total_permits := t\<rparr>) new_permits Fair)"

section \<open>Acquiring permits\<close>

definition try_acquire_unfair :: "semaphore \<Rightarrow> usize \<Rightarrow> permit option \<times> semaphore" where
  "try_acquire_unfair s to_acquire =
     (case checked_sub (permits s) to_acquire of
        None \<Rightarrow> (None, s)
      | Some new_permits \<Rightarrow> (Some (Permit to_acquire), s\<lparr>permits := new_permits\<rparr>))"

definition try_acquire :: "semaphore \<Rightarrow> usize \<Rightarrow> (permit option \<times> semaphore) res" where
  "try_acquire s to_acquire =
     and_then (borrow (waiters s)) (\<lambda>wl.
     let busy = \<not> is_empty wl in
     and_then (drop_borrowed wl) (\<lambda>wl.
     let s = s\<lparr>waiters := wl\<rparr> in
     if busy then Inr (None, s) else Inr (try_acquire_unfair s to_acquire)))"

text \<open>
  The two futures differ only in how a round of their loop first tries to acquire.
\<close>

datatype acquire_kind = FairAcquire | UnfairAcquire

fun first_try :: "acquire_kind \<Rightarrow> semaphore \<Rightarrow> usize \<Rightarrow> (permit option \<times> semaphore) res" where
  "first_try FairAcquire s n = try_acquire s n"
| "first_try UnfairAcquire s n = Inr (try_acquire_unfair s n)"

text \<open>
  The match on the wake-up value, the same in both futures: the permit that ends the loop,
  or None to go round again after the unused token has been dropped.
\<close>

fun acquire_woken :: "usize \<Rightarrow> wake_up \<Rightarrow> semaphore \<Rightarrow> (permit option \<times> semaphore) res" where
  "acquire_woken to_acquire (WakeUnfair token) s =
     (case try_acquire_unfair s to_acquire of
        (Some guard, s) \<Rightarrow> Inr (Some guard, s)
      | (None, s) \<Rightarrow> and_then (unfair_woken_drop token s) (\<lambda>s. Inr (None, s)))"
| "acquire_woken to_acquire (WakeFair grant) s = Inr (Some (Permit to_acquire), s)"

function acquire_loop ::
  "acquire_kind \<Rightarrow> addr \<Rightarrow> usize \<Rightarrow> waker \<Rightarrow> semaphore \<Rightarrow> (permit poll \<times> semaphore) res" where
  "acquire_loop kind a to_acquire cx s =
     and_then (first_try kind s to_acquire) (\<lambda>(guard, s).
     case guard of
       Some guard \<Rightarrow> Inr (Ready guard, s)
     | None \<Rightarrow>
         and_then (wait_start a to_acquire cx (waiters s)) (\<lambda>(r, wl).
         case r of
           Pending \<Rightarrow> Inr (Pending, s\<lparr>waiters := wl\<rparr>)
         | Ready wake \<Rightarrow>
             and_then (acquire_woken to_acquire wake (s\<lparr>waiters := wl\<rparr>)) (\<lambda>(guard, s).
             case guard of
               Some guard \<Rightarrow> Inr (Ready guard, s)
             | None \<Rightarrow> acquire_loop kind a to_acquire cx s)))"
  by pat_completeness auto
termination
  by (relation "{}") (auto dest: wait_start_Pending)

declare acquire_loop.simps [simp del]

definition acquire_resume ::
  "acquire_kind \<Rightarrow> addr \<Rightarrow> usize \<Rightarrow> waker \<Rightarrow> semaphore \<Rightarrow> (permit poll \<times> semaphore) res" where
  "acquire_resume kind a to_acquire cx s =
     and_then (wait_resume a cx (waiters s)) (\<lambda>(r, wl).
     case r of
       Pending \<Rightarrow> Inr (Pending, s\<lparr>waiters := wl\<rparr>)
     | Ready wake \<Rightarrow>
         and_then (acquire_woken to_acquire wake (s\<lparr>waiters := wl\<rparr>)) (\<lambda>(guard, s).
         case guard of
           Some guard \<Rightarrow> Inr (Ready guard, s)
         | None \<Rightarrow> acquire_loop kind a to_acquire cx s))"

definition acquire :: "addr \<Rightarrow> usize \<Rightarrow> waker \<Rightarrow> semaphore \<Rightarrow> (permit poll \<times> semaphore) res" where
  "acquire a to_acquire cx s = acquire_loop FairAcquire a to_acquire cx s"

definition acquire_unfair :: "addr \<Rightarrow> usize \<Rightarrow> waker \<Rightarrow> semaphore \<Rightarrow> (permit poll \<times> semaphore) res" where
  "acquire_unfair a to_acquire cx s = acquire_loop UnfairAcquire a to_acquire cx s"

text \<open>
  Dropping a suspended future drops its waiter, and with it the wake-up value it may hold.
\<close>

definition acquire_drop :: "addr \<Rightarrow> semaphore \<Rightarrow> semaphore res" where
  "acquire_drop a s =
     and_then (wait_cancel a (waiters s)) (\<lambda>(slot, wl).
     let s = s\<lparr>waiters := wl\<rparr> in
     case slot of Input _ \<Rightarrow> Inr s | Output wake \<Rightarrow> wake_up_drop wake s)"

section \<open>Permit guards\<close>

definition permit_drop :: "permit \<Rightarrow> semaphore \<Rightarrow> semaphore res" where
  "permit_drop guard s = release_permits s (held_permits guard) Unfair"

definition release_fair :: "permit \<Rightarrow> semaphore \<Rightarrow> semaphore res" where
  "release_fair guard s = release_permits s (held_permits guard) Fair"

definition leak :: "permit \<Rightarrow> semaphore \<Rightarrow> semaphore res" where
  "leak guard s =
     and_then (usize_sub (total_permits s) (held_permits guard)) (\<lambda>reduced_permits.
     Inr (s\<lparr>total_permits := reduced_permits\<rparr>))"

end
