(* ===== verification/Semaphore_Spec.thy ===== *)
theory Semaphore_Spec
  imports Semaphore
begin

text \<open>
  What releasing permits does, in terms of the abstract queue: \<open>served\<close> is the longest prefix
  of the parked waiters whose requests fit into the permits one after the other, and
  \<open>q_serve\<close> hands each of them its wake-up value.  Then the invariant of the semaphore
  (\<open>sem_ok\<close>: the permits available, granted and held add up to the total) and the
  no-lost-wakeup condition (\<open>settled\<close>), and one lemma per operation that gives its result
  and keeps both.
\<close>

section \<open>Serving the queue\<close>

fun served :: "usize \<Rightarrow> (addr \<times> usize \<times> waker) list \<Rightarrow> (addr \<times> usize \<times> waker) list" where
  "served p [] = []"
| "served p ((a, w, k) # es) = (if w \<le> p then (a, w, k) # served (p - w) es else [])"

fun remaining :: "usize \<Rightarrow> (addr \<times> usize \<times> waker) list \<Rightarrow> usize" where
  "remaining p [] = p"
| "remaining p ((a, w, k) # es) = (if w \<le> p then remaining (p - w) es else p)"

definition wanted :: "(addr \<times> usize \<times> waker) list \<Rightarrow> nat" where
  "wanted es = (\<Sum>(a, w, k)\<leftarrow>es. unat w)"

definition hand :: "fairness \<Rightarrow> usize \<Rightarrow> wake_up" where
  "hand f w = (case f of Fair \<Rightarrow> WakeFair (FairGrant w) | Unfair \<Rightarrow> WakeUnfair UnfairWoken)"

definition handed :: "fairness \<Rightarrow> (addr \<times> usize \<times> waker) list \<Rightarrow> (addr \<times> wake_up) list" where
  "handed f es = map (\<lambda>(a, w, k). (a, hand f w)) es"

definition q_serve :: "fairness \<Rightarrow> usize \<Rightarrow> (usize, wake_up) wait_queue \<Rightarrow> (usize, wake_up) wait_queue" where
  "q_serve f p q =
     (let es = served p (parked q) in
      q\<lparr>parked := drop (length es) (parked q),
        released := released q ++ map_of (handed f es),
        q_woken := q_woken q @ map (\<lambda>(a, w, k). k) es\<rparr>)"

lemma served_append_drop: "served p es @ drop (length (served p es)) es = es"
  by (induction p es rule: served.induct) auto

lemma served_subset: "set (served p es) \<subseteq> set es"
  by (metis served_append_drop Un_upper1 set_append)

lemma fst_handed: "fst ` set (handed f es) = fst ` set es"
  by (auto simp: handed_def image_image split_def)

lemma distinct_handed: "distinct (map fst es) \<Longrightarrow> distinct (map fst (handed f es))"
  by (simp add: handed_def comp_def split_def)

lemma distinct_served: "distinct (map fst es) \<Longrightarrow> distinct (map fst (served p es))"
  by (metis served_append_drop distinct_append map_append)

lemma wanted_Cons [simp]: "wanted ((a, w, k) # es) = unat w + wanted es"
  by (simp add: wanted_def)

lemma wanted_Nil [simp]: "wanted [] = 0"
  by (simp add: wanted_def)

lemma unat_remaining: "unat (remaining p es) + wanted (served p es) = unat p"
  by (induction p es rule: served.induct) (auto simp: unat_sub_no_wrap usize_le_iff)

lemma rest_does_not_fit:
  "drop (length (served p es)) es = (a, w, k) # es' \<Longrightarrow> unat (remaining p es) < unat w"
  by (induction p es rule: served.induct) (auto simp: usize_le_iff split: if_splits)

lemma q_serve_step:
  assumes "parked q = (a, w, k) # es" and "w \<le> p" and "a \<notin> fst ` set es"
  shows "q_serve f p q = q_serve f (p - w)
     (q\<lparr>parked := es, released := (released q)(a \<mapsto> hand f w), q_woken := q_woken q @ [k]\<rparr>)"
proof -
  have "a \<notin> fst ` set (served (p - w) es)" using assms(3) served_subset by (auto simp: image_iff)
  then have "map_of (handed f (served (p - w) es)) a = None"
    by (metis fst_handed map_of_eq_None_iff)
  then have "released q ++ map_of ((a, hand f w) # handed f (served (p - w) es)) =
      (released q)(a \<mapsto> hand f w) ++ map_of (handed f (served (p - w) es))"
    by (auto simp: map_add_def fun_eq_iff split: option.split)
  with assms(1,2) show ?thesis
    by (simp add: q_serve_def Let_def handed_def)
qed

lemma q_serve_nothing: "served p (parked q) = [] \<Longrightarrow> q_serve f p q = q"
  by (simp add: q_serve_def handed_def)

lemma release_loop_serves:
  assumes "wl_inv (waiters s)" and "f = Fair \<Longrightarrow> permits s = p"
  shows "\<exists>wl'. release_loop f p s = Inr (s\<lparr>waiters := wl',
        permits := (if f = Fair then remaining p (parked (wl_abs (waiters s))) else permits s)\<rparr>) \<and>
     wl_inv wl' \<and> wl_abs wl' = q_serve f p (wl_abs (waiters s))"
  using assms
proof (induction "parked (wl_abs (waiters s))" arbitrary: s p)
  case Nil
  then show ?case
    by (auto simp: release_loop.simps [of f p s] wl.head_law q_serve_nothing intro!: exI [of _ "waiters s"])
next
  case (Cons e es)
  obtain a w k where e: "e = (a, w, k)" by (cases e)
  let ?q = "wl_abs (waiters s)"
  from Cons.hyps(2) e have pk: "parked ?q = (a, w, k) # es" by simp
  from Cons.prems(1) pk have h: "head_input (waiters s) = Inr (Some w)" by (simp add: wl.head_law)
  show ?case
  proof (cases "w \<le> p")
    case False
    with h pk Cons.prems show ?thesis
      by (auto simp: release_loop.simps [of f p s] checked_sub_def q_serve_nothing
          intro!: exI [of _ "waiters s"])
  next
    case True
    from wl.wake_first [OF Cons.prems(1) pk, of "hand f w"] obtain wl1 where
      wl1: "wake_one (hand f w) (waiters s) = Inr (Ok w, wl1)" "wl_inv wl1"
      "wl_abs wl1 = ?q\<lparr>parked := es, released := (released ?q)(a \<mapsto> hand f w),
         q_woken := q_woken ?q @ [k]\<rparr>"
      by blast
    let ?s = "s\<lparr>permits := (if f = Fair then p - w else permits s), waiters := wl1\<rparr>"
    have l: "release_loop f p s = release_loop f (p - w) ?s"
      using h True wl1(1) 
      by (cases f) (simp_all add: release_loop.simps [of Fair p s] release_loop.simps [of Unfair p s]
          checked_sub_def hand_def)
    have es: "es = parked (wl_abs (waiters ?s))" using wl1(3) by simp
    have "\<exists>wl'. release_loop f (p - w) ?s = Inr (?s\<lparr>waiters := wl',
         permits := (if f = Fair then remaining (p - w) es else permits ?s)\<rparr>) \<and>
       wl_inv wl' \<and> wl_abs wl' = q_serve f (p - w) (wl_abs wl1)"
      using Cons.hyps(1) [OF es, of "p - w"] wl1(2,3) by (cases "f = Fair") simp_all
    then obtain wl' where r: "release_loop f (p - w) ?s = Inr (?s\<lparr>waiters := wl',
         permits := (if f = Fair then remaining (p - w) es else permits ?s)\<rparr>)"
      "wl_inv wl'" "wl_abs wl' = q_serve f (p - w) (wl_abs wl1)"
      by blast
    have "a \<notin> fst ` set es"
      using wl.distinct_law [OF Cons.prems(1)] pk by simp
    then have "q_serve f p ?q = q_serve f (p - w) (wl_abs wl1)"
      using pk True by (simp add: q_serve_step wl1(3))
    with r True pk l show ?thesis
      by (intro exI [of _ wl']) (cases "f = Fair"; simp)
  qed
qed

text \<open>
  \<open>release_permits\<close> serves the queue with what is then available; it faults only when the
  number of permits overflows.
\<close>

lemma release_permits_serves:
  assumes "wl_inv (waiters s)" and "\<not> borrowed (waiters s)" and "unat (permits s) + unat n < 2 ^ 64"
  shows "\<exists>wl'. release_permits s n f = Inr (s\<lparr>waiters := wl',
        permits := (if f = Fair then remaining (permits s + n) (parked (wl_abs (waiters s)))
                    else permits s + n)\<rparr>) \<and>
     wl_inv wl' \<and> \<not> borrowed wl' \<and> wl_abs wl' = q_serve f (permits s + n) (wl_abs (waiters s))"
proof -
  let ?p = "permits s + n"
  from wl.borrow_law [OF assms(1)] assms(2) obtain wl1 where
    1: "borrow (waiters s) = Inr wl1" "wl_inv wl1" "wl_abs wl1 = wl_abs (waiters s)\<lparr>q_borrowed := True\<rparr>"
    by (auto simp: borrowed_abs)
  let ?s = "s\<lparr>permits := ?p, waiters := wl1\<rparr>"
  have "\<exists>wl2. release_loop f ?p ?s = Inr (?s\<lparr>waiters := wl2,
        permits := (if f = Fair then remaining ?p (parked (wl_abs (waiters s))) else ?p)\<rparr>) \<and>
      wl_inv wl2 \<and> wl_abs wl2 = q_serve f ?p (wl_abs wl1)"
    using release_loop_serves [of ?s f ?p] 1 by (cases "f = Fair") simp_all
  then obtain wl2 where
    2: "release_loop f ?p ?s = Inr (?s\<lparr>waiters := wl2,
        permits := (if f = Fair then remaining ?p (parked (wl_abs (waiters s))) else ?p)\<rparr>)"
      "wl_inv wl2" "wl_abs wl2 = q_serve f ?p (wl_abs wl1)"
    by blast
  then have b: "q_borrowed (wl_abs wl2)" using 1(3) by (simp add: q_serve_def Let_def)
  from wl.release_law [OF 2(2) b] obtain wl3 where
    3: "drop_borrowed wl2 = Inr wl3" "wl_inv wl3" "wl_abs wl3 = wl_abs wl2\<lparr>q_borrowed := False\<rparr>"
    by blast
  have "q_borrowed (wl_abs (waiters s)) = False" using assms(2) by (simp add: borrowed_abs)
  then have "wl_abs wl3 = q_serve f ?p (wl_abs (waiters s))"
    using 1(3) 2(3) 3(3) by (cases "wl_abs (waiters s)") (simp add: q_serve_def Let_def)
  moreover have "\<not> borrowed wl3" using 3(3) by (simp add: borrowed_abs [symmetric])
  ultimately show ?thesis
    using assms(3) 1(1) 2(1) 3(1,2)
    by (intro exI [of _ wl3]) (simp add: release_permits_def usize_add_Inr Let_def)
qed

section \<open>The invariant\<close>

text \<open>
  \<open>P\<close> maps the address of every suspended acquire future to its kind and the number of
  permits it asks for; \<open>H\<close> is the number of permits in live guards.  \<open>granted\<close> counts the
  permits in fair grants not yet claimed, \<open>offered\<close> the requests of the waiters that hold an
  unfair wake-up they have not used yet.
\<close>

type_synonym clients = "addr \<Rightarrow> (acquire_kind \<times> usize) option"

definition requested :: "clients \<Rightarrow> addr \<Rightarrow> nat" where
  "requested P a = (case P a of None \<Rightarrow> 0 | Some (kind, n) \<Rightarrow> unat n)"

definition grant_weight :: "addr \<Rightarrow> wake_up \<Rightarrow> nat" where
  "grant_weight a h = (case h of WakeFair g \<Rightarrow> unat (grant_permits g) | WakeUnfair _ \<Rightarrow> 0)"

definition offer_weight :: "clients \<Rightarrow> addr \<Rightarrow> wake_up \<Rightarrow> nat" where
  "offer_weight P a h = (case h of WakeFair g \<Rightarrow> 0 | WakeUnfair _ \<Rightarrow> requested P a)"

definition granted :: "(usize, wake_up) wait_queue \<Rightarrow> nat" where
  "granted q = sum_over grant_weight (released q)"

definition offered :: "clients \<Rightarrow> (usize, wake_up) wait_queue \<Rightarrow> nat" where
  "offered P q = sum_over (offer_weight P) (released q)"

definition matches :: "clients \<Rightarrow> (usize, wake_up) wait_queue \<Rightarrow> bool" where
  "matches P q \<longleftrightarrow> q_addrs q = dom P \<and>
     (\<forall>(a, w, k) \<in> set (parked q). \<exists>kind. P a = Some (kind, w)) \<and>
     (\<forall>a g. released q a = Some (WakeFair g) \<longrightarrow> (\<exists>kind. P a = Some (kind, grant_permits g)))"

definition sem_ok :: "clients \<Rightarrow> nat \<Rightarrow> semaphore \<Rightarrow> bool" where
  "sem_ok P H s \<longleftrightarrow>
     wl_inv (waiters s) \<and> \<not> borrowed (waiters s) \<and> matches P (wl_abs (waiters s)) \<and>
     unat (permits s) + granted (wl_abs (waiters s)) + H = unat (total_permits s)"

text \<open>
  No wake-up is lost: if someone is parked, the permits available do not cover the requests of
  those who have been offered them and of the head of the queue.  In particular, when no
  offer is outstanding, the head cannot be served.
\<close>

definition settled :: "clients \<Rightarrow> semaphore \<Rightarrow> bool" where
  "settled P s \<longleftrightarrow>
     (case parked (wl_abs (waiters s)) of
        [] \<Rightarrow> True
      | (a, w, k) # es \<Rightarrow> unat (permits s) < unat w + offered P (wl_abs (waiters s)))"

lemma finite_released: "wl_inv l \<Longrightarrow> finite (dom (released (wl_abs l)))"
  using wl.finite_law by (rule finite_subset [rotated]) (auto simp: q_addrs_def)

lemma sum_over_serve:
  assumes "wl_inv l"
  shows "sum_over g (released (q_serve f p (wl_abs l))) =
     sum_over g (released (wl_abs l)) + (\<Sum>(a, w, k)\<leftarrow>served p (parked (wl_abs l)). g a (hand f w))"
proof -
  let ?q = "wl_abs l" and ?es = "served p (parked (wl_abs l))"
  have "released ?q a = None" if a: "a \<in> fst ` set (handed f ?es)" for a
  proof -
    from a obtain e where "e \<in> set ?es" "a = fst e" by (auto simp: fst_handed)
    moreover from this(1) have "e \<in> set (parked ?q)" using served_subset by blast
    ultimately show ?thesis using wl.disjoint_law [OF assms] by simp
  qed
  then have "sum_over g (released ?q ++ map_of (handed f ?es)) =
      sum_over g (released ?q) + (\<Sum>(a, v)\<leftarrow>handed f ?es. g a v)"
    by (intro sum_over_map_of) (simp_all add: assms finite_released distinct_handed distinct_served wl.distinct_law)
  also have "(\<Sum>(a, v)\<leftarrow>handed f ?es. g a v) = (\<Sum>(a, w, k)\<leftarrow>?es. g a (hand f w))"
    by (simp add: handed_def comp_def split_def)
  finally show ?thesis by (simp add: q_serve_def Let_def)
qed

lemma granted_serve:
  assumes "wl_inv l"
  shows "granted (q_serve f p (wl_abs l)) =
     granted (wl_abs l) + (if f = Fair then wanted (served p (parked (wl_abs l))) else 0)"
proof -
  have "(\<Sum>(a, w, k)\<leftarrow>es. grant_weight a (hand f w)) = (if f = Fair then wanted es else 0)"
    for es :: "(addr \<times> usize \<times> waker) list"
    by (cases f) (auto simp: grant_weight_def hand_def wanted_def)
  then show ?thesis by (simp add: granted_def sum_over_serve [OF assms])
qed

lemma offered_serve:
  assumes "wl_inv l" and "matches P (wl_abs l)"
  shows "offered P (q_serve f p (wl_abs l)) =
     offered P (wl_abs l) + (if f = Fair then 0 else wanted (served p (parked (wl_abs l))))"
proof -
  have "(\<Sum>(a, w, k)\<leftarrow>es. offer_weight P a (hand f w)) = (if f = Fair then 0 else wanted es)"
    if "set es \<subseteq> set (parked (wl_abs l))" for es
    using that
  proof (induction es)
    case Nil
    then show ?case by simp
  next
    case (Cons e es)
    then obtain a w k kind where "e = (a, w, k)" "P a = Some (kind, w)"
      using assms(2) by (cases e) (auto simp: matches_def)
    with Cons show ?case by (cases f) (simp_all add: offer_weight_def hand_def requested_def)
  qed
  then show ?thesis by (simp add: offered_def sum_over_serve [OF assms(1)] served_subset)
qed

lemma matches_serve:
  assumes "wl_inv l" and "matches P (wl_abs l)"
  shows "matches P (q_serve f p (wl_abs l))"
proof -
  let ?q = "wl_abs l"
  let ?es = "served p (parked ?q)" and ?rest = "drop (length (served p (parked ?q))) (parked ?q)"
  have pk: "set ?es \<union> set ?rest = set (parked ?q)"
    by (metis served_append_drop set_append)
  have "fst ` set ?es \<union> fst ` set ?rest = fst ` set (parked ?q)"
    by (simp add: pk [symmetric] image_Un)
  moreover have "dom (map_of (handed f ?es)) = fst ` set ?es"
    by (simp add: dom_map_of_conv_image_fst fst_handed)
  ultimately have "q_addrs (q_serve f p ?q) = q_addrs ?q"
    unfolding q_addrs_def q_serve_def Let_def by auto
  moreover have "\<exists>kind. P a = Some (kind, grant_permits g)"
    if "released (q_serve f p ?q) a = Some (WakeFair g)" for a g
  proof (cases "map_of (handed f ?es) a")
    case None
    with that assms(2) show ?thesis
      by (auto simp: q_serve_def Let_def map_add_def matches_def)
  next
    case (Some h)
    then obtain w k where "(a, w, k) \<in> set ?es" "h = hand f w"
      by (auto dest!: map_of_SomeD simp: handed_def)
    moreover have "h = WakeFair g"
      using that Some by (simp add: q_serve_def Let_def)
    moreover have "(a, w, k) \<in> set (parked ?q)" using calculation(1) pk by blast
    ultimately show ?thesis
      using assms(2) by (cases f) (auto simp: hand_def matches_def)
  qed
  moreover have "set (parked (q_serve f p ?q)) \<subseteq> set (parked ?q)"
    by (auto simp: q_serve_def Let_def dest: in_set_dropD)
  ultimately show ?thesis
    using assms(2) unfolding matches_def by blast
qed

text \<open>
  Releasing \<open>n\<close> permits takes them from the held ones; afterwards no wake-up is missing,
  whatever was the case before.
\<close>

lemma release_ok:
  assumes "sem_ok P (H + unat n) s"
  shows "\<exists>s'. release_permits s n f = Inr s' \<and> sem_ok P H s' \<and> settled P s' \<and>
     total_permits s' = total_permits s \<and>
     wl_abs (waiters s') = q_serve f (permits s + n) (wl_abs (waiters s)) \<and>
     permits s' = (if f = Fair then remaining (permits s + n) (parked (wl_abs (waiters s)))
                   else permits s + n)"
proof -
  let ?q = "wl_abs (waiters s)" and ?p = "permits s + n"
  from assms have inv: "wl_inv (waiters s)" "\<not> borrowed (waiters s)" and m: "matches P ?q"
    and c: "unat (permits s) + granted ?q + H + unat n = unat (total_permits s)"
    by (auto simp: sem_ok_def)
  from c unat_usize_less [of "total_permits s"] have no: "unat (permits s) + unat n < 2 ^ 64"
    by linarith
  then have u: "unat ?p = unat (permits s) + unat n" by (rule unat_add_no_wrap)
  from release_permits_serves [OF inv no, of f] obtain wl' where
    r: "release_permits s n f = Inr (s\<lparr>waiters := wl',
        permits := (if f = Fair then remaining ?p (parked ?q) else ?p)\<rparr>)"
      "wl_inv wl'" "\<not> borrowed wl'" "wl_abs wl' = q_serve f ?p ?q"
    by blast
  let ?s' = "s\<lparr>waiters := wl', permits := (if f = Fair then remaining ?p (parked ?q) else ?p)\<rparr>"
  note gs = granted_serve [OF inv(1), of f ?p] and os = offered_serve [OF inv(1) m, of f ?p]
    and ur = unat_remaining [of ?p "parked ?q"]
  have "sem_ok P H ?s'"
    using r(2-4) matches_serve [OF inv(1) m, of f ?p] gs c u ur
    by (cases "f = Fair") (simp_all add: sem_ok_def)
  moreover have "settled P ?s'"
  proof (cases "parked (q_serve f ?p ?q)")
    case Nil
    then show ?thesis using r(4) by (simp add: settled_def)
  next
    case (Cons e es')
    obtain a w k where e: "e = (a, w, k)" by (cases e)
    with Cons rest_does_not_fit [of ?p "parked ?q" a w k es']
    have "unat (remaining ?p (parked ?q)) < unat w" by (simp add: q_serve_def Let_def)
    with Cons e os ur r(4) show ?thesis
      by (cases "f = Fair") (simp_all add: settled_def)
  qed
  ultimately show ?thesis using r(1,4) by auto
qed

end
