(* ===== verification/Semaphore_Ops.thy ===== *)
theory Semaphore_Ops
  imports Semaphore_Spec
begin

text \<open>
  One lemma per operation of the semaphore: its result in a state that satisfies the invariant,
  and that it keeps the invariant and loses no wake-up.
\<close>

section \<open>Taking permits\<close>

lemma sem_okD:
  assumes "sem_ok P H s"
  shows "wl_inv (waiters s)" "\<not> borrowed (waiters s)" "matches P (wl_abs (waiters s))"
    "unat (permits s) + granted (wl_abs (waiters s)) + H = unat (total_permits s)"
  using assms by (auto simp: sem_ok_def)

lemma try_acquire_eq:
  assumes "wl_inv (waiters s)" and "\<not> borrowed (waiters s)"
  shows "try_acquire s n =
     Inr (if parked (wl_abs (waiters s)) = [] then try_acquire_unfair s n else (None, s))"
proof -
  have "is_empty (waiters s\<lparr>borrowed := True\<rparr>) = is_empty (waiters s)"
    by (simp add: is_empty_def)
  moreover have eq: "s\<lparr>waiters := waiters s\<lparr>borrowed := False\<rparr>\<rparr> = s"
    using assms(2) by (cases s; cases "waiters s") simp
  ultimately show ?thesis
    using assms by (simp add: try_acquire_def borrow_free drop_borrowed_def wl.empty_law eq)
qed

lemma take_ok:
  assumes "sem_ok P H s" and "n \<le> permits s"
  shows "try_acquire_unfair s n = (Some (Permit n), s\<lparr>permits := permits s - n\<rparr>)"
    and "sem_ok P (H + unat n) (s\<lparr>permits := permits s - n\<rparr>)"
    and "settled P s \<Longrightarrow> settled P (s\<lparr>permits := permits s - n\<rparr>)"
  using assms unat_sub_no_wrap [OF assms(2)]
  by (auto simp: try_acquire_unfair_def checked_sub_def sem_ok_def settled_def usize_le_iff
      split: list.splits)

lemma refuse_eq: "\<not> n \<le> permits s \<Longrightarrow> try_acquire_unfair s n = (None, s)"
  by (simp add: try_acquire_unfair_def checked_sub_def)

section \<open>The first poll of an acquire future\<close>

lemma first_try_eq:
  assumes "sem_ok P H s"
  shows "first_try kind s n =
     Inr (if kind = UnfairAcquire \<or> parked (wl_abs (waiters s)) = [] then try_acquire_unfair s n
          else (None, s))"
  using assms by (cases kind) (auto simp: try_acquire_eq sem_ok_def)

lemma acquire_loop_takes:
  assumes "sem_ok P H s" and "kind = UnfairAcquire \<or> parked (wl_abs (waiters s)) = []" and "n \<le> permits s"
  shows "acquire_loop kind a n cx s = Inr (Ready (Permit n), s\<lparr>permits := permits s - n\<rparr>)"
  using assms by (simp add: acquire_loop.simps first_try_eq take_ok(1))

lemma acquire_loop_parks:
  assumes "sem_ok P H s" and "P a = None"
    and "\<not> ((kind = UnfairAcquire \<or> parked (wl_abs (waiters s)) = []) \<and> n \<le> permits s)"
  shows "\<exists>wl'. acquire_loop kind a n cx s = Inr (Pending, s\<lparr>waiters := wl'\<rparr>) \<and>
     wl_inv wl' \<and> \<not> borrowed wl' \<and> wl_abs wl' = q_start a n cx (wl_abs (waiters s))"
proof -
  note ok = sem_okD [OF assms(1)]
  have "a \<notin> q_addrs (wl_abs (waiters s))" using ok(3) assms(2) by (auto simp: matches_def)
  with wl.start_law [OF ok(1), of a n cx] ok(2) obtain wl' where
    w: "wait_start a n cx (waiters s) = Inr (Pending, wl')" "wl_inv wl'"
    "wl_abs wl' = q_start a n cx (wl_abs (waiters s))"
    by (auto simp: borrowed_abs)
  moreover have "\<not> borrowed wl'"
    using ok(2) w(3) by (simp add: borrowed_abs [symmetric] q_start_def)
  moreover have "first_try kind s n = Inr (None, s)"
    using assms(3) by (auto simp: first_try_eq [OF assms(1)] refuse_eq)
  ultimately show ?thesis by (auto simp: acquire_loop.simps)
qed

lemma park_ok:
  assumes "sem_ok P H s" and "P a = None" and "wl_inv wl'" and "\<not> borrowed wl'"
    and "wl_abs wl' = q_start a n cx (wl_abs (waiters s))"
  shows "sem_ok (P(a \<mapsto> (kind, n))) H (s\<lparr>waiters := wl'\<rparr>)"
proof -
  note ok = sem_okD [OF assms(1)]
  have "matches (P(a \<mapsto> (kind, n))) (wl_abs wl')"
    using ok(3) assms(2,5) by (fastforce simp: matches_def q_addrs_def q_start_def)
  with ok(4) assms(3-5) show ?thesis by (simp add: sem_ok_def granted_def q_start_def)
qed

lemma park_settled:
  assumes "sem_ok P H s" and "P a = None" and "settled P s"
    and "wl_abs wl' = q_start a n cx (wl_abs (waiters s))"
    and "parked (wl_abs (waiters s)) = [] \<Longrightarrow> \<not> n \<le> permits s"
  shows "settled (P(a \<mapsto> (kind, n))) (s\<lparr>waiters := wl'\<rparr>)"
proof -
  have "offered (P(a \<mapsto> (kind, n))) (wl_abs wl') = offered P (wl_abs (waiters s))"
    unfolding offered_def assms(4)
  proof (rule sum_over_cong)
    fix b h assume "released (wl_abs (waiters s)) b = Some h"
    then have "b \<in> dom P" using sem_okD(3) [OF assms(1)] by (auto simp: matches_def q_addrs_def)
    then show "offer_weight (P(a \<mapsto> (kind, n))) b h = offer_weight P b h"
      using assms(2) by (auto simp: offer_weight_def requested_def split: wake_up.split)
  qed (simp add: q_start_def)
  with assms(3-5) show ?thesis
    by (cases "parked (wl_abs (waiters s))")
      (auto simp: settled_def q_start_def usize_le_iff)
qed

lemma acquire_loop_ok:
  assumes "sem_ok P H s" and "P a = None"
  shows "\<exists>r s'. acquire_loop kind a n cx s = Inr (r, s') \<and>
     total_permits s' = total_permits s \<and>
     (case r of
        Ready g \<Rightarrow> g = Permit n \<and> sem_ok P (H + unat n) s' \<and> (settled P s \<longrightarrow> settled P s')
      | Pending \<Rightarrow> sem_ok (P(a \<mapsto> (kind, n))) H s' \<and>
          (settled P s \<longrightarrow> settled (P(a \<mapsto> (kind, n))) s'))"
proof (cases "(kind = UnfairAcquire \<or> parked (wl_abs (waiters s)) = []) \<and> n \<le> permits s")
  case True
  with acquire_loop_takes [OF assms(1)] take_ok [OF assms(1), of n] show ?thesis by simp
next
  case False
  from acquire_loop_parks [OF assms False] obtain wl' where
    "acquire_loop kind a n cx s = Inr (Pending, s\<lparr>waiters := wl'\<rparr>)"
    "wl_inv wl'" "\<not> borrowed wl'" "wl_abs wl' = q_start a n cx (wl_abs (waiters s))"
    by blast
  with park_ok [OF assms, of wl' n cx kind] park_settled [OF assms, of wl' n cx kind] False
  show ?thesis by auto
qed

section \<open>A woken waiter leaves\<close>

lemma remove_released:
  assumes "wl_inv l" and "matches P (wl_abs l)" and "released (wl_abs l) a = Some h"
    and "q = wl_abs l\<lparr>released := (released (wl_abs l))(a := None)\<rparr>"
  shows "matches (P(a := None)) q"
    and "granted (wl_abs l) = granted q + grant_weight a h"
    and "offered P (wl_abs l) = offered (P(a := None)) q + offer_weight P a h"
proof -
  have a: "a \<notin> fst ` set (parked (wl_abs l))"
    using wl.disjoint_law [OF assms(1)] assms(3) by force
  then have b: "b \<noteq> a" if "(b, w, k) \<in> set (parked (wl_abs l))" for b w k
    using that by force
  have "q_addrs q = q_addrs (wl_abs l) - {a}"
    using a assms(4) by (auto simp: q_addrs_def)
  with assms(2,4) b show "matches (P(a := None)) q"
    by (auto simp: matches_def)
  note rm = sum_over_remove [OF finite_released [OF assms(1)] assms(3)]
  show "granted (wl_abs l) = granted q + grant_weight a h"
    using assms(4) rm by (simp add: granted_def)
  have "sum_over (offer_weight P) ((released (wl_abs l))(a := None)) =
      sum_over (offer_weight (P(a := None))) ((released (wl_abs l))(a := None))"
    by (rule sum_over_cong) (auto simp: offer_weight_def requested_def split: if_splits wake_up.split)
  then show "offered P (wl_abs l) = offered (P(a := None)) q + offer_weight P a h"
    using assms(4) rm [of "offer_weight P"] by (simp add: offered_def)
qed

lemma leave_ok:
  assumes "sem_ok P H s" and "released (wl_abs (waiters s)) a = Some h"
    and "wl_inv wl'" and "wl_abs wl' = wl_abs (waiters s)\<lparr>released := (released (wl_abs (waiters s)))(a := None)\<rparr>"
  shows "sem_ok (P(a := None)) (H + grant_weight a h) (s\<lparr>waiters := wl'\<rparr>)"
proof -
  note ok = sem_okD [OF assms(1)]
  have "\<not> borrowed wl'" using ok(2) assms(4) by (simp add: borrowed_abs [symmetric])
  with remove_released [OF ok(1,3) assms(2,4)] ok(4) assms(3)
  show ?thesis by (simp add: sem_ok_def)
qed

lemma leave_settled:
  assumes "sem_ok P H s" and "released (wl_abs (waiters s)) a = Some h" and "settled P s"
    and "wl_abs wl' = wl_abs (waiters s)\<lparr>released := (released (wl_abs (waiters s)))(a := None)\<rparr>"
    and "unat p + offer_weight P a h \<le> unat (permits s)"
  shows "settled (P(a := None)) (s\<lparr>waiters := wl', permits := p\<rparr>)"
  using remove_released(3) [OF sem_okD(1,3) [OF assms(1)] assms(2,4)] assms(3-5)
  by (auto simp: settled_def split: list.splits)

section \<open>Later polls\<close>

lemma matches_parked:
  "matches P q \<Longrightarrow> (b, w, k) \<in> set (parked q) \<Longrightarrow> \<exists>kind. P b = Some (kind, w)"
  by (auto simp: matches_def)

lemma matches_fst:
  assumes "matches P q" and "P a = Some (kind, n)" and "released q a = None"
  obtains k where "(a, n, k) \<in> set (parked q)"
proof -
  from assms have "a \<in> fst ` set (parked q)" by (auto simp: matches_def q_addrs_def)
  then obtain w k where "(a, w, k) \<in> set (parked q)" by auto
  with assms that show thesis by (force simp: matches_def)
qed

lemma resume_parked:
  assumes "sem_ok P H s" and "P a = Some (kind, n)" and "released (wl_abs (waiters s)) a = None"
  shows "\<exists>wl'. acquire_resume kind a n cx s = Inr (Pending, s\<lparr>waiters := wl'\<rparr>) \<and>
     sem_ok P H (s\<lparr>waiters := wl'\<rparr>) \<and> (settled P s \<longrightarrow> settled P (s\<lparr>waiters := wl'\<rparr>)) \<and>
     wl_abs wl' = snd (q_resume a cx (wl_abs (waiters s)))"
proof -
  note ok = sem_okD [OF assms(1)]
  let ?q = "wl_abs (waiters s)"
  have "a \<in> q_addrs ?q" using ok(3) assms(2) by (auto simp: matches_def)
  with wl.resume_law [OF ok(1), of a cx] ok(2) assms(3) obtain wl' where
    w: "wait_resume a cx (waiters s) = Inr (Pending, wl')" "wl_inv wl'" "wl_abs wl' = snd (q_resume a cx ?q)"
    by (auto simp: borrowed_abs q_resume_def)
  have q: "wl_abs wl' = ?q\<lparr>parked := map (\<lambda>(b, i, k). (b, i, if b = a then cx else k)) (parked ?q)\<rparr>"
    using w(3) assms(3) by (simp add: q_resume_def)
  have "fst ` set (parked (wl_abs wl')) = fst ` set (parked ?q)"
    by (force simp: q image_image)
  then have "matches P (wl_abs wl')"
    using ok(3) by (auto simp: matches_def q_addrs_def q)
  moreover have "\<not> borrowed wl'" using ok(2) q by (simp add: borrowed_abs [symmetric])
  ultimately have "sem_ok P H (s\<lparr>waiters := wl'\<rparr>)"
    using ok(4) w(2) by (simp add: sem_ok_def q granted_def)
  moreover have "settled P s \<longrightarrow> settled P (s\<lparr>waiters := wl'\<rparr>)"
    by (auto simp: settled_def q offered_def split: list.splits)
  ultimately show ?thesis using w(1,3) by (auto simp: acquire_resume_def)
qed

lemma resume_released:
  assumes "sem_ok P H s" and "released (wl_abs (waiters s)) a = Some h"
  shows "\<exists>wl'. wait_resume a cx (waiters s) = Inr (Ready h, wl') \<and> wl_inv wl' \<and>
     wl_abs wl' = wl_abs (waiters s)\<lparr>released := (released (wl_abs (waiters s)))(a := None)\<rparr>"
  using wl.resume_law [OF sem_okD(1) [OF assms(1)], of a cx] sem_okD(2) [OF assms(1)] assms(2)
  by (auto simp: borrowed_abs q_resume_def q_addrs_def)

lemma acquire_woken_ok:
  assumes "sem_ok P H s" and "P a = Some (kind, n)" and "released (wl_abs (waiters s)) a = Some h"
    and "wl_inv wl'" and "wl_abs wl' = wl_abs (waiters s)\<lparr>released := (released (wl_abs (waiters s)))(a := None)\<rparr>"
  shows "\<exists>r s'. acquire_woken n h (s\<lparr>waiters := wl'\<rparr>) = Inr (r, s') \<and>
     total_permits s' = total_permits s \<and>
     (case r of
        Some g \<Rightarrow> g = Permit n \<and> sem_ok (P(a := None)) (H + unat n) s' \<and>
          (settled P s \<longrightarrow> settled (P(a := None)) s')
      | None \<Rightarrow> sem_ok (P(a := None)) H s' \<and> settled (P(a := None)) s')"
proof -
  let ?P = "P(a := None)" and ?s = "s\<lparr>waiters := wl'\<rparr>"
  note leave = leave_ok [OF assms(1,3-5)] and ls = leave_settled [OF assms(1,3) _ assms(5)]
  show ?thesis
  proof (cases h)
    case (WakeFair g)
    with assms(1-3) have g: "grant_permits g = n" by (force simp: sem_ok_def matches_def)
    have "settled P s \<longrightarrow> settled ?P ?s"
      using ls [of "permits s"] WakeFair by (cases s) (simp add: offer_weight_def)
    with leave WakeFair g show ?thesis by (simp add: grant_weight_def)
  next
    case (WakeUnfair t)
    then have ok: "sem_ok ?P H ?s" using leave by (simp add: grant_weight_def)
    show ?thesis
    proof (cases "n \<le> permits s")
      case True
      have "settled P s \<longrightarrow> settled ?P (?s\<lparr>permits := permits s - n\<rparr>)"
        using ls [of "permits s - n"] WakeUnfair True assms(2) unat_sub_no_wrap [OF True]
        by (simp add: offer_weight_def requested_def usize_le_iff)
      with take_ok [OF ok, of n] True WakeUnfair show ?thesis by simp
    next
      case False
      from release_ok [of ?P H 0 ?s Unfair] ok obtain s' where
        "release_permits ?s 0 Unfair = Inr s'" "sem_ok ?P H s'" "settled ?P s'"
        "total_permits s' = total_permits s"
        by auto
      with False WakeUnfair show ?thesis
        by (simp add: refuse_eq unfair_woken_drop_def)
    qed
  qed
qed

lemma acquire_resume_ok:
  assumes "sem_ok P H s" and "P a = Some (kind, n)"
  shows "\<exists>r s'. acquire_resume kind a n cx s = Inr (r, s') \<and> total_permits s' = total_permits s \<and>
     (case r of
        Ready g \<Rightarrow> g = Permit n \<and> sem_ok (P(a := None)) (H + unat n) s' \<and>
          (settled P s \<longrightarrow> settled (P(a := None)) s')
      | Pending \<Rightarrow> sem_ok P H s' \<and> (settled P s \<longrightarrow> settled P s'))"
proof (cases "released (wl_abs (waiters s)) a")
  case None
  from resume_parked [OF assms None, of cx] show ?thesis by force
next
  case (Some h)
  from resume_released [OF assms(1) Some, of cx] obtain wl' where
    w: "wait_resume a cx (waiters s) = Inr (Ready h, wl')" "wl_inv wl'"
    "wl_abs wl' = wl_abs (waiters s)\<lparr>released := (released (wl_abs (waiters s)))(a := None)\<rparr>"
    by blast
  from acquire_woken_ok [OF assms Some w(2,3)] obtain g s1 where
    1: "acquire_woken n h (s\<lparr>waiters := wl'\<rparr>) = Inr (g, s1)" "total_permits s1 = total_permits s"
    and g: "case g of
        Some g \<Rightarrow> g = Permit n \<and> sem_ok (P(a := None)) (H + unat n) s1 \<and>
          (settled P s \<longrightarrow> settled (P(a := None)) s1)
      | None \<Rightarrow> sem_ok (P(a := None)) H s1 \<and> settled (P(a := None)) s1"
    by blast
  show ?thesis
  proof (cases g)
    case (Some g')
    with w(1) 1 g show ?thesis by (simp add: acquire_resume_def)
  next
    case None
    with g have s1: "sem_ok (P(a := None)) H s1" "settled (P(a := None)) s1" by auto
    have "P(a \<mapsto> (kind, n)) = P" using assms(2) by auto
    with acquire_loop_ok [OF s1(1), of a kind n cx] s1(2) w(1) 1 None show ?thesis
      by (auto simp: acquire_resume_def split: poll.splits)
  qed
qed

section \<open>Dropping a suspended future\<close>

lemma drop_released_ok:
  assumes "sem_ok P H s" and "released (wl_abs (waiters s)) a = Some h"
  shows "\<exists>s'. acquire_drop a s = Inr s' \<and> total_permits s' = total_permits s \<and>
     sem_ok (P(a := None)) H s' \<and> settled (P(a := None)) s'"
proof -
  note ok = sem_okD [OF assms(1)]
  have "filter (\<lambda>e. fst e \<noteq> a) (parked (wl_abs (waiters s))) = parked (wl_abs (waiters s))"
    using wl.disjoint_law [OF ok(1)] assms(2) by (intro filter_fst_neq) force
  with wl.cancel_released_law [OF ok(1), of a h] ok(2) assms(2) obtain wl' where
    w: "wait_cancel a (waiters s) = Inr (Output h, wl')" "wl_inv wl'"
    "wl_abs wl' = wl_abs (waiters s)\<lparr>released := (released (wl_abs (waiters s)))(a := None)\<rparr>"
    by (auto simp: borrowed_abs q_cancel_def)
  have l: "sem_ok (P(a := None)) (H + grant_weight a h) (s\<lparr>waiters := wl'\<rparr>)"
    by (rule leave_ok [OF assms w(2,3)])
  show ?thesis
  proof (cases h)
    case (WakeUnfair t)
    with l release_ok [of "P(a := None)" H 0 "s\<lparr>waiters := wl'\<rparr>" Unfair] w(1) show ?thesis
      by (auto simp: acquire_drop_def grant_weight_def unfair_woken_drop_def)
  next
    case (WakeFair g)
    with l release_ok [of "P(a := None)" H "grant_permits g" "s\<lparr>waiters := wl'\<rparr>" Unfair] w(1)
    show ?thesis by (auto simp: acquire_drop_def grant_weight_def fair_grant_drop_def)
  qed
qed

lemma drop_parked_ok:
  assumes "sem_ok P H s" and "parked (wl_abs (waiters s)) = xs @ (a, n, k) # ys"
  shows "\<exists>wl'. acquire_drop a s = Inr (s\<lparr>waiters := wl'\<rparr>) \<and>
     sem_ok (P(a := None)) H (s\<lparr>waiters := wl'\<rparr>) \<and>
     wl_abs wl' = wl_abs (waiters s)\<lparr>parked := xs @ ys\<rparr>"
proof -
  note ok = sem_okD [OF assms(1)]
  let ?q = "wl_abs (waiters s)"
  have "a \<notin> fst ` set (xs @ ys)" using wl.distinct_law [OF ok(1)] assms(2) by auto
  moreover have r: "released ?q a = None"
    using wl.disjoint_law [OF ok(1), of "(a, n, k)"] assms(2) by simp
  moreover have "(released ?q)(a := None) = released ?q" using r by (simp add: fun_upd_idem)
  ultimately have q: "q_cancel a ?q = ?q\<lparr>parked := xs @ ys\<rparr>"
    using assms(2) by (simp add: q_cancel_def filter_fst_neq image_Un)
  with wl.cancel_parked_law [OF ok(1), of a n k] ok(2) assms(2) obtain wl' where
    w: "wait_cancel a (waiters s) = Inr (Input n, wl')" "wl_inv wl'" "wl_abs wl' = ?q\<lparr>parked := xs @ ys\<rparr>"
    by (auto simp: borrowed_abs)
  have "q_addrs (wl_abs wl') = q_addrs ?q - {a}"
    using w(3) assms(2) \<open>a \<notin> fst ` set (xs @ ys)\<close> r by (auto simp: q_addrs_def)
  moreover have b: "b \<noteq> a" if "(b, w, k') \<in> set (xs @ ys)" for b w k'
    using that \<open>a \<notin> fst ` set (xs @ ys)\<close> by force
  have "\<forall>(b, w, k) \<in> set (xs @ ys). \<exists>kind. (P(a := None)) b = Some (kind, w)"
  proof (clarify)
    fix b w k' assume m: "(b, w, k') \<in> set (xs @ ys)"
    then have "(b, w, k') \<in> set (parked ?q)" using assms(2) by auto
    from matches_parked [OF ok(3) this] b [OF m] show "\<exists>kind. (P(a := None)) b = Some (kind, w)" by simp
  qed
  ultimately have "matches (P(a := None)) (wl_abs wl')"
    using ok(3) w(3) r by (auto simp: matches_def)
  moreover have "\<not> borrowed wl'" using ok(2) w(3) by (simp add: borrowed_abs [symmetric])
  ultimately have "sem_ok (P(a := None)) H (s\<lparr>waiters := wl'\<rparr>)"
    using ok(4) w(2,3) by (simp add: sem_ok_def granted_def)
  with w show ?thesis by (auto simp: acquire_drop_def)
qed

text \<open>
  A parked waiter that is not at the head of the queue leaves without a trace.
\<close>

lemma drop_parked_settled:
  assumes "sem_ok P H s" and "settled P s" and "parked (wl_abs (waiters s)) = x # xs @ (a, n, k) # ys"
    and "wl_abs wl' = wl_abs (waiters s)\<lparr>parked := x # xs @ ys\<rparr>"
  shows "settled (P(a := None)) (s\<lparr>waiters := wl'\<rparr>)"
proof -
  have "released (wl_abs (waiters s)) a = None"
    using wl.disjoint_law [OF sem_okD(1) [OF assms(1)], of "(a, n, k)"] assms(3) by simp
  then have "offered (P(a := None)) (wl_abs wl') = offered P (wl_abs (waiters s))"
    unfolding offered_def assms(4)
    by (intro sum_over_cong) (auto simp: offer_weight_def requested_def split: wake_up.split if_splits)
  with assms(2-4) show ?thesis by (auto simp: settled_def)
qed

end
