(* ===== verification/Semaphore_System.thy ===== *)
theory Semaphore_System
  imports Semaphore_Ops "HOL-Library.Multiset"
begin

text \<open>
  The semaphore with its clients: the suspended acquire futures and the live permit guards.
  Every call of the public API is a step; the properties hold after any sequence of steps.
\<close>

section \<open>The clients and their steps\<close>

record sem_sys =
  sem :: semaphore
  acquiring :: clients
  guards :: "permit multiset"

datatype sem_op =
    TryAcquire usize
  | TryAcquireUnfair usize
  | Acquire acquire_kind addr usize waker
  | PollAcquire addr waker
  | DropAcquire addr
  | DropPermit permit
  | ReleaseFair permit
  | Leak permit
  | AddPermits usize
  | AddPermitsFair usize

text \<open>
  What ownership allows: a new future has an address of its own, only suspended futures are
  polled again or dropped, and a guard is given up once.
\<close>

fun sem_enabled :: "sem_op \<Rightarrow> sem_sys \<Rightarrow> bool" where
  "sem_enabled (Acquire kind a n cx) S = (acquiring S a = None)"
| "sem_enabled (PollAcquire a cx) S = (acquiring S a \<noteq> None)"
| "sem_enabled (DropAcquire a) S = (acquiring S a \<noteq> None)"
| "sem_enabled (DropPermit g) S = (g \<in># guards S)"
| "sem_enabled (ReleaseFair g) S = (g \<in># guards S)"
| "sem_enabled (Leak g) S = (g \<in># guards S)"
| "sem_enabled _ S = True"

definition keep_guard :: "permit option \<Rightarrow> semaphore \<Rightarrow> sem_sys \<Rightarrow> sem_sys" where
  "keep_guard g s S =
     (case g of None \<Rightarrow> S\<lparr>sem := s\<rparr> | Some g \<Rightarrow> S\<lparr>sem := s, guards := add_mset g (guards S)\<rparr>)"

definition keep_future ::
  "addr \<Rightarrow> acquire_kind \<times> usize \<Rightarrow> permit poll \<Rightarrow> semaphore \<Rightarrow> sem_sys \<Rightarrow> sem_sys" where
  "keep_future a c r s S =
     (case r of
        Ready g \<Rightarrow> S\<lparr>sem := s, acquiring := (acquiring S)(a := None), guards := add_mset g (guards S)\<rparr>
      | Pending \<Rightarrow> S\<lparr>sem := s, acquiring := (acquiring S)(a \<mapsto> c)\<rparr>)"

definition first_poll ::
  "acquire_kind \<Rightarrow> addr \<Rightarrow> usize \<Rightarrow> waker \<Rightarrow> semaphore \<Rightarrow> (permit poll \<times> semaphore) res" where
  "first_poll kind a n cx s =
     (case kind of FairAcquire \<Rightarrow> acquire a n cx s | UnfairAcquire \<Rightarrow> acquire_unfair a n cx s)"

lemma first_poll_loop: "first_poll kind a n cx s = acquire_loop kind a n cx s"
  by (cases kind) (simp_all add: first_poll_def acquire_def acquire_unfair_def)

fun sem_exec :: "sem_op \<Rightarrow> sem_sys \<Rightarrow> sem_sys res" where
  "sem_exec (TryAcquire n) S = and_then (try_acquire (sem S) n) (\<lambda>(g, s). Inr (keep_guard g s S))"
| "sem_exec (TryAcquireUnfair n) S = (case try_acquire_unfair (sem S) n of (g, s) \<Rightarrow> Inr (keep_guard g s S))"
| "sem_exec (Acquire kind a n cx) S =
     and_then (first_poll kind a n cx (sem S)) (\<lambda>(r, s). Inr (keep_future a (kind, n) r s S))"
| "sem_exec (PollAcquire a cx) S =
     (case acquiring S a of
        None \<Rightarrow> Inr S
      | Some (kind, n) \<Rightarrow>
          and_then (acquire_resume kind a n cx (sem S)) (\<lambda>(r, s). Inr (keep_future a (kind, n) r s S)))"
| "sem_exec (DropAcquire a) S =
     and_then (acquire_drop a (sem S)) (\<lambda>s. Inr (S\<lparr>sem := s, acquiring := (acquiring S)(a := None)\<rparr>))"
| "sem_exec (DropPermit g) S =
     and_then (permit_drop g (sem S)) (\<lambda>s. Inr (S\<lparr>sem := s, guards := guards S - {#g#}\<rparr>))"
| "sem_exec (ReleaseFair g) S =
     and_then (release_fair g (sem S)) (\<lambda>s. Inr (S\<lparr>sem := s, guards := guards S - {#g#}\<rparr>))"
| "sem_exec (Leak g) S =
     and_then (leak g (sem S)) (\<lambda>s. Inr (S\<lparr>sem := s, guards := guards S - {#g#}\<rparr>))"
| "sem_exec (AddPermits n) S = and_then (add_permits (sem S) n) (\<lambda>s. Inr (S\<lparr>sem := s\<rparr>))"
| "sem_exec (AddPermitsFair n) S = and_then (add_permits_fair (sem S) n) (\<lambda>s. Inr (S\<lparr>sem := s\<rparr>))"

definition sem_start :: "sem_sys \<Rightarrow> bool" where
  "sem_start S \<longleftrightarrow> acquiring S = Map.empty \<and> guards S = {#} \<and> (\<exists>n. sem S = semaphore_new n)"

inductive sem_step :: "sem_sys \<Rightarrow> sem_sys \<Rightarrow> bool" where
  sem_call: "sem_enabled op S \<Longrightarrow> sem_exec op S = Inr S' \<Longrightarrow> sem_step S S'"

inductive_cases sem_stepE: "sem_step S S'"

abbreviation queue :: "sem_sys \<Rightarrow> (usize, wake_up) wait_queue" where
  "queue S \<equiv> wl_abs (waiters (sem S))"

text \<open>
  The step that can lose a wake-up: dropping the future parked at the head of the queue.
\<close>

definition drops_head :: "sem_op \<Rightarrow> sem_sys \<Rightarrow> bool" where
  "drops_head op S \<longleftrightarrow>
     (case parked (queue S) of [] \<Rightarrow> False | (a, w, k) # es \<Rightarrow> op = DropAcquire a)"

inductive sem_keeping_step :: "sem_sys \<Rightarrow> sem_sys \<Rightarrow> bool" where
  sem_keeping_call: "sem_enabled op S \<Longrightarrow> \<not> drops_head op S \<Longrightarrow> sem_exec op S = Inr S' \<Longrightarrow>
    sem_keeping_step S S'"

inductive_cases sem_keeping_stepE: "sem_keeping_step S S'"

section \<open>Every step keeps the invariant\<close>

definition held :: "sem_sys \<Rightarrow> nat" where
  "held S = (\<Sum>g\<in>#guards S. unat (held_permits g))"

definition sys_ok :: "sem_sys \<Rightarrow> bool" where
  "sys_ok S \<longleftrightarrow> sem_ok (acquiring S) (held S) (sem S)"

definition sys_settled :: "sem_sys \<Rightarrow> bool" where
  "sys_settled S \<longleftrightarrow> settled (acquiring S) (sem S)"

text \<open>What a step may do: complete and keep both conditions.\<close>

definition completes :: "sem_op \<Rightarrow> sem_sys \<Rightarrow> bool" where
  "completes op S \<longleftrightarrow> (\<exists>S'. sem_exec op S = Inr S' \<and> sys_ok S' \<and>
     (sys_settled S \<and> \<not> drops_head op S \<longrightarrow> sys_settled S'))"

lemma held_add: "held (S\<lparr>sem := s, acquiring := P, guards := add_mset g (guards S)\<rparr>) = held S + unat (held_permits g)"
  by (simp add: held_def)

lemma held_remove: "g \<in># guards S \<Longrightarrow> held S = held (S\<lparr>guards := guards S - {#g#}\<rparr>) + unat (held_permits g)"
  by (auto simp: held_def dest!: multi_member_split)

lemma take_completes:
  assumes "sys_ok S" and "sem_exec op S = Inr (case try_acquire_unfair (sem S) n of (g, s) \<Rightarrow> keep_guard g s S)"
  shows "completes op S"
proof (cases "n \<le> permits (sem S)")
  case True
  from assms(1) have "sem_ok (acquiring S) (held S) (sem S)" by (simp add: sys_ok_def)
  note t = take_ok [OF this True]
  with assms(2) show ?thesis
    by (simp add: completes_def keep_guard_def sys_ok_def sys_settled_def held_def add.commute)
next
  case False
  with assms show ?thesis by (cases S) (simp add: completes_def keep_guard_def refuse_eq)
qed

lemma try_completes: "sys_ok S \<Longrightarrow> completes (TryAcquire n) S"
proof (cases "parked (queue S) = []")
  case True
  assume "sys_ok S"
  moreover from this True have "sem_exec (TryAcquire n) S =
      Inr (case try_acquire_unfair (sem S) n of (g, s) \<Rightarrow> keep_guard g s S)"
    by (auto simp: sys_ok_def sem_ok_def try_acquire_eq split: prod.split)
  ultimately show ?thesis by (rule take_completes)
next
  case False
  assume "sys_ok S"
  moreover from this False have "sem_exec (TryAcquire n) S = Inr S"
    by (cases S) (auto simp: sys_ok_def sem_ok_def try_acquire_eq keep_guard_def)
  ultimately show ?thesis by (simp add: completes_def)
qed

lemma future_completes:
  assumes "sys_ok S" and "sem_exec op S = Inr (keep_future a (kind, n) r s S)"
    and "total_permits s = total_permits (sem S)"
    and "case r of
        Ready g \<Rightarrow> g = Permit n \<and> sem_ok ((acquiring S)(a := None)) (held S + unat n) s \<and>
          (sys_settled S \<longrightarrow> settled ((acquiring S)(a := None)) s)
      | Pending \<Rightarrow> sem_ok ((acquiring S)(a \<mapsto> (kind, n))) (held S) s \<and>
          (sys_settled S \<longrightarrow> settled ((acquiring S)(a \<mapsto> (kind, n))) s)"
  shows "completes op S"
  using assms
  by (cases r)
    (auto simp: completes_def keep_future_def sys_ok_def sys_settled_def held_def add.commute)

lemma acquire_completes:
  assumes "sys_ok S" and "acquiring S a = None"
  shows "completes (Acquire kind a n cx) S"
proof -
  from assms(1) have ok: "sem_ok (acquiring S) (held S) (sem S)" by (simp add: sys_ok_def)
  have P: "(acquiring S)(a := None) = acquiring S" using assms(2) by (simp add: fun_upd_idem)
  from acquire_loop_ok [OF ok assms(2), of kind n cx] obtain r s where
    r: "acquire_loop kind a n cx (sem S) = Inr (r, s)" "total_permits s = total_permits (sem S)"
    and c: "case r of
        Ready g \<Rightarrow> g = Permit n \<and> sem_ok (acquiring S) (held S + unat n) s \<and>
          (settled (acquiring S) (sem S) \<longrightarrow> settled (acquiring S) s)
      | Pending \<Rightarrow> sem_ok ((acquiring S)(a \<mapsto> (kind, n))) (held S) s \<and>
          (settled (acquiring S) (sem S) \<longrightarrow> settled ((acquiring S)(a \<mapsto> (kind, n))) s)"
    by blast
  have e: "sem_exec (Acquire kind a n cx) S = Inr (keep_future a (kind, n) r s S)"
    using r(1) by (simp add: first_poll_loop)
  show ?thesis
    by (rule future_completes [OF assms(1) e r(2)]) (use c P in \<open>cases r; simp add: sys_settled_def\<close>)
qed

lemma poll_completes:
  assumes "sys_ok S" and "acquiring S a = Some (kind, n)"
  shows "completes (PollAcquire a cx) S"
proof -
  from assms(1) have ok: "sem_ok (acquiring S) (held S) (sem S)" by (simp add: sys_ok_def)
  have P: "(acquiring S)(a \<mapsto> (kind, n)) = acquiring S" using assms(2) by auto
  from acquire_resume_ok [OF ok assms(2), of cx] obtain r s where
    r: "acquire_resume kind a n cx (sem S) = Inr (r, s)" "total_permits s = total_permits (sem S)"
    and c: "case r of
        Ready g \<Rightarrow> g = Permit n \<and> sem_ok ((acquiring S)(a := None)) (held S + unat n) s \<and>
          (settled (acquiring S) (sem S) \<longrightarrow> settled ((acquiring S)(a := None)) s)
      | Pending \<Rightarrow> sem_ok (acquiring S) (held S) s \<and>
          (settled (acquiring S) (sem S) \<longrightarrow> settled (acquiring S) s)"
    by blast
  have e: "sem_exec (PollAcquire a cx) S = Inr (keep_future a (kind, n) r s S)"
    using r(1) assms(2) by simp
  show ?thesis
    by (rule future_completes [OF assms(1) e r(2)]) (use c P in \<open>cases r; simp add: sys_settled_def\<close>)
qed

text \<open>Every suspended future is parked or holds a wake-up value.\<close>

lemma suspended_cases:
  assumes "sem_ok P H s" and "P a \<noteq> None"
  obtains (parked) xs n k ys where "parked (wl_abs (waiters s)) = xs @ (a, n, k) # ys"
  | (released) h where "released (wl_abs (waiters s)) a = Some h"
proof (cases "released (wl_abs (waiters s)) a")
  case None
  from assms(2) obtain kind n where P: "P a = Some (kind, n)" by auto
  from matches_fst [OF sem_okD(3) [OF assms(1)] P None] obtain k where
    "(a, n, k) \<in> set (parked (wl_abs (waiters s)))" .
  then show thesis using parked by (auto dest!: split_list)
qed (rule released)

lemma drop_completes:
  assumes "sys_ok S" and "acquiring S a \<noteq> None"
  shows "completes (DropAcquire a) S"
proof -
  from assms(1) have ok: "sem_ok (acquiring S) (held S) (sem S)" by (simp add: sys_ok_def)
  from ok assms(2) show ?thesis
  proof (cases rule: suspended_cases)
    case (released h)
    from drop_released_ok [OF ok released] show ?thesis
      by (auto simp: completes_def sys_ok_def sys_settled_def held_def)
  next
    case (parked xs n k ys)
    from drop_parked_ok [OF ok parked] obtain wl' where
      w: "acquire_drop a (sem S) = Inr (sem S\<lparr>waiters := wl'\<rparr>)"
      "sem_ok ((acquiring S)(a := None)) (held S) (sem S\<lparr>waiters := wl'\<rparr>)"
      "wl_abs wl' = queue S\<lparr>parked := xs @ ys\<rparr>"
      by blast
    have "sys_settled S \<and> \<not> drops_head (DropAcquire a) S \<longrightarrow>
        settled ((acquiring S)(a := None)) (sem S\<lparr>waiters := wl'\<rparr>)"
    proof (cases xs)
      case Nil
      with parked show ?thesis by (simp add: drops_head_def)
    next
      case (Cons x xs')
      with drop_parked_settled [OF ok, of x xs' a n k ys wl'] parked w(3) show ?thesis
        by (simp add: sys_settled_def)
    qed
    with w show ?thesis by (simp add: completes_def sys_ok_def sys_settled_def held_def)
  qed
qed

lemma release_completes:
  assumes "sys_ok S" and "g \<in># guards S"
    and "sem_exec op S = and_then (release_permits (sem S) (held_permits g) f)
      (\<lambda>s. Inr (S\<lparr>sem := s, guards := guards S - {#g#}\<rparr>))"
  shows "completes op S"
proof -
  have h: "held S = held (S\<lparr>guards := guards S - {#g#}\<rparr>) + unat (held_permits g)"
    using assms(2) by (rule held_remove)
  with assms(1) release_ok [of "acquiring S" "held (S\<lparr>guards := guards S - {#g#}\<rparr>)" "held_permits g" "sem S" f]
    assms(3)
  show ?thesis by (auto simp: completes_def sys_ok_def sys_settled_def held_def)
qed

lemma leak_completes:
  assumes "sys_ok S" and "g \<in># guards S"
  shows "completes (Leak g) S"
proof -
  have h: "held S = held (S\<lparr>guards := guards S - {#g#}\<rparr>) + unat (held_permits g)"
    using assms(2) by (rule held_remove)
  with assms(1) have c: "unat (permits (sem S)) + granted (queue S) + held (S\<lparr>guards := guards S - {#g#}\<rparr>) +
      unat (held_permits g) = unat (total_permits (sem S))"
    by (simp add: sys_ok_def sem_ok_def)
  then have le: "unat (held_permits g) \<le> unat (total_permits (sem S))" by simp
  then have "unat (total_permits (sem S) - held_permits g) =
      unat (total_permits (sem S)) - unat (held_permits g)"
    by (simp add: unat_sub_no_wrap usize_le_iff)
  with c le assms(1) have "sem_ok (acquiring S) (held (S\<lparr>guards := guards S - {#g#}\<rparr>))
      (sem S\<lparr>total_permits := total_permits (sem S) - held_permits g\<rparr>)"
    by (simp add: sys_ok_def sem_ok_def)
  moreover have "settled (acquiring S) (sem S\<lparr>total_permits := total_permits (sem S) - held_permits g\<rparr>) =
      settled (acquiring S) (sem S)"
    by (simp add: settled_def split: list.split)
  ultimately show ?thesis
    using le by (simp add: completes_def leak_def usize_sub_Inr sys_ok_def sys_settled_def held_def)
qed

lemma add_completes:
  assumes "sys_ok S" and "unat (total_permits (sem S)) + unat n < 2 ^ 64"
    and "sem_exec op S = and_then (release_permits (sem S\<lparr>total_permits := total_permits (sem S) + n\<rparr>) n f)
      (\<lambda>s. Inr (S\<lparr>sem := s\<rparr>))"
  shows "completes op S"
proof -
  have "sem_ok (acquiring S) (held S + unat n) (sem S\<lparr>total_permits := total_permits (sem S) + n\<rparr>)"
    using assms(1,2) by (simp add: sys_ok_def sem_ok_def unat_add_no_wrap)
  with release_ok [of "acquiring S" "held S" n _ f] assms(3) show ?thesis
    by (fastforce simp: completes_def sys_ok_def sys_settled_def held_def)
qed

text \<open>
  A call can only fail by adding more permits than a \<open>usize\<close> counts.
\<close>

fun overflows :: "sem_op \<Rightarrow> sem_sys \<Rightarrow> bool" where
  "overflows (AddPermits n) S \<longleftrightarrow> 2 ^ 64 \<le> unat (total_permits (sem S)) + unat n"
| "overflows (AddPermitsFair n) S \<longleftrightarrow> 2 ^ 64 \<le> unat (total_permits (sem S)) + unat n"
| "overflows _ S \<longleftrightarrow> False"

lemma sem_exec_ok:
  assumes "sys_ok S" and "sem_enabled op S" and "\<not> overflows op S"
  shows "completes op S"
proof (cases op)
  case (TryAcquireUnfair n)
  show ?thesis
    by (rule take_completes [OF assms(1), of _ n]) (simp add: TryAcquireUnfair split: prod.split)
next
  case (PollAcquire a cx)
  with assms(2) obtain kind n where "acquiring S a = Some (kind, n)" by auto
  with PollAcquire assms(1) show ?thesis by (simp add: poll_completes del: sem_exec.simps)
next
  case (DropPermit g)
  with assms release_completes [of S g op Unfair] show ?thesis by (simp add: permit_drop_def)
next
  case (ReleaseFair g)
  with assms release_completes [of S g op Fair] show ?thesis by (simp add: release_fair_def)
next
  case (AddPermits n)
  with assms add_completes [of S n op Unfair] show ?thesis by (simp add: add_permits_def checked_add_def)
next
  case (AddPermitsFair n)
  with assms add_completes [of S n op Fair] show ?thesis by (simp add: add_permits_fair_def checked_add_def)
qed (use assms in \<open>auto intro: try_completes acquire_completes drop_completes leak_completes\<close>)

lemma sem_exec_overflow:
  assumes "overflows op S"
  shows "\<exists>msg. sem_exec op S = Inl (Panic msg)"
  using assms by (cases op) (simp_all add: add_permits_def add_permits_fair_def checked_add_def)

lemma sem_exec_keeps:
  assumes "sem_enabled op S" and "sem_exec op S = Inr S'" and "sys_ok S"
  shows "sys_ok S'" and "sys_settled S \<Longrightarrow> \<not> drops_head op S \<Longrightarrow> sys_settled S'"
proof -
  have "\<not> overflows op S" using sem_exec_overflow [of op S] assms(2) by auto
  with sem_exec_ok [OF assms(3,1)] assms(2) show "sys_ok S'"
    and "sys_settled S \<Longrightarrow> \<not> drops_head op S \<Longrightarrow> sys_settled S'"
    by (auto simp: completes_def)
qed

lemma sem_start_ok:
  assumes "sem_start S"
  shows "sys_ok S" and "sys_settled S"
  using assms
  by (auto simp: sem_start_def semaphore_new_def sys_ok_def sys_settled_def sem_ok_def settled_def
      new_refines q_new_def q_addrs_def matches_def granted_def held_def borrowed_abs [symmetric])

interpretation sem_all: inductive_invariant sem_start sem_step sys_ok
  by unfold_locales (auto simp: sem_start_ok elim!: sem_stepE intro: sem_exec_keeps)

interpretation sem_keeping: inductive_invariant sem_start sem_keeping_step "\<lambda>S. sys_ok S \<and> sys_settled S"
  by unfold_locales (auto simp: sem_start_ok elim!: sem_keeping_stepE intro: sem_exec_keeps)

end
