(* ===== verification/Semaphore_Refinement.thy ===== *)
theory Semaphore_Refinement
  imports Semaphore_System "HOL-Library.Sublist"
begin

text \<open>
  The whole public API of the semaphore against its abstract specification: a bank that counts in
  natural numbers, with the line of those who wait, what they were promised, and who was called.  Each
  call is a short equation on it (\<open>bank_call\<close>), and any sequence of calls goes the same way on the
  pointers and machine words of the code and on the bank.
\<close>

section \<open>The specification\<close>

type_synonym line = "(addr \<times> nat \<times> waker) list"

text \<open>
  A gift is what a waiter that was called finds: permits set aside for it (\<open>Some n\<close>), or only the
  chance to ask again (\<open>None\<close>).
\<close>

record bank =
  spare :: nat
  everything :: nat
  line :: line
  gifts :: "addr \<Rightarrow> nat option option"
  called :: "waker list"
  asking :: "addr \<Rightarrow> (acquire_kind \<times> nat) option"
  paid :: "nat multiset"

definition bank_new :: "nat \<Rightarrow> bank" where
  "bank_new n =
     \<lparr>spare = n, everything = n, line = [], gifts = Map.empty, called = [], asking = Map.empty, paid = {#}\<rparr>"

text \<open>The front of the line: those whose requests fit one after the other into \<open>p\<close>.\<close>

fun front :: "nat \<Rightarrow> line \<Rightarrow> line" where
  "front p [] = []"
| "front p ((a, n, k) # es) = (if n \<le> p then (a, n, k) # front (p - n) es else [])"

definition cost :: "line \<Rightarrow> nat" where
  "cost es = (\<Sum>(a, n, k)\<leftarrow>es. n)"

definition give_back :: "fairness \<Rightarrow> nat \<Rightarrow> bank \<Rightarrow> bank" where
  "give_back f n B =
     (let es = front (spare B + n) (line B) in
      B\<lparr>spare := spare B + n - (case f of Fair \<Rightarrow> cost es | Unfair \<Rightarrow> 0),
        line := drop (length es) (line B),
        gifts := gifts B ++ map_of (map (\<lambda>(a, m, k). (a, case f of Fair \<Rightarrow> Some m | Unfair \<Rightarrow> None)) es),
        called := called B @ map (\<lambda>(a, m, k). k) es\<rparr>)"

definition pay :: "nat \<Rightarrow> bank \<Rightarrow> bank" where
  "pay n B = B\<lparr>spare := spare B - n, paid := add_mset n (paid B)\<rparr>"

definition ask :: "acquire_kind \<Rightarrow> addr \<Rightarrow> nat \<Rightarrow> waker \<Rightarrow> bank \<Rightarrow> bank" where
  "ask kind a n cx B =
     (if (kind = UnfairAcquire \<or> line B = []) \<and> n \<le> spare B then pay n B
      else B\<lparr>line := line B @ [(a, n, cx)], asking := (asking B)(a \<mapsto> (kind, n))\<rparr>)"

definition withdraw :: "addr \<Rightarrow> bank \<Rightarrow> bank" where
  "withdraw a B =
     B\<lparr>line := filter (\<lambda>e. fst e \<noteq> a) (line B), gifts := (gifts B)(a := None), asking := (asking B)(a := None)\<rparr>"

definition ask_again :: "addr \<Rightarrow> waker \<Rightarrow> acquire_kind \<Rightarrow> nat \<Rightarrow> bank \<Rightarrow> bank" where
  "ask_again a cx kind n B =
     (case gifts B a of
        None \<Rightarrow> B\<lparr>line := map (\<lambda>(b, m, k). (b, m, if b = a then cx else k)) (line B)\<rparr>
      | Some (Some m) \<Rightarrow> (withdraw a B)\<lparr>paid := add_mset m (paid B)\<rparr>
      | Some None \<Rightarrow>
          if n \<le> spare B then pay n (withdraw a B) else ask kind a n cx (give_back Unfair 0 (withdraw a B)))"

definition walk_away :: "addr \<Rightarrow> bank \<Rightarrow> bank" where
  "walk_away a B =
     (case gifts B a of
        None \<Rightarrow> withdraw a B
      | Some (Some m) \<Rightarrow> give_back Unfair m (withdraw a B)
      | Some None \<Rightarrow> give_back Unfair 0 (withdraw a B))"

definition collect :: "nat \<Rightarrow> bank \<Rightarrow> bank" where
  "collect n B = B\<lparr>paid := paid B - {#n#}\<rparr>"

definition deposit :: "fairness \<Rightarrow> nat \<Rightarrow> bank \<Rightarrow> bank option" where
  "deposit f n B =
     (if everything B + n < 2 ^ 64 then Some (give_back f n (B\<lparr>everything := everything B + n\<rparr>)) else None)"

text \<open>\<open>None\<close>: ownership does not allow the call, or the total would not fit into a \<open>usize\<close>.\<close>

fun bank_call :: "sem_op \<Rightarrow> bank \<Rightarrow> bank option" where
  "bank_call (TryAcquire n) B = Some (if line B = [] \<and> unat n \<le> spare B then pay (unat n) B else B)"
| "bank_call (TryAcquireUnfair n) B = Some (if unat n \<le> spare B then pay (unat n) B else B)"
| "bank_call (Acquire kind a n cx) B = (case asking B a of None \<Rightarrow> Some (ask kind a (unat n) cx B) | Some c \<Rightarrow> None)"
| "bank_call (PollAcquire a cx) B = map_option (\<lambda>(kind, n). ask_again a cx kind n B) (asking B a)"
| "bank_call (DropAcquire a) B = map_option (\<lambda>c. walk_away a B) (asking B a)"
| "bank_call (DropPermit (Permit n)) B =
     (if unat n \<in># paid B then Some (give_back Unfair (unat n) (collect (unat n) B)) else None)"
| "bank_call (ReleaseFair (Permit n)) B =
     (if unat n \<in># paid B then Some (give_back Fair (unat n) (collect (unat n) B)) else None)"
| "bank_call (Leak (Permit n)) B =
     (if unat n \<in># paid B then Some ((collect (unat n) B)\<lparr>everything := everything B - unat n\<rparr>) else None)"
| "bank_call (AddPermits n) B = deposit Unfair (unat n) B"
| "bank_call (AddPermitsFair n) B = deposit Fair (unat n) B"

fun bank_run :: "sem_op list \<Rightarrow> bank \<Rightarrow> bank option" where
  "bank_run [] B = Some B"
| "bank_run (op # ops) B = Option.bind (bank_call op B) (bank_run ops)"

text \<open>The same for the code.\<close>

definition sem_reply :: "sem_op \<Rightarrow> sem_sys \<Rightarrow> sem_sys option" where
  "sem_reply op S = (if sem_enabled op S then (case sem_exec op S of Inl _ \<Rightarrow> None | Inr S \<Rightarrow> Some S) else None)"

fun sem_run :: "sem_op list \<Rightarrow> sem_sys \<Rightarrow> sem_sys option" where
  "sem_run [] S = Some S"
| "sem_run (op # ops) S = Option.bind (sem_reply op S) (sem_run ops)"

section \<open>What the code represents\<close>

fun gift :: "wake_up \<Rightarrow> nat option" where
  "gift (WakeFair g) = Some (unat (grant_permits g))"
| "gift (WakeUnfair token) = None"

definition line_of :: "(addr \<times> usize \<times> waker) list \<Rightarrow> line" where
  "line_of es = map (\<lambda>(a, n, k). (a, unat n, k)) es"

definition bank_at :: "semaphore \<Rightarrow> clients \<Rightarrow> permit multiset \<Rightarrow> bank" where
  "bank_at s P G =
     \<lparr>spare = unat (permits s), everything = unat (total_permits s),
      line = line_of (parked (wl_abs (waiters s))),
      gifts = (\<lambda>a. map_option gift (released (wl_abs (waiters s)) a)),
      called = q_woken (wl_abs (waiters s)),
      asking = (\<lambda>a. map_option (\<lambda>(kind, n). (kind, unat n)) (P a)),
      paid = image_mset (\<lambda>g. unat (held_permits g)) G\<rparr>"

definition bank_of :: "sem_sys \<Rightarrow> bank" where
  "bank_of S = bank_at (sem S) (acquiring S) (guards S)"

lemma bank_at_simps [simp]:
  "spare (bank_at s P G) = unat (permits s)" "everything (bank_at s P G) = unat (total_permits s)"
  "line (bank_at s P G) = line_of (parked (wl_abs (waiters s)))"
  "gifts (bank_at s P G) a = map_option gift (released (wl_abs (waiters s)) a)"
  "called (bank_at s P G) = q_woken (wl_abs (waiters s))"
  "asking (bank_at s P G) a = map_option (\<lambda>(kind, n). (kind, unat n)) (P a)"
  "paid (bank_at s P G) = image_mset (\<lambda>g. unat (held_permits g)) G"
  by (simp_all add: bank_at_def)

lemma bank_eqI:
  fixes B C :: bank
  assumes "spare B = spare C" and "everything B = everything C" and "line B = line C"
    and "\<And>a. gifts B a = gifts C a" and "called B = called C" and "\<And>a. asking B a = asking C a" and "paid B = paid C"
  shows "B = C"
  using assms by (cases B; cases C) (simp add: fun_eq_iff)

lemma line_of_simps [simp]:
  "line_of [] = []" "line_of ((a, n, k) # es) = (a, unat n, k) # line_of es" "line_of (es @ fs) = line_of es @ line_of fs"
  "line_of es = [] \<longleftrightarrow> es = []" "length (line_of es) = length es"
  by (simp_all add: line_of_def)

lemma fst_line [simp]: "map fst (line_of es) = map fst es"
  by (simp add: line_of_def comp_def split_def)

lemma front_served: "front (unat p) (line_of es) = line_of (served p es)"
  by (induction p es rule: served.induct) (simp_all add: usize_le_iff unat_sub_no_wrap)

lemma cost_line: "cost (line_of es) = wanted es"
  by (induction es) (auto simp: cost_def wanted_def)

lemma drop_line: "drop i (line_of es) = line_of (drop i es)"
  by (simp add: line_of_def drop_map)

lemma wakers_line: "map (\<lambda>(a, m, k). k) (line_of es) = map (\<lambda>(a, m, k). k) es"
  by (simp add: line_of_def comp_def split_def)

lemma gifts_handed:
  "map_of (map (\<lambda>(a, m, k). (a, case f of Fair \<Rightarrow> Some m | Unfair \<Rightarrow> None)) (line_of es)) a =
   map_option gift (map_of (handed f es) a)"
  by (induction es) (cases f; auto simp: handed_def hand_def)+

section \<open>The building blocks\<close>

lemma release_gives_back:
  assumes "sem_ok P (H + unat n) s"
  shows "\<exists>s'. release_permits s n f = Inr s' \<and> sem_ok P H s' \<and> bank_at s' P G = give_back f (unat n) (bank_at s P G)"
proof -
  from release_ok [OF assms, of f] obtain s' where r: "release_permits s n f = Inr s'" "sem_ok P H s'"
    "total_permits s' = total_permits s" "wl_abs (waiters s') = q_serve f (permits s + n) (wl_abs (waiters s))"
    "permits s' = (if f = Fair then remaining (permits s + n) (parked (wl_abs (waiters s))) else permits s + n)"
    by blast
  let ?es = "parked (wl_abs (waiters s))"
  have "unat (permits s) + unat n < 2 ^ 64"
    using assms unat_usize_less [of "total_permits s"] by (simp add: sem_ok_def)
  then have u: "unat (permits s + n) = unat (permits s) + unat n" by (rule unat_add_no_wrap)
  note l = front_served [of "permits s + n" ?es, unfolded u]
  have "bank_at s' P G = give_back f (unat n) (bank_at s P G)"
  proof (rule bank_eqI)
    show "spare (bank_at s' P G) = spare (give_back f (unat n) (bank_at s P G))"
      using unat_remaining [of "permits s + n" ?es] u
      by (cases f) (simp_all add: give_back_def Let_def l r(5) cost_line)
    show "gifts (bank_at s' P G) a = gifts (give_back f (unat n) (bank_at s P G)) a" for a
      by (simp add: give_back_def Let_def l r(4) q_serve_def gifts_handed map_add_def split: option.split)
  qed (simp_all add: give_back_def Let_def l r(3,4) q_serve_def drop_line wakers_line)
  with r(1,2) show ?thesis by blast
qed

lemma take_pays:
  assumes "n \<le> permits s"
  shows "bank_at (s\<lparr>permits := permits s - n\<rparr>) P (add_mset (Permit n) G) = pay (unat n) (bank_at s P G)"
  by (rule bank_eqI) (simp_all add: pay_def unat_sub_no_wrap [OF assms])

lemma park_lines_up:
  assumes "wl_abs wl' = q_start a n cx (wl_abs (waiters s))"
  shows "bank_at (s\<lparr>waiters := wl'\<rparr>) (P(a \<mapsto> (kind, n))) G =
     (bank_at s P G)\<lparr>line := line (bank_at s P G) @ [(a, unat n, cx)],
       asking := (asking (bank_at s P G))(a \<mapsto> (kind, unat n))\<rparr>"
  by (rule bank_eqI) (simp_all add: assms q_start_def)

lemma leave_withdraws:
  assumes "wl_abs wl' = q_cancel a (wl_abs (waiters s))"
  shows "bank_at (s\<lparr>waiters := wl'\<rparr>) (P(a := None)) G = withdraw a (bank_at s P G)"
proof (rule bank_eqI)
  show "line (bank_at (s\<lparr>waiters := wl'\<rparr>) (P(a := None)) G) = line (withdraw a (bank_at s P G))"
    by (simp add: assms withdraw_def q_cancel_def line_of_def filter_map comp_def split_def)
qed (simp_all add: assms withdraw_def q_cancel_def)

lemma released_cancel:
  assumes "wl_inv l" and "released (wl_abs l) a = Some h"
  shows "wl_abs l\<lparr>released := (released (wl_abs l))(a := None)\<rparr> = q_cancel a (wl_abs l)"
proof -
  have "filter (\<lambda>e. fst e \<noteq> a) (parked (wl_abs l)) = parked (wl_abs l)"
    using wl.disjoint_law [OF assms(1)] assms(2) by (intro filter_fst_neq) force
  then show ?thesis by (cases "wl_abs l") (simp add: q_cancel_def)
qed

section \<open>Each call\<close>

lemma asks:
  assumes "sem_ok P H s" and "P a = None"
  shows "\<exists>r s'. first_poll kind a n cx s = Inr (r, s') \<and>
     (case r of
        Ready g \<Rightarrow> bank_at s' P (add_mset g G) = ask kind a (unat n) cx (bank_at s P G)
      | Pending \<Rightarrow> bank_at s' (P(a \<mapsto> (kind, n))) G = ask kind a (unat n) cx (bank_at s P G))"
proof (cases "(kind = UnfairAcquire \<or> parked (wl_abs (waiters s)) = []) \<and> n \<le> permits s")
  case True
  then have "ask kind a (unat n) cx (bank_at s P G) = pay (unat n) (bank_at s P G)"
    by (auto simp: ask_def usize_le_iff)
  moreover have "acquire_loop kind a n cx s = Inr (Ready (Permit n), s\<lparr>permits := permits s - n\<rparr>)"
    using True by (intro acquire_loop_takes [OF assms(1)]) blast+
  ultimately show ?thesis using True by (simp add: first_poll_loop take_pays)
next
  case False
  from acquire_loop_parks [OF assms False, of cx] obtain wl' where
    "acquire_loop kind a n cx s = Inr (Pending, s\<lparr>waiters := wl'\<rparr>)" "wl_abs wl' = q_start a n cx (wl_abs (waiters s))"
    by blast
  moreover have "ask kind a (unat n) cx (bank_at s P G) = (bank_at s P G)\<lparr>line := line (bank_at s P G) @ [(a, unat n, cx)],
       asking := (asking (bank_at s P G))(a \<mapsto> (kind, unat n))\<rparr>"
    using False by (auto simp: ask_def usize_le_iff)
  ultimately show ?thesis by (simp add: first_poll_loop park_lines_up)
qed

lemma parked_asks_again:
  assumes "sem_ok P H s" and "P a = Some (kind, n)" and "released (wl_abs (waiters s)) a = None"
  shows "\<exists>s'. acquire_resume kind a n cx s = Inr (Pending, s') \<and>
     bank_at s' P G = ask_again a cx kind (unat n) (bank_at s P G)"
proof -
  from resume_parked [OF assms, of cx] obtain wl' where
    w: "acquire_resume kind a n cx s = Inr (Pending, s\<lparr>waiters := wl'\<rparr>)"
    "wl_abs wl' = snd (q_resume a cx (wl_abs (waiters s)))"
    by blast
  have "bank_at (s\<lparr>waiters := wl'\<rparr>) P G = ask_again a cx kind (unat n) (bank_at s P G)"
    by (rule bank_eqI) (simp_all add: ask_again_def w(2) q_resume_def assms(3) line_of_def comp_def split_def)
  with w(1) show ?thesis by blast
qed

lemma called_asks_again:
  assumes "sem_ok P H s" and "P a = Some (kind, n)" and "released (wl_abs (waiters s)) a = Some h"
  shows "\<exists>r s'. acquire_resume kind a n cx s = Inr (r, s') \<and>
     (case r of
        Ready g \<Rightarrow> bank_at s' (P(a := None)) (add_mset g G) = ask_again a cx kind (unat n) (bank_at s P G)
      | Pending \<Rightarrow> bank_at s' P G = ask_again a cx kind (unat n) (bank_at s P G))"
proof -
  from resume_released [OF assms(1,3), of cx] obtain wl' where
    w: "wait_resume a cx (waiters s) = Inr (Ready h, wl')" "wl_inv wl'"
    "wl_abs wl' = wl_abs (waiters s)\<lparr>released := (released (wl_abs (waiters s)))(a := None)\<rparr>"
    by blast
  let ?s = "s\<lparr>waiters := wl'\<rparr>" and ?P = "P(a := None)"
  have b: "bank_at ?s ?P G = withdraw a (bank_at s P G)" for G
    by (rule leave_withdraws) (simp add: w(3) released_cancel [OF sem_okD(1) [OF assms(1)] assms(3)])
  note l = leave_ok [OF assms(1,3) w(2,3)]
  show ?thesis
  proof (cases h)
    case (WakeFair g)
    have n: "grant_permits g = n" using assms(1-3) WakeFair by (force simp: sem_ok_def matches_def)
    have "bank_at ?s ?P (add_mset (Permit n) G) = ask_again a cx kind (unat n) (bank_at s P G)"
      using b [of G, symmetric] by (intro bank_eqI) (simp_all add: ask_again_def assms(3) WakeFair n)
    with w(1) WakeFair show ?thesis by (simp add: acquire_resume_def)
  next
    case (WakeUnfair t)
    then have ok: "sem_ok ?P H ?s" using l by (simp add: grant_weight_def)
    show ?thesis
    proof (cases "n \<le> permits s")
      case True
      have "bank_at (?s\<lparr>permits := permits s - n\<rparr>) ?P (add_mset (Permit n) G) = pay (unat n) (bank_at ?s ?P G)"
        using take_pays [of n ?s ?P G] True by simp
      moreover have "acquire_resume kind a n cx s = Inr (Ready (Permit n), ?s\<lparr>permits := permits s - n\<rparr>)"
        using take_ok(1) [OF ok, of n] True w(1) WakeUnfair by (simp add: acquire_resume_def)
      moreover have "unat n \<le> unat (permits s)" using True by (simp add: usize_le_iff)
      ultimately show ?thesis using WakeUnfair assms(3) by (simp add: ask_again_def b)
    next
      case False
      have ok0: "sem_ok ?P (H + unat (0 :: usize)) ?s" using ok by simp
      from release_gives_back [OF ok0, of Unfair] obtain t where
        t: "release_permits ?s 0 Unfair = Inr t" "sem_ok ?P H t" "bank_at t ?P G = give_back Unfair 0 (bank_at ?s ?P G)"
        by auto
      have "acquire_resume kind a n cx s = acquire_loop kind a n cx t"
        using w(1) False WakeUnfair t(1) by (simp add: acquire_resume_def refuse_eq unfair_woken_drop_def)
      moreover have "?P(a \<mapsto> (kind, n)) = P" using assms(2) by auto
      moreover have e: "ask kind a (unat n) cx (bank_at t ?P G) = ask_again a cx kind (unat n) (bank_at s P G)"
        using False by (simp add: ask_again_def assms(3) WakeUnfair b t(3) usize_le_iff)
      moreover have "?P a = None" by simp
      ultimately show ?thesis
        using asks [OF t(2), of a kind n cx G, unfolded first_poll_loop e] by presburger
    qed
  qed
qed

lemma walks_away:
  assumes "sem_ok P H s" and "P a \<noteq> None"
  shows "\<exists>s'. acquire_drop a s = Inr s' \<and> bank_at s' (P(a := None)) G = walk_away a (bank_at s P G)"
proof -
  note ok = sem_okD [OF assms(1)]
  let ?P = "P(a := None)"
  show ?thesis
  proof (cases "released (wl_abs (waiters s)) a")
    case None
    from assms(2) obtain kind n where "P a = Some (kind, n)" by auto
    from matches_fst [OF ok(3) this None] obtain k where k: "(a, n, k) \<in> set (parked (wl_abs (waiters s)))" .
    from wl.cancel_parked_law [OF ok(1) ok(2)[unfolded borrowed_abs [symmetric]] k] obtain wl' where
      w: "wait_cancel a (waiters s) = Inr (Input n, wl')" "wl_abs wl' = q_cancel a (wl_abs (waiters s))"
      by blast
    from w(1) leave_withdraws [OF w(2), of P G] None show ?thesis
      by (simp add: acquire_drop_def walk_away_def)
  next
    case (Some h)
    from wl.cancel_released_law [OF ok(1) ok(2)[unfolded borrowed_abs [symmetric]] Some] obtain wl' where
      w: "wait_cancel a (waiters s) = Inr (Output h, wl')" "wl_inv wl'" "wl_abs wl' = q_cancel a (wl_abs (waiters s))"
      by blast
    let ?s = "s\<lparr>waiters := wl'\<rparr>"
    note b = leave_withdraws [OF w(3), of P G]
    have l: "sem_ok ?P (H + grant_weight a h) ?s"
      by (rule leave_ok [OF assms(1) Some w(2)]) (simp add: w(3) released_cancel [OF ok(1) Some])
    show ?thesis
    proof (cases h)
      case (WakeFair g)
      with l have "sem_ok ?P (H + unat (grant_permits g)) ?s" by (simp add: grant_weight_def)
      from release_gives_back [OF this, of Unfair G] w(1) WakeFair Some b show ?thesis
        by (auto simp: acquire_drop_def walk_away_def fair_grant_drop_def)
    next
      case (WakeUnfair t)
      with l have "sem_ok ?P (H + unat (0 :: usize)) ?s" by (simp add: grant_weight_def)
      from release_gives_back [OF this, of Unfair G] w(1) WakeUnfair Some b show ?thesis
        by (auto simp: acquire_drop_def walk_away_def unfair_woken_drop_def)
    qed
  qed
qed

text \<open>The code replies what the bank replies, and represents afterwards what the bank becomes.\<close>

definition banks :: "sem_op \<Rightarrow> sem_sys \<Rightarrow> bool" where
  "banks op S \<longleftrightarrow> map_option bank_of (sem_reply op S) = bank_call op (bank_of S)"

lemma banksI: "sem_enabled op S \<Longrightarrow> sem_exec op S = Inr S' \<Longrightarrow> bank_call op (bank_of S) = Some (bank_of S') \<Longrightarrow> banks op S"
  by (simp add: banks_def sem_reply_def)

lemma bank_of_record [simp]: "bank_of \<lparr>sem = s, acquiring = P, guards = G\<rparr> = bank_at s P G"
  by (simp add: bank_of_def)

lemma keep_guard_banks:
  assumes "try_acquire_unfair (sem S) n = (g, s)"
  shows "bank_of (keep_guard g s S) = (if unat n \<le> spare (bank_of S) then pay (unat n) (bank_of S) else bank_of S)"
proof (cases "n \<le> permits (sem S)")
  case True
  with assms have "g = Some (Permit n)" "s = sem S\<lparr>permits := permits (sem S) - n\<rparr>"
    by (simp_all add: try_acquire_unfair_def checked_sub_def)
  with True take_pays [OF True] show ?thesis by (simp add: keep_guard_def bank_of_def usize_le_iff)
next
  case False
  with assms show ?thesis by (simp add: refuse_eq keep_guard_def bank_of_def usize_le_iff)
qed

lemma paid_iff: "unat n \<in># paid (bank_of S) \<longleftrightarrow> Permit n \<in># guards S"
proof -
  have "unat n = unat (held_permits g) \<longleftrightarrow> g = Permit n" for g
    by (cases g) (auto simp: word_unat_eq_iff)
  moreover have "unat n \<in># paid (bank_of S) \<longleftrightarrow> (\<exists>g. g \<in># guards S \<and> unat n = unat (held_permits g))"
    by (auto simp: bank_of_def image_iff)
  ultimately show ?thesis by simp
qed

lemma collect_bank:
  assumes "Permit n \<in># guards S"
  shows "collect (unat n) (bank_of S) = bank_at (sem S) (acquiring S) (guards S - {#Permit n#})"
  using assms by (simp add: collect_def bank_of_def bank_at_def image_mset_Diff)

lemma release_banks:
  assumes "sys_ok S" and "op \<in> {DropPermit (Permit n), ReleaseFair (Permit n)}"
  shows "banks op S"
proof (cases "Permit n \<in># guards S")
  case True
  let ?f = "if op = DropPermit (Permit n) then Unfair else Fair" and ?G = "guards S - {#Permit n#}"
  have "sem_ok (acquiring S) (held (S\<lparr>guards := ?G\<rparr>) + unat n) (sem S)"
    using assms(1) held_remove [OF True] by (simp add: sys_ok_def)
  from release_gives_back [OF this, of ?f ?G] obtain s' where
    s': "release_permits (sem S) n ?f = Inr s'"
    "bank_at s' (acquiring S) ?G = give_back ?f (unat n) (bank_at (sem S) (acquiring S) ?G)"
    by blast
  moreover note collect_bank [OF True]
  ultimately show ?thesis
    using assms(2) True paid_iff [of n S]
    by (intro banksI [of _ _ "S\<lparr>sem := s', guards := ?G\<rparr>"])
      (auto simp: permit_drop_def release_fair_def bank_of_def)
next
  case False
  with assms(2) paid_iff [of n S] show ?thesis by (auto simp: banks_def sem_reply_def)
qed

lemma leak_banks:
  assumes "sys_ok S"
  shows "banks (Leak (Permit n)) S"
proof (cases "Permit n \<in># guards S")
  case True
  let ?G = "guards S - {#Permit n#}"
  have le: "unat n \<le> unat (total_permits (sem S))"
    using assms held_remove [OF True] by (simp add: sys_ok_def sem_ok_def)
  then have "unat (total_permits (sem S) - n) = unat (total_permits (sem S)) - unat n"
    by (simp add: unat_sub_no_wrap usize_le_iff)
  moreover have "bank_call (Leak (Permit n)) (bank_of S) =
      Some ((bank_at (sem S) (acquiring S) ?G)\<lparr>everything := unat (total_permits (sem S)) - unat n\<rparr>)"
    using True paid_iff [of n S] by (simp add: collect_bank [OF True] del: fold_congs) (simp add: bank_of_def)
  ultimately show ?thesis
    using True le
    by (intro banksI [of _ _ "S\<lparr>sem := sem S\<lparr>total_permits := total_permits (sem S) - n\<rparr>, guards := ?G\<rparr>"])
      (simp_all add: leak_def usize_sub_Inr bank_of_def bank_at_def)
next
  case False
  with paid_iff [of n S] show ?thesis by (simp add: banks_def sem_reply_def)
qed

lemma add_banks:
  assumes "sys_ok S" and "op = (if f = Fair then AddPermitsFair n else AddPermits n)"
  shows "banks op S"
proof (cases "unat (total_permits (sem S)) + unat n < 2 ^ 64")
  case True
  let ?s = "sem S\<lparr>total_permits := total_permits (sem S) + n\<rparr>"
  have ok: "sem_ok (acquiring S) (held S + unat n) ?s"
    using assms(1) True by (simp add: sys_ok_def sem_ok_def unat_add_no_wrap)
  from release_gives_back [OF ok, of f "guards S"] obtain s' where
    s': "release_permits ?s n f = Inr s'" "bank_at s' (acquiring S) (guards S) = give_back f (unat n) (bank_at ?s (acquiring S) (guards S))"
    by blast
  moreover have "bank_at ?s (acquiring S) (guards S) = (bank_of S)\<lparr>everything := everything (bank_of S) + unat n\<rparr>"
    using True by (simp add: bank_of_def bank_at_def unat_add_no_wrap)
  ultimately show ?thesis
    using assms(2) True
    by (intro banksI [of _ _ "S\<lparr>sem := s'\<rparr>"]; cases f)
      (simp_all add: add_permits_def add_permits_fair_def checked_add_def deposit_def bank_of_def)
next
  case False
  with assms(2) show ?thesis
    by (cases f) (simp_all add: banks_def sem_reply_def add_permits_def add_permits_fair_def checked_add_def
        deposit_def bank_of_def)
qed

lemma take_banks:
  assumes "sem_enabled op S" and "sem_exec op S = Inr (case try_acquire_unfair (sem S) n of (g, s) \<Rightarrow> keep_guard g s S)"
    and "bank_call op (bank_of S) = Some (if unat n \<le> spare (bank_of S) then pay (unat n) (bank_of S) else bank_of S)"
  shows "banks op S"
  using assms keep_guard_banks [of S n] by (cases "try_acquire_unfair (sem S) n") (simp add: banksI)

lemma future_banks:
  assumes "sem_enabled op S" and "sem_exec op S = Inr (keep_future a (kind, n) r s S)" and "bank_call op (bank_of S) = Some B"
    and "case r of
        Ready g \<Rightarrow> bank_at s ((acquiring S)(a := None)) (add_mset g (guards S)) = B
      | Pending \<Rightarrow> bank_at s ((acquiring S)(a \<mapsto> (kind, n))) (guards S) = B"
  shows "banks op S"
  using assms by (intro banksI [OF assms(1,2)]) (cases r; simp add: keep_future_def bank_of_def)

lemma poll_banks:
  assumes "sys_ok S"
  shows "banks (PollAcquire a cx) S"
proof (cases "acquiring S a")
  case None
  then show ?thesis by (simp add: banks_def sem_reply_def bank_of_def)
next
  case (Some c)
  obtain kind n where c: "acquiring S a = Some (kind, n)" using Some by (cases c) simp
  have P: "(acquiring S)(a \<mapsto> (kind, n)) = acquiring S" using c by auto
  from assms have ok: "sem_ok (acquiring S) (held S) (sem S)" by (simp add: sys_ok_def)
  let ?B = "ask_again a cx kind (unat n) (bank_of S)"
  have "\<exists>r s. acquire_resume kind a n cx (sem S) = Inr (r, s) \<and>
     (case r of
        Ready g \<Rightarrow> bank_at s ((acquiring S)(a := None)) (add_mset g (guards S)) = ?B
      | Pending \<Rightarrow> bank_at s (acquiring S) (guards S) = ?B)"
  proof (cases "released (queue S) a")
    case None
    from parked_asks_again [OF ok c None, of cx "guards S"] show ?thesis by (auto simp: bank_of_def)
  next
    case (Some h)
    from called_asks_again [OF ok c Some, of cx "guards S"] show ?thesis by (simp only: bank_of_def)
  qed
  then obtain r s where r: "acquire_resume kind a n cx (sem S) = Inr (r, s)"
    "case r of
        Ready g \<Rightarrow> bank_at s ((acquiring S)(a := None)) (add_mset g (guards S)) = ?B
      | Pending \<Rightarrow> bank_at s ((acquiring S)(a \<mapsto> (kind, n))) (guards S) = ?B"
    unfolding P by blast
  have e: "sem_exec (PollAcquire a cx) S = Inr (keep_future a (kind, n) r s S)" using r(1) c by simp
  have "bank_call (PollAcquire a cx) (bank_of S) = Some ?B" using c by (simp add: bank_of_def)
  from future_banks [OF _ e this r(2)] c show ?thesis by simp
qed

lemma acquire_banks:
  assumes "sys_ok S"
  shows "banks (Acquire kind a n cx) S"
proof (cases "acquiring S a")
  case None
  from assms have ok: "sem_ok (acquiring S) (held S) (sem S)" by (simp add: sys_ok_def)
  have P: "(acquiring S)(a := None) = acquiring S" using None by (simp add: fun_upd_idem)
  let ?B = "ask kind a (unat n) cx (bank_of S)"
  obtain r s where r: "first_poll kind a n cx (sem S) = Inr (r, s)"
    "case r of
        Ready g \<Rightarrow> bank_at s ((acquiring S)(a := None)) (add_mset g (guards S)) = ?B
      | Pending \<Rightarrow> bank_at s ((acquiring S)(a \<mapsto> (kind, n))) (guards S) = ?B"
    using asks [OF ok None, of kind n cx "guards S"] unfolding P bank_of_def by blast
  have e: "sem_exec (Acquire kind a n cx) S = Inr (keep_future a (kind, n) r s S)" using r(1) by simp
  have "bank_call (Acquire kind a n cx) (bank_of S) = Some ?B" using None by (simp add: bank_of_def)
  from future_banks [OF _ e this r(2)] None show ?thesis by simp
next
  case (Some c)
  then show ?thesis by (simp add: banks_def sem_reply_def bank_of_def)
qed

lemma drop_banks:
  assumes "sys_ok S"
  shows "banks (DropAcquire a) S"
proof (cases "acquiring S a")
  case None
  then show ?thesis by (simp add: banks_def sem_reply_def bank_of_def)
next
  case (Some c)
  from assms have ok: "sem_ok (acquiring S) (held S) (sem S)" by (simp add: sys_ok_def)
  from Some have "acquiring S a \<noteq> None" by simp
  from walks_away [OF ok this, of "guards S"] obtain s where
    "acquire_drop a (sem S) = Inr s" "bank_at s ((acquiring S)(a := None)) (guards S) = walk_away a (bank_of S)"
    by (auto simp: bank_of_def)
  with Some show ?thesis
    by (intro banksI [of _ _ "S\<lparr>sem := s, acquiring := (acquiring S)(a := None)\<rparr>"]) (simp_all add: bank_of_def)
qed

lemma call_banks:
  assumes "sys_ok S"
  shows "banks op S"
proof (cases op)
  case (TryAcquire n)
  have "try_acquire (sem S) n = Inr (if parked (queue S) = [] then try_acquire_unfair (sem S) n else (None, sem S))"
    using assms by (auto simp: sys_ok_def sem_ok_def try_acquire_eq)
  then show ?thesis
  proof (cases "parked (queue S) = []")
    case True
    with TryAcquire \<open>try_acquire (sem S) n = _\<close> show ?thesis
      by (intro take_banks [of _ _ n]) (simp_all add: bank_of_def split: prod.split)
  next
    case False
    with TryAcquire \<open>try_acquire (sem S) n = _\<close> show ?thesis
      by (intro banksI [of _ _ S]) (simp_all add: bank_of_def keep_guard_def)
  qed
next
  case (TryAcquireUnfair n)
  then show ?thesis by (intro take_banks [of _ _ n]) (simp_all split: prod.split)
next
  case (DropPermit g)
  with release_banks [OF assms, of op] show ?thesis by (cases g) simp
next
  case (ReleaseFair g)
  with release_banks [OF assms, of op] show ?thesis by (cases g) simp
next
  case (Leak g)
  with leak_banks [OF assms] show ?thesis by (cases g) simp
next
  case (AddPermits n)
  with add_banks [OF assms, of op Unfair n] show ?thesis by simp
next
  case (AddPermitsFair n)
  with add_banks [OF assms, of op Fair n] show ?thesis by simp
qed (use assms in \<open>simp_all add: acquire_banks poll_banks drop_banks\<close>)

lemma reply_ok: "sys_ok S \<Longrightarrow> sem_reply op S = Some S' \<Longrightarrow> sys_ok S'"
  by (auto simp: sem_reply_def split: if_splits sum.splits intro: sem_exec_keeps)

lemma run_banks:
  assumes "sys_ok S"
  shows "map_option bank_of (sem_run ops S) = bank_run ops (bank_of S)"
  using assms
proof (induction ops arbitrary: S)
  case (Cons op ops)
  have b: "bank_call op (bank_of S) = map_option bank_of (sem_reply op S)"
    using call_banks [OF Cons.prems, of op] by (simp add: banks_def)
  show ?case
  proof (cases "sem_reply op S")
    case (Some T)
    with b Cons.IH [OF reply_ok [OF Cons.prems Some]] show ?thesis by simp
  qed (simp add: b)
qed simp

section \<open>The property\<close>

definition sem_fresh :: "usize \<Rightarrow> sem_sys" where
  "sem_fresh n = \<lparr>sem = semaphore_new n, acquiring = Map.empty, guards = {#}\<rparr>"

text \<open>A run through the calls: a barging acquisition, a fair hand-over, a chance missed, a leak.\<close>

lemma bank_run_example:
  "map_option (\<lambda>B. (spare B, everything B, line B, called B, paid B))
     (bank_run [TryAcquire 2, Acquire FairAcquire 1 2 7, Acquire FairAcquire 2 1 8, TryAcquire 1, TryAcquireUnfair 1,
       ReleaseFair (Permit 2), DropPermit (Permit 1), TryAcquireUnfair 1, PollAcquire 2 9, PollAcquire 1 7,
       Leak (Permit 2)] (bank_new 3)) =
     Some (0, 1, [(2, 1, 9)], [7, 8], {#1#})"
  by code_simp

text \<open>C11.
  The semaphore is its specification.  For any sequence of public calls on a new semaphore, the code
  over the pointer list and 64-bit words completes every call exactly when the bank allows the whole
  sequence: ownership permits each call and no total exceeds a \<open>usize\<close>.  What the code then
  represents is the bank that results: the permits available and in total, the order of those who
  wait and their requests, who was promised permits or a chance, which wakers were called in which
  order, which futures are pending, and the permits in the hands of the callers.
\<close>

theorem sem_refines_bank:
  "map_option bank_of (sem_run ops (sem_fresh n)) = bank_run ops (bank_new (unat n))"
proof -
  have s: "sem_start (sem_fresh n)" by (auto simp: sem_start_def sem_fresh_def)
  have "bank_of (sem_fresh n) = bank_new (unat n)"
    by (simp add: sem_fresh_def bank_at_def bank_new_def semaphore_new_def new_refines q_new_def)
  with run_banks [OF sem_start_ok(1) [OF s]] show ?thesis by simp
qed

text \<open>
  Permits that \<open>add_permits_fair\<close> adds are kept for the head of the queue only if they are enough for
  it; otherwise they are available, and an unfair acquisition takes them past the head.
\<close>

theorem fair_addition_taken_past_head:
  "map_option (\<lambda>S. (map (\<lambda>(a, n, k). (a, n)) (parked (queue S)), guards S))
     (sem_run [Acquire FairAcquire 1 2 7, AddPermitsFair 1, TryAcquireUnfair 1] (sem_fresh 0)) =
   Some ([(1, 2)], {#Permit 1#})"
  by code_simp

section \<open>Nobody jumps the queue\<close>

text \<open>\<open>a\<close> is in line behind some of \<open>xs\<close> and nobody else.\<close>

definition behind :: "addr list \<Rightarrow> addr \<Rightarrow> nat \<Rightarrow> line \<Rightarrow> bool" where
  "behind xs a n es \<longleftrightarrow> (\<exists>fs k gs. es = fs @ (a, n, k) # gs \<and> subseq (map fst fs) xs)"

lemma behindI: "es = fs @ (a, n, k) # gs \<Longrightarrow> subseq (map fst fs) xs \<Longrightarrow> behind xs a n es"
  unfolding behind_def by blast

lemma behind_append: "behind xs a n es \<Longrightarrow> behind xs a n (es @ gs)"
  unfolding behind_def by (metis append_Cons append_assoc)

lemma behind_filter:
  assumes "behind xs a n es" and "b \<noteq> a"
  shows "behind xs a n (filter (\<lambda>e. fst e \<noteq> b) es)"
proof -
  from assms(1) obtain fs k gs where e: "es = fs @ (a, n, k) # gs" "subseq (map fst fs) xs"
    unfolding behind_def by blast
  have "subseq (map fst (filter (\<lambda>e. fst e \<noteq> b) fs)) (map fst fs)" by (intro subseq_map subseq_filter_left)
  with e assms(2) show ?thesis by (intro behindI [where fs = "filter (\<lambda>e. fst e \<noteq> b) fs"]) (auto intro: subseq_order.trans)
qed

lemma behind_map:
  assumes "behind xs a n es"
  shows "behind xs a n (map (\<lambda>(b, m, k). (b, m, if b = c then cx else k)) es)"
proof -
  from assms obtain fs k gs where e: "es = fs @ (a, n, k) # gs" "subseq (map fst fs) xs"
    unfolding behind_def by blast
  have "map fst (map (\<lambda>(b, m, k). (b, m, if b = c then cx else k)) fs) = map fst fs" by (simp add: split_def)
  with e show ?thesis
    by (intro behindI [where fs = "map (\<lambda>(b, m, k). (b, m, if b = c then cx else k)) fs"]) (simp_all add: comp_def split_def)
qed

text \<open>Everyone up to \<open>a\<close> was called.\<close>

definition all_called :: "addr list \<Rightarrow> addr \<Rightarrow> bank \<Rightarrow> bool" where
  "all_called xs a B \<longleftrightarrow> (\<forall>b\<in>insert a (set xs). gifts B b \<noteq> None)"

lemma front_prefix: "\<exists>rest. es = front p es @ rest"
  by (induction p es rule: front.induct) auto

lemma append_split:
  "es @ rest = fs @ x # gs \<Longrightarrow> (\<exists>us. fs = es @ us \<and> rest = us @ x # gs) \<or> (\<exists>us. es = fs @ x # us)"
  by (auto simp: append_eq_append_conv2 Cons_eq_append_conv append_eq_Cons_conv)

lemma give_back_in_order:
  assumes "line B = fs @ (a, n, k) # gs"
  shows "behind (map fst fs) a n (line (give_back f m B)) \<or> all_called (map fst fs) a (give_back f m B)"
proof -
  let ?es = "front (spare B + m) (line B)"
  from front_prefix [of "line B" "spare B + m"] obtain rest where r: "line B = ?es @ rest" by blast
  then have l: "line (give_back f m B) = rest"
    by (simp add: give_back_def Let_def) (metis append_eq_conv_conj)
  from r assms have "?es @ rest = fs @ (a, n, k) # gs" by simp
  then consider us where "fs = ?es @ us" "rest = us @ (a, n, k) # gs" | us where "?es = fs @ (a, n, k) # us"
    by (blast dest: append_split)
  then show ?thesis
  proof cases
    case 1
    then have "subseq (map fst us) (map fst fs)" by (simp add: suffix_imp_subseq suffixI)
    with 1(2) l show ?thesis by (auto intro: behindI)
  next
    case 2
    have "gifts (give_back f m B) b \<noteq> None" if "b \<in> fst ` set ?es" for b
      using that unfolding give_back_def Let_def
      by (simp add: map_add_None map_of_eq_None_iff image_image split_def)
    with 2 show ?thesis by (simp add: all_called_def)
  qed
qed

definition neat :: "bank \<Rightarrow> bool" where
  "neat B \<longleftrightarrow> distinct (map fst (line B)) \<and> (\<forall>e\<in>set (line B). gifts B (fst e) = None)"

lemma withdraw_called: "neat B \<Longrightarrow> gifts B b \<noteq> None \<Longrightarrow> line (withdraw b B) = line B"
  by (auto simp: neat_def withdraw_def filter_id_conv)

lemma ask_in_order:
  "behind xs a n (line B) \<Longrightarrow> behind xs a n (line (ask kind b m cx B))"
  "all_called xs a B \<Longrightarrow> all_called xs a (ask kind b m cx B)"
  by (simp_all add: ask_def pay_def behind_append all_called_def)

lemma back_in_order:
  assumes "line D = fs @ (a, n, k) # gs"
  shows "behind (map fst fs) a n (line (give_back f m D)) \<or> all_called (map fst fs) a (give_back f m D)"
  using give_back_in_order [of D fs a n k gs f m] assms by simp

lemma deposit_in_order:
  assumes "deposit f m B = Some C" and "line B = fs @ (a, n, k) # gs"
  shows "behind (map fst fs) a n (line C) \<or> all_called (map fst fs) a C"
  using assms back_in_order [of "B\<lparr>everything := everything B + m\<rparr>" fs a n k gs f m]
  by (auto simp: deposit_def split: if_splits)

lemma again_in_order:
  assumes "neat B" and l: "line B = fs @ (a, n, k) # gs"
  shows "behind (map fst fs) a n (line (ask_again c cx kind m B)) \<or>
    all_called (map fst fs) a (ask_again c cx kind m B)"
proof -
  have b: "behind (map fst fs) a n (line B)" using l by (auto intro: behindI)
  show ?thesis
  proof (cases "gifts B c")
    case None
    with b show ?thesis by (simp add: ask_again_def behind_map)
  next
    case (Some h)
    then have w: "line (withdraw c B) = line B" using withdraw_called [OF assms(1), of c] by simp
    show ?thesis
    proof (cases "h = None \<and> \<not> m \<le> spare B")
      case True
      with Some have "ask_again c cx kind m B = ask kind c m cx (give_back Unfair 0 (withdraw c B))"
        by (simp add: ask_again_def)
      with back_in_order [OF trans [OF w l], of Unfair 0] show ?thesis by (auto intro: ask_in_order)
    next
      case False
      with Some w b show ?thesis by (cases h) (auto simp: ask_again_def pay_def)
    qed
  qed
qed

lemma walk_in_order:
  assumes "neat B" and l: "line B = fs @ (a, n, k) # gs" and "c \<noteq> a"
  shows "behind (map fst fs) a n (line (walk_away c B)) \<or> all_called (map fst fs) a (walk_away c B)"
proof (cases "gifts B c")
  case None
  moreover have "behind (map fst fs) a n (line B)" using l by (auto intro: behindI)
  ultimately show ?thesis using assms(3) by (simp add: walk_away_def withdraw_def behind_filter)
next
  case (Some h)
  then have "line (withdraw c B) = line B" using withdraw_called [OF assms(1), of c] by simp
  with Some back_in_order [OF trans [OF this l]] show ?thesis
    by (cases h) (simp_all add: walk_away_def)
qed

lemma call_in_order:
  assumes "bank_call op B = Some C" and "neat B" and l: "line B = fs @ (a, n, k) # gs"
  shows "op = DropAcquire a \<or> behind (map fst fs) a n (line C) \<or> all_called (map fst fs) a C"
proof -
  have b: "behind (map fst fs) a n (line B)" using l by (auto intro: behindI)
  show ?thesis
  proof (cases op)
    case (PollAcquire c cx)
    with assms(1) obtain kind m where "C = ask_again c cx kind m B" by auto
    with again_in_order [OF assms(2) l] show ?thesis by simp
  next
    case (DropAcquire c)
    with assms(1) walk_in_order [OF assms(2) l, of c] show ?thesis by auto
  next
    case (Acquire kind c m cx)
    with assms(1) b show ?thesis by (auto intro: ask_in_order split: option.splits)
  next
    case (DropPermit p)
    obtain m where "p = Permit m" by (cases p)
    with DropPermit assms(1) l back_in_order [of "collect (unat m) B" fs a n k gs Unfair "unat m"] show ?thesis
      by (auto simp: collect_def split: if_splits)
  next
    case (ReleaseFair p)
    obtain m where "p = Permit m" by (cases p)
    with ReleaseFair assms(1) l back_in_order [of "collect (unat m) B" fs a n k gs Fair "unat m"] show ?thesis
      by (auto simp: collect_def split: if_splits)
  next
    case (Leak p)
    with assms(1) b show ?thesis by (cases p) (auto simp: collect_def split: if_splits)
  qed (use assms(1) b deposit_in_order [OF _ l] in \<open>auto simp: pay_def split: if_splits\<close>)
qed

lemma sys_ok_neat:
  assumes "sys_ok S"
  shows "neat (bank_of S)"
proof -
  from assms have i: "wl_inv (waiters (sem S))" by (simp add: sys_ok_def sem_ok_def)
  have "gifts (bank_of S) (fst e) = None" if "e \<in> set (line (bank_of S))" for e
    using that wl.disjoint_law [OF i] by (auto simp: bank_of_def line_of_def)
  with wl.distinct_law [OF i] show ?thesis by (simp add: neat_def bank_of_def)
qed

text \<open>C25.
  Nobody jumps the queue.  Whatever is called while a future waits for its permits, unless it is that
  future's own drop, the future either keeps its place, with nobody in front of it who was not in
  front of it before, or it has been woken, and then so has everyone who was in front of it.
\<close>

theorem sem_no_queue_jumping:
  assumes "reachable sem_start sem_step S" and "sem_enabled op S" and "sem_exec op S = Inr T"
    and "parked (queue S) = xs @ (a, n, k) # ys" and "op \<noteq> DropAcquire a"
  shows "(\<exists>xs' k' ys'. parked (queue T) = xs' @ (a, n, k') # ys' \<and> subseq (map fst xs') (map fst xs)) \<or>
     (\<forall>b\<in>insert a (fst ` set xs). released (queue T) b \<noteq> None)"
proof -
  have ok: "sys_ok S" by (rule sem_all.inv_reachable [OF assms(1)])
  have l: "line (bank_of S) = line_of xs @ (a, unat n, k) # line_of ys" by (simp add: bank_of_def assms(4))
  have "bank_call op (bank_of S) = Some (bank_of T)"
    using call_banks [OF ok, of op] assms(2,3) by (simp add: banks_def sem_reply_def)
  from call_in_order [OF this sys_ok_neat [OF ok] l] assms(5)
  have "behind (map fst xs) a (unat n) (line_of (parked (queue T))) \<or> all_called (map fst xs) a (bank_of T)"
    by (simp add: bank_of_def)
  then show ?thesis
  proof
    assume "behind (map fst xs) a (unat n) (line_of (parked (queue T)))"
    then obtain fs k' gs where "line_of (parked (queue T)) = fs @ (a, unat n, k') # gs" "subseq (map fst fs) (map fst xs)"
      unfolding behind_def by blast
    then obtain xs' m ys' where "parked (queue T) = xs' @ (a, m, k') # ys'" "fs = line_of xs'" "unat m = unat n"
      by (auto simp: line_of_def map_eq_append_conv map_eq_Cons_conv)
    moreover from this(3) have "m = n" by (simp add: word_unat_eq_iff)
    ultimately show ?thesis using \<open>subseq _ _\<close> by auto
  next
    assume "all_called (map fst xs) a (bank_of T)"
    then show ?thesis by (simp add: all_called_def bank_of_def)
  qed
qed

theorem sem_no_queue_jumping_witness:
  "\<exists>S T. run_script sem_enabled sem_exec [(Acquire FairAcquire 1 2 7, \<lambda>_. True), (Acquire FairAcquire 2 1 8, \<lambda>_. True)]
       (sem_fresh 0) = Inr S \<and> sem_exec (AddPermitsFair 2) S = Inr T \<and>
     ((\<exists>xs' k' ys'. parked (queue T) = xs' @ (2, 1, k') # ys' \<and> subseq (map fst xs') [1]) \<or>
      (\<forall>b\<in>{1, 2}. released (queue T) b \<noteq> None))"
proof -
  let ?calls = "[(Acquire FairAcquire 1 2 7, \<lambda>_. True), (Acquire FairAcquire 2 1 8, \<lambda>_. True)]"
  have "passes (run_script sem_enabled sem_exec ?calls (sem_fresh 0))
      (\<lambda>S. parked (queue S) = [(1, 2, 7), (2, 1, 8)] \<and> \<not> isl (sem_exec (AddPermitsFair 2) S))"
    by code_simp
  then obtain S where S: "run_script sem_enabled sem_exec ?calls (sem_fresh 0) = Inr S"
    "parked (queue S) = [(1, 2, 7), (2, 1, 8)]" "\<not> isl (sem_exec (AddPermitsFair 2) S)"
    by (elim passesE conjE) (rule that)
  from S(3) obtain T where T: "sem_exec (AddPermitsFair 2) S = Inr T" by (cases "sem_exec (AddPermitsFair 2) S") auto
  have "sem_start (sem_fresh 0)" by (auto simp: sem_start_def sem_fresh_def)
  then have "reachable sem_start sem_step (sem_fresh 0)" by (rule reach_start)
  then have "reachable sem_start sem_step S" by (rule run_script_reachable [OF S(1)]) (rule sem_call)
  from sem_no_queue_jumping [OF this _ T, of "[(1, 2, 7)]" 2 1 8 "[]"] S(2)
  have "(\<exists>xs' k' ys'. parked (queue T) = xs' @ (2, 1, k') # ys' \<and> subseq (map fst xs') [1]) \<or>
      (\<forall>b\<in>{1, 2}. released (queue T) b \<noteq> None)"
    by (simp add: insert_commute)
  with S(1) T show ?thesis by blast
qed

end
