(* ===== verification/Semaphore_Props.thy ===== *)
theory Semaphore_Props
  imports Semaphore_System
begin

text \<open>
  The properties of the semaphore: what a release, an attempt and a poll do in terms of the
  abstract queue, what holds in every reachable state of the system, and the unit tests of the
  crate and the examples of its documentation run on the model.
\<close>

section \<open>A wake-up value stays with its waiter\<close>

definition keeps :: "addr \<Rightarrow> semaphore \<Rightarrow> semaphore \<Rightarrow> bool" where
  "keeps a s s' \<longleftrightarrow> (\<forall>h. released (wl_abs (waiters s)) a = Some h \<longrightarrow>
     released (wl_abs (waiters s')) a = Some h)"

lemma keeps_refl: "waiters s' = waiters s \<Longrightarrow> keeps a s s'"
  by (simp add: keeps_def)

lemma keeps_trans: "keeps a s s1 \<Longrightarrow> keeps a s1 s2 \<Longrightarrow> keeps a s s2"
  by (simp add: keeps_def)

lemma serve_keeps:
  assumes "wl_inv l" and "released (wl_abs l) a = Some h"
  shows "released (q_serve f p (wl_abs l)) a = Some h"
proof -
  have "a \<notin> fst ` set (parked (wl_abs l))"
    using wl.disjoint_law [OF assms(1)] assms(2) by force
  then have "a \<notin> fst ` set (handed f (served p (parked (wl_abs l))))"
    using served_subset [of p "parked (wl_abs l)"] by (auto simp: fst_handed)
  then have "map_of (handed f (served p (parked (wl_abs l)))) a = None"
    by (simp add: map_of_eq_None_iff)
  with assms(2) show ?thesis by (simp add: q_serve_def Let_def map_add_def)
qed

lemma release_keeps:
  assumes "sem_ok P (H + unat n) s" and "release_permits s n f = Inr s'"
  shows "keeps a s s'"
  using release_ok [OF assms(1), of f] assms(2) serve_keeps [OF sem_okD(1) [OF assms(1)]]
  by (auto simp: keeps_def)

lemma try_keeps: "keeps a s (snd (try_acquire_unfair s n))"
  by (simp add: keeps_def try_acquire_unfair_def split: option.split)

lemma loop_keeps:
  assumes "sem_ok P H s" and "P b = None" and "acquire_loop kind b n cx s = Inr (r, s')"
  shows "keeps a s s'"
proof (cases "(kind = UnfairAcquire \<or> parked (wl_abs (waiters s)) = []) \<and> n \<le> permits s")
  case True
  with acquire_loop_takes [OF assms(1), of kind n b cx] assms(3) show ?thesis
    by (auto intro: keeps_refl)
next
  case False
  from acquire_loop_parks [OF assms(1,2) False, of cx] assms(3) show ?thesis
    by (auto simp: keeps_def q_start_def)
qed

lemma leave_keeps:
  assumes "wl_abs wl' = wl_abs (waiters s)\<lparr>released := (released (wl_abs (waiters s)))(b := None)\<rparr>"
    and "a \<noteq> b"
  shows "keeps a s (s\<lparr>waiters := wl'\<rparr>)"
  using assms by (simp add: keeps_def)

lemma woken_keeps:
  assumes "sem_ok P H s" and "released (wl_abs (waiters s)) b = Some h" and "wl_inv wl'"
    and w: "wl_abs wl' = wl_abs (waiters s)\<lparr>released := (released (wl_abs (waiters s)))(b := None)\<rparr>"
    and r: "acquire_woken n h (s\<lparr>waiters := wl'\<rparr>) = Inr (g, s')"
    and "a \<noteq> b"
  shows "keeps a s s'"
proof -
  note l = leave_ok [OF assms(1,2,3) w]
  have k: "keeps a s (s\<lparr>waiters := wl'\<rparr>)" by (rule leave_keeps [OF w assms(6)])
  moreover have "keeps a (s\<lparr>waiters := wl'\<rparr>) s'"
  proof (cases h)
    case (WakeFair g)
    with r show ?thesis by (simp add: keeps_refl)
  next
    case (WakeUnfair t)
    show ?thesis
    proof (cases "n \<le> permits s")
      case True
      with r WakeUnfair show ?thesis
        by (auto simp: try_acquire_unfair_def checked_sub_def keeps_def)
    next
      case False
      with r WakeUnfair have "release_permits (s\<lparr>waiters := wl'\<rparr>) 0 Unfair = Inr s'"
        by (auto simp: refuse_eq unfair_woken_drop_def and_then_eq_Inr)
      with release_keeps [of "P(b := None)" H 0 "s\<lparr>waiters := wl'\<rparr>" Unfair s'] l WakeUnfair
      show ?thesis by (simp add: grant_weight_def)
    qed
  qed
  ultimately show ?thesis by (rule keeps_trans)
qed

lemma resume_keeps:
  assumes "sem_ok P H s" and "P b = Some (kind, n)" and "acquire_resume kind b n cx s = Inr (r, s')"
    and "a \<noteq> b"
  shows "keeps a s s'"
proof (cases "released (wl_abs (waiters s)) b")
  case None
  from resume_parked [OF assms(1,2) None, of cx] assms(3) None show ?thesis
    by (auto simp: keeps_def q_resume_def)
next
  case (Some h)
  from resume_released [OF assms(1) Some, of cx] obtain wl' where
    w: "wait_resume b cx (waiters s) = Inr (Ready h, wl')" "wl_inv wl'"
    "wl_abs wl' = wl_abs (waiters s)\<lparr>released := (released (wl_abs (waiters s)))(b := None)\<rparr>"
    by blast
  from acquire_woken_ok [OF assms(1,2) Some w(2,3)] obtain g s1 where
    1: "acquire_woken n h (s\<lparr>waiters := wl'\<rparr>) = Inr (g, s1)"
    and ok: "g = None \<Longrightarrow> sem_ok (P(b := None)) H s1"
    by (metis option.simps(4))
  have k: "keeps a s s1" by (rule woken_keeps [OF assms(1) Some w(2,3) 1 assms(4)])
  show ?thesis
  proof (cases g)
    case (Some g')
    with k 1 w(1) assms(3) show ?thesis by (simp add: acquire_resume_def)
  next
    case None
    with 1 w(1) assms(3) have "acquire_loop kind b n cx s1 = Inr (r, s')"
      by (simp add: acquire_resume_def)
    from loop_keeps [OF ok [OF None] _ this] have "keeps a s1 s'" by simp
    with k show ?thesis by (rule keeps_trans)
  qed
qed

lemma drop_keeps:
  assumes "sem_ok P H s" and "P b \<noteq> None" and "acquire_drop b s = Inr s'" and "a \<noteq> b"
  shows "keeps a s s'"
  using assms(1,2)
proof (cases rule: suspended_cases)
  case (parked xs n k ys)
  from drop_parked_ok [OF assms(1) parked] assms(3) show ?thesis by (auto simp: keeps_def)
next
  case (released h)
  note ok = sem_okD [OF assms(1)]
  have "filter (\<lambda>e. fst e \<noteq> b) (parked (wl_abs (waiters s))) = parked (wl_abs (waiters s))"
    using wl.disjoint_law [OF ok(1)] released by (intro filter_fst_neq) force
  with wl.cancel_released_law [OF ok(1), of b h] ok(2) released obtain wl' where
    w: "wait_cancel b (waiters s) = Inr (Output h, wl')" "wl_inv wl'"
    "wl_abs wl' = wl_abs (waiters s)\<lparr>released := (released (wl_abs (waiters s)))(b := None)\<rparr>"
    by (auto simp: borrowed_abs q_cancel_def)
  have l: "sem_ok (P(b := None)) (H + grant_weight b h) (s\<lparr>waiters := wl'\<rparr>)"
    by (rule leave_ok [OF assms(1) released w(2,3)])
  have "keeps a (s\<lparr>waiters := wl'\<rparr>) s'"
  proof (cases h)
    case (WakeUnfair t)
    with l w(1) assms(3) release_keeps [of "P(b := None)" H 0 "s\<lparr>waiters := wl'\<rparr>" Unfair s']
    show ?thesis by (simp add: acquire_drop_def grant_weight_def unfair_woken_drop_def)
  next
    case (WakeFair g)
    with l w(1) assms(3) release_keeps [of "P(b := None)" H "grant_permits g" "s\<lparr>waiters := wl'\<rparr>" Unfair s']
    show ?thesis by (simp add: acquire_drop_def grant_weight_def fair_grant_drop_def)
  qed
  with leave_keeps [OF w(3) assms(4)] show ?thesis by (rule keeps_trans)
qed


lemma sem_keep_future [simp]: "sem (keep_future a c r s S) = s"
  by (simp add: keep_future_def split: poll.split)

lemma guard_release_keeps:
  assumes "sys_ok S" and "g \<in># guards S" and "release_permits (sem S) (held_permits g) f = Inr s"
  shows "keeps a (sem S) s"
proof -
  from assms(1) have "sem_ok (acquiring S) (held S) (sem S)" by (simp add: sys_ok_def)
  moreover have "held S = held (S\<lparr>guards := guards S - {#g#}\<rparr>) + unat (held_permits g)"
    using assms(2) by (rule held_remove)
  ultimately show ?thesis
    using release_keeps [of "acquiring S" "held (S\<lparr>guards := guards S - {#g#}\<rparr>)" "held_permits g" "sem S" f s]
      assms(3) by simp
qed

lemma addition_keeps:
  assumes "sys_ok S" and "unat (total_permits (sem S)) + unat n < 2 ^ 64"
    and "release_permits (sem S\<lparr>total_permits := total_permits (sem S) + n\<rparr>) n f = Inr s"
  shows "keeps a (sem S) s"
proof -
  have "sem_ok (acquiring S) (held S + unat n) (sem S\<lparr>total_permits := total_permits (sem S) + n\<rparr>)"
    using assms(1,2) by (simp add: sys_ok_def sem_ok_def unat_add_no_wrap)
  from release_keeps [OF this assms(3), of a] show ?thesis by (simp add: keeps_def)
qed

lemma exec_keeps:
  assumes "sys_ok S" and "sem_enabled op S" and "sem_exec op S = Inr S'"
    and "\<forall>cx. op \<noteq> PollAcquire a cx" and "op \<noteq> DropAcquire a"
  shows "keeps a (sem S) (sem S')"
proof -
  from assms(1) have ok: "sem_ok (acquiring S) (held S) (sem S)" by (simp add: sys_ok_def)
  show ?thesis
  proof (cases op)
    case (TryAcquire n)
    with assms(3) sem_okD(1,2) [OF ok] try_keeps [of a "sem S" n] show ?thesis
      by (auto simp: try_acquire_eq keep_guard_def keeps_refl split: if_splits option.splits prod.splits)
  next
    case (TryAcquireUnfair n)
    with assms(3) try_keeps [of a "sem S" n] show ?thesis
      by (auto simp: keep_guard_def split: option.splits prod.splits)
  next
    case (Acquire kind b n cx)
    with assms(2,3) loop_keeps [OF ok, of b kind n cx] show ?thesis
      by (auto simp: first_poll_loop and_then_eq_Inr)
  next
    case (PollAcquire b cx)
    with assms(2) obtain kind n where b: "acquiring S b = Some (kind, n)" by auto
    with PollAcquire assms(3,4) resume_keeps [OF ok b, of cx _ _ a] show ?thesis
      by (auto simp: and_then_eq_Inr)
  next
    case (DropAcquire b)
    with assms(2,3,5) drop_keeps [OF ok, of b _ a] show ?thesis by (auto simp: and_then_eq_Inr)
  next
    case (DropPermit g)
    with assms(2,3) guard_release_keeps [OF assms(1), of g Unfair] show ?thesis by (auto simp: permit_drop_def and_then_eq_Inr)
  next
    case (ReleaseFair g)
    with assms(2,3) guard_release_keeps [OF assms(1), of g Fair] show ?thesis by (auto simp: release_fair_def and_then_eq_Inr)
  next
    case (Leak g)
    with assms(3) show ?thesis by (auto simp: leak_def and_then_eq_Inr keeps_refl)
  next
    case (AddPermits n)
    with assms(3) addition_keeps [OF assms(1), of n Unfair] show ?thesis
      by (auto simp: add_permits_def checked_add_def and_then_eq_Inr split: if_splits)
  next
    case (AddPermitsFair n)
    with assms(3) addition_keeps [OF assms(1), of n Fair] show ?thesis
      by (auto simp: add_permits_fair_def checked_add_def and_then_eq_Inr split: if_splits)
  qed
qed

text \<open>A waiter that holds a fair grant gets its permits at its next poll, whatever else it finds.\<close>

lemma grant_claims:
  assumes "sys_ok S" and "released (queue S) a = Some (WakeFair g)"
  shows "\<exists>kind S'. acquiring S a = Some (kind, grant_permits g) \<and>
     sem_exec (PollAcquire a cx) S = Inr S' \<and> acquiring S' a = None \<and>
     guards S' = add_mset (Permit (grant_permits g)) (guards S) \<and> permits (sem S') = permits (sem S)"
proof -
  from assms(1) have ok: "sem_ok (acquiring S) (held S) (sem S)" by (simp add: sys_ok_def)
  from sem_okD(3) [OF ok] assms(2) obtain kind where k: "acquiring S a = Some (kind, grant_permits g)"
    unfolding matches_def by blast
  from resume_released [OF ok assms(2), of cx] k show ?thesis
    by (auto simp: acquire_resume_def keep_future_def)
qed

section \<open>Scripts\<close>

definition sem_new :: "usize \<Rightarrow> sem_sys" where
  "sem_new n = \<lparr>sem = semaphore_new n, acquiring = Map.empty, guards = {#}\<rparr>"

abbreviation sem_script :: "(sem_op \<times> (sem_sys \<Rightarrow> bool)) list \<Rightarrow> sem_sys \<Rightarrow> sem_sys res" where
  "sem_script \<equiv> run_script sem_enabled sem_exec"

abbreviation sem_keeping_script :: "(sem_op \<times> (sem_sys \<Rightarrow> bool)) list \<Rightarrow> sem_sys \<Rightarrow> sem_sys res" where
  "sem_keeping_script \<equiv> run_script (\<lambda>op S. sem_enabled op S \<and> \<not> drops_head op S) sem_exec"

lemma sem_start_new: "sem_start (sem_new n)"
  by (auto simp: sem_start_def sem_new_def)

lemma sem_script_reachable:
  "sem_script calls (sem_new n) = Inr S \<Longrightarrow> reachable sem_start sem_step S"
  by (erule run_script_reachable) (auto intro: reach_start sem_start_new sem_call)

lemma sem_keeping_script_reachable:
  "sem_keeping_script calls (sem_new n) = Inr S \<Longrightarrow> reachable sem_start sem_keeping_step S"
  by (erule run_script_reachable) (auto intro: reach_start sem_start_new sem_keeping_call)

text \<open>What a test asserts: that a future is still pending, or was ready at its last poll.\<close>

definition pending :: "addr \<Rightarrow> sem_sys \<Rightarrow> bool" where
  "pending a S \<longleftrightarrow> acquiring S a \<noteq> None"

definition ready :: "addr \<Rightarrow> sem_sys \<Rightarrow> bool" where
  "ready a S \<longleftrightarrow> acquiring S a = None"

section \<open>Properties\<close>

text \<open>C19.
  Permits are conserved.  In every state that calls can lead to, the permits available, those in
  fair grants that were not claimed yet and those in live guards add up to the total, and the
  wait list is not borrowed.
\<close>

theorem sem_permits_conserved:
  assumes "reachable sem_start sem_step S"
  shows "unat (permits (sem S)) + granted (queue S) + (\<Sum>g\<in>#guards S. unat (held_permits g)) =
     unat (total_permits (sem S)) \<and> \<not> borrowed (waiters (sem S))"
  using sem_all.inv_reachable [OF assms] by (simp add: sys_ok_def sem_ok_def held_def)

theorem sem_permits_conserved_witness:
  "\<exists>S. reachable sem_start sem_step S \<and> guards S = {#Permit 2#} \<and>
     unat (permits (sem S)) + granted (queue S) + 2 = unat (total_permits (sem S))"
proof -
  have "passes (sem_script [(TryAcquireUnfair 2, any)] (sem_new 5)) (\<lambda>S. guards S = {#Permit 2#})"
    by code_simp
  then obtain S where S: "sem_script [(TryAcquireUnfair 2, any)] (sem_new 5) = Inr S" "guards S = {#Permit 2#}"
    by (rule passesE)
  from sem_script_reachable [OF S(1)] have r: "reachable sem_start sem_step S" .
  from sem_permits_conserved [OF r] r S(2) show ?thesis by auto
qed

text \<open>
  No call of the API panics, aborts or touches freed memory, in any reachable state, except
  that adding permits panics, as documented, exactly when the total would exceed a \<open>usize\<close>.  In
  particular none of the internal arithmetic wraps, the wait list is never found borrowed and
  \<open>unreachable!\<close> is not reached.
\<close>

theorem sem_calls_complete:
  assumes "reachable sem_start sem_step S" and "sem_enabled op S"
  shows "if overflows op S then \<exists>msg. sem_exec op S = Inl (Panic msg) else \<exists>S'. sem_exec op S = Inr S'"
  using sem_exec_overflow [of op S] sem_exec_ok [OF sem_all.inv_reachable [OF assms(1)] assms(2)]
  by (auto simp: completes_def)

theorem sem_calls_complete_witness:
  "\<exists>S. reachable sem_start sem_step S \<and> (\<exists>S'. sem_exec (AddPermits 4) S = Inr S') \<and>
     (\<exists>msg. sem_exec (AddPermits usize_max) S = Inl (Panic msg))"
proof -
  let ?S = "\<lparr>sem = semaphore_new 1, acquiring = Map.empty, guards = {#}\<rparr>"
  have r: "reachable sem_start sem_step ?S" by (rule reach_start) (auto simp: sem_start_def)
  have "\<exists>S'. sem_exec (AddPermits 4) ?S = Inr S'"
    using sem_calls_complete [OF r, of "AddPermits 4"] by (simp add: semaphore_new_def del: sem_exec.simps)
  moreover have "\<exists>msg. sem_exec (AddPermits usize_max) ?S = Inl (Panic msg)"
    using sem_calls_complete [OF r, of "AddPermits usize_max"]
    by (simp add: semaphore_new_def unat_usize_max del: sem_exec.simps)
  ultimately show ?thesis using r by blast
qed

text \<open>C2.
  No lost wake-up, as long as the future at the head of the queue is not dropped while it is
  parked: if waiters are parked, the available permits are fewer than what the head asks for plus
  what the woken waiters that have not run yet ask for.  So once every woken waiter has run, the
  head is parked only because its request cannot be met.
\<close>

theorem sem_no_lost_wakeup:
  assumes "reachable sem_start sem_keeping_step S" and "parked (queue S) = (a, n, k) # es"
  shows "unat (permits (sem S)) < unat n + offered (acquiring S) (queue S)"
  using sem_keeping.inv_reachable [OF assms(1)] assms(2) by (simp add: sys_settled_def settled_def)

theorem sem_no_lost_wakeup_witness:
  "\<exists>S k es. reachable sem_start sem_keeping_step S \<and> parked (queue S) = (2, 3, k) # es \<and>
     unat (permits (sem S)) < 3 + offered (acquiring S) (queue S)"
proof -
  let ?c = "[(Acquire FairAcquire 1 1 0, any), (Acquire FairAcquire 2 3 0, any)]"
  let ?c = "(TryAcquireUnfair 2, any) # ?c @ [(DropPermit (Permit 2), any)]"
  have "passes (sem_keeping_script ?c (sem_new 2)) (\<lambda>S. parked (queue S) = (2, 3, 0) # [])"
    by code_simp
  then obtain S where S: "sem_keeping_script ?c (sem_new 2) = Inr S" "parked (queue S) = (2, 3, 0) # []"
    by (rule passesE)
  from sem_keeping_script_reachable [OF S(1)] have r: "reachable sem_start sem_keeping_step S" .
  from sem_no_lost_wakeup [OF r S(2)] r S(2) show ?thesis by auto
qed

text \<open>
  Releasing \<open>n\<close> permits serves the queue: the longest prefix of the parked waiters whose requests
  fit, one after the other, into what is then available is woken in order, each with its grant
  (fair) or with an invitation to contend (unfair); a fair release keeps only the remainder
  available, an unfair one everything.
\<close>

theorem sem_release_serves_queue:
  assumes "wl_inv (waiters s)" and "\<not> borrowed (waiters s)" and "unat (permits s) + unat n < 2 ^ 64"
  shows "\<exists>s'. release_permits s n f = Inr s' \<and>
     wl_abs (waiters s') = q_serve f (permits s + n) (wl_abs (waiters s)) \<and>
     permits s' = (case f of Fair \<Rightarrow> remaining (permits s + n) (parked (wl_abs (waiters s)))
                   | Unfair \<Rightarrow> permits s + n) \<and>
     total_permits s' = total_permits s"
  using release_permits_serves [OF assms, of f] by (cases f) auto

theorem sem_release_serves_queue_witness:
  "\<exists>S s'. reachable sem_start sem_step S \<and> parked (queue S) = [(1, 1, 7), (2, 3, 8), (3, 1, 9)] \<and>
     release_permits (sem S) 3 Fair = Inr s' \<and> permits s' = 2 \<and>
     parked (wl_abs (waiters s')) = [(2, 3, 8), (3, 1, 9)] \<and> woken (waiters s') = [7]"
proof -
  let ?c = "[(Acquire FairAcquire 1 1 7, any), (Acquire FairAcquire 2 3 8, any), (Acquire FairAcquire 3 1 9, any)]"
  have "passes (sem_script ?c (sem_new 0)) (\<lambda>S. parked (queue S) = [(1, 1, 7), (2, 3, 8), (3, 1, 9)] \<and>
      permits (sem S) = 0 \<and> woken (waiters (sem S)) = [])"
    by code_simp
  then obtain S where S: "sem_script ?c (sem_new 0) = Inr S"
    "parked (queue S) = [(1, 1, 7), (2, 3, 8), (3, 1, 9)]" "permits (sem S) = 0" "woken (waiters (sem S)) = []"
    by (auto elim: passesE)
  from sem_script_reachable [OF S(1)] have r: "reachable sem_start sem_step S" .
  have ok: "wl_inv (waiters (sem S))" "\<not> borrowed (waiters (sem S))"
    using sem_all.inv_reachable [OF r] by (simp_all add: sys_ok_def sem_ok_def)
  from sem_release_serves_queue [OF ok, of 3 Fair] S(3) obtain s' where
    s': "release_permits (sem S) 3 Fair = Inr s'" "wl_abs (waiters s') = q_serve Fair 3 (queue S)"
    "permits s' = remaining 3 (parked (queue S))"
    by auto
  moreover have "woken (waiters s') = q_woken (wl_abs (waiters s'))" "q_woken (queue S) = []"
    using S(4) by (simp_all add: wl_abs_def)
  ultimately show ?thesis using r S(2) by (intro exI [of _ S] exI [of _ s']) (simp add: q_serve_def)
qed

text \<open>C26.
  A fair release hands permits over for good: once a waiter holds a grant, no call other than a
  poll or a drop of its own future takes it away, and that poll, whenever it comes, is ready with
  exactly the permits asked for and takes nothing from those available.
\<close>

theorem sem_fair_grant_kept:
  assumes "reachable sem_start sem_step S" and "released (queue S) a = Some (WakeFair g)"
  shows "(sem_enabled op S \<and> sem_exec op S = Inr S' \<and> (\<forall>cx. op \<noteq> PollAcquire a cx) \<and>
      op \<noteq> DropAcquire a \<longrightarrow> released (queue S') a = Some (WakeFair g)) \<and>
    (\<exists>kind S'. acquiring S a = Some (kind, grant_permits g) \<and>
      sem_exec (PollAcquire a cx) S = Inr S' \<and> acquiring S' a = None \<and>
      guards S' = add_mset (Permit (grant_permits g)) (guards S) \<and> permits (sem S') = permits (sem S))"
proof -
  note ok = sem_all.inv_reachable [OF assms(1)]
  have "released (queue S') a = Some (WakeFair g)"
    if "sem_enabled op S" "sem_exec op S = Inr S'" "\<forall>cx. op \<noteq> PollAcquire a cx" "op \<noteq> DropAcquire a"
    using exec_keeps [OF ok that(1,2), of a] that(3,4) assms(2) by (simp add: keeps_def)
  with grant_claims [OF ok assms(2), of cx] show ?thesis by blast
qed

theorem sem_fair_grant_kept_witness:
  "\<exists>S S1 S2. reachable sem_start sem_step S \<and> released (queue S) 1 = Some (WakeFair (FairGrant 2)) \<and>
     sem_exec (TryAcquireUnfair 1) S = Inr S1 \<and> released (queue S1) 1 = Some (WakeFair (FairGrant 2)) \<and>
     sem_exec (PollAcquire 1 5) S = Inr S2 \<and> guards S2 = add_mset (Permit 2) (guards S)"
proof -
  let ?c = "[(Acquire FairAcquire 1 2 7, any), (AddPermitsFair 3, any)]"
  have "passes (sem_script ?c (sem_new 0)) (\<lambda>S. released (queue S) 1 = Some (WakeFair (FairGrant 2)))"
    by code_simp
  then obtain S where S: "sem_script ?c (sem_new 0) = Inr S"
    "released (queue S) 1 = Some (WakeFair (FairGrant 2))"
    by (auto elim: passesE)
  from sem_script_reachable [OF S(1)] have r: "reachable sem_start sem_step S" .
  from sem_exec_ok [OF sem_all.inv_reachable [OF r], of "TryAcquireUnfair 1"] obtain S1 where
    1: "sem_exec (TryAcquireUnfair 1) S = Inr S1" by (auto simp: completes_def)
  note k = sem_fair_grant_kept [OF r S(2), of "TryAcquireUnfair 1" S1 5]
  from k 1 have "released (queue S1) 1 = Some (WakeFair (FairGrant 2))" by (simp del: sem_exec.simps)
  moreover from k obtain S2 where "sem_exec (PollAcquire 1 5) S = Inr S2" "guards S2 = add_mset (Permit 2) (guards S)"
    by (auto simp del: sem_exec.simps)
  ultimately show ?thesis using r S(2) 1 by blast
qed

text \<open>
  The first poll of \<open>acquire\<close> takes the permits exactly when nobody is parked and enough are
  available, that of \<open>acquire_unfair\<close> whenever enough are available; otherwise the future parks
  at the end of the queue and takes nothing.
\<close>

theorem sem_first_poll:
  assumes "reachable sem_start sem_step S" and "acquiring S a = None"
  shows "\<exists>s. first_poll kind a n cx (sem S) =
     (if (kind = UnfairAcquire \<or> parked (queue S) = []) \<and> n \<le> permits (sem S)
      then Inr (Ready (Permit n), sem S\<lparr>permits := permits (sem S) - n\<rparr>)
      else Inr (Pending, s)) \<and>
     wl_abs (waiters s) = q_start a n cx (queue S) \<and> permits s = permits (sem S)"
proof (cases "(kind = UnfairAcquire \<or> parked (queue S) = []) \<and> n \<le> permits (sem S)")
  case True
  have ok: "sem_ok (acquiring S) (held S) (sem S)"
    using sem_all.inv_reachable [OF assms(1)] by (simp add: sys_ok_def)
  have "a \<notin> q_addrs (queue S)" using sem_okD(3) [OF ok] assms(2) by (auto simp: matches_def)
  with wl.start_law [OF sem_okD(1) [OF ok], of a n cx] sem_okD(2) [OF ok] obtain l where
    "wl_abs l = q_start a n cx (queue S)"
    by (auto simp: borrowed_abs)
  with acquire_loop_takes [OF ok, of kind n a cx] True show ?thesis
    by (intro exI [of _ "sem S\<lparr>waiters := l\<rparr>"]) (simp add: first_poll_loop)
next
  case False
  have ok: "sem_ok (acquiring S) (held S) (sem S)"
    using sem_all.inv_reachable [OF assms(1)] by (simp add: sys_ok_def)
  from acquire_loop_parks [OF ok assms(2) False, of cx] False show ?thesis
    by (auto simp: first_poll_loop)
qed

theorem sem_first_poll_witness:
  "\<exists>s. first_poll FairAcquire 1 2 0 (sem (sem_new 5)) = Inr (Ready (Permit 2), s) \<and> permits s = 3"
proof -
  have r: "reachable sem_start sem_step (sem_new 5)" by (rule reach_start) (rule sem_start_new)
  have "acquiring (sem_new 5) 1 = None" "permits (sem (sem_new 5)) = 5"
    by (simp_all add: sem_new_def semaphore_new_def)
  moreover have "parked (queue (sem_new 5)) = []" by code_simp
  ultimately show ?thesis
    using sem_first_poll [OF r, of 1 FairAcquire 2 0] by auto
qed

section \<open>The wake-up that is lost\<close>

text \<open>
  The calls that bring no permits, take none past the queue, and do not drop the future at \<open>b\<close>:
  everybody may poll, queue up fairly, or drop another future.
\<close>

fun waits_in_line :: "addr \<Rightarrow> sem_op \<Rightarrow> bool" where
  "waits_in_line b (TryAcquire n) \<longleftrightarrow> True"
| "waits_in_line b (Acquire kind a n cx) \<longleftrightarrow> kind = FairAcquire"
| "waits_in_line b (PollAcquire a cx) \<longleftrightarrow> True"
| "waits_in_line b (DropAcquire a) \<longleftrightarrow> a \<noteq> b"
| "waits_in_line b (Leak g) \<longleftrightarrow> True"
| "waits_in_line b op \<longleftrightarrow> False"

inductive sem_waiting_step :: "addr \<Rightarrow> sem_sys \<Rightarrow> sem_sys \<Rightarrow> bool" for b where
  sem_waiting_call: "sem_enabled op S \<Longrightarrow> waits_in_line b op \<Longrightarrow> sem_exec op S = Inr S' \<Longrightarrow> sem_waiting_step b S S'"

inductive_cases sem_waiting_stepE: "sem_waiting_step b S S'"

text \<open>The future at \<open>b\<close> is parked at the head, nobody is on the way to run, and nobody was called.\<close>

definition stranded :: "addr \<Rightarrow> usize \<Rightarrow> usize \<Rightarrow> waker list \<Rightarrow> sem_sys \<Rightarrow> bool" where
  "stranded b w p ws S \<longleftrightarrow> sys_ok S \<and> permits (sem S) = p \<and> q_woken (queue S) = ws \<and>
     released (queue S) = Map.empty \<and> (\<exists>k es. parked (queue S) = (b, w, k) # es)"

lemma stranded_queue:
  assumes "stranded b w p ws S" and "sys_ok T" and "permits (sem T) = permits (sem S)"
    and "queue T = queue S\<lparr>parked := es\<rparr>" and "\<exists>k fs. es = (b, w, k) # fs"
  shows "stranded b w p ws T"
  using assms by (simp add: stranded_def)

lemma waiting_call_strands:
  assumes "stranded b w p ws S" and "sem_enabled op S" and "waits_in_line b op" and "sem_exec op S = Inr T"
  shows "stranded b w p ws T"
proof -
  from assms(1) have ok: "sem_ok (acquiring S) (held S) (sem S)" and r: "released (queue S) = Map.empty"
    by (simp_all add: stranded_def sys_ok_def)
  from assms(1) obtain k es where q: "parked (queue S) = (b, w, k) # es" by (auto simp: stranded_def)
  have T: "sys_ok T" using sem_exec_keeps(1) [OF assms(2,4)] assms(1) by (simp add: stranded_def)
  note keep = stranded_queue [OF assms(1) T]
  show ?thesis
  proof (cases op)
    case (TryAcquire n)
    with assms(4) q ok have "T = S" by (cases S) (auto simp: sem_ok_def try_acquire_eq keep_guard_def)
    with assms(1) show ?thesis by simp
  next
    case (Acquire kind a n cx)
    with assms(2,3) q acquire_loop_parks [OF ok, of a kind n cx] obtain l where
      "acquire_loop kind a n cx (sem S) = Inr (Pending, sem S\<lparr>waiters := l\<rparr>)" "wl_abs l = q_start a n cx (queue S)"
      by auto
    with Acquire assms(4) q show ?thesis
      by (intro keep [of "parked (queue S) @ [(a, n, cx)]"]) (auto simp: first_poll_loop keep_future_def q_start_def)
  next
    case (PollAcquire a cx)
    with assms(2) obtain kind n where c: "acquiring S a = Some (kind, n)" by auto
    from resume_parked [OF ok c, of cx] r obtain l where
      "acquire_resume kind a n cx (sem S) = Inr (Pending, sem S\<lparr>waiters := l\<rparr>)" "wl_abs l = snd (q_resume a cx (queue S))"
      by auto
    with PollAcquire assms(4) q c r show ?thesis
      by (intro keep [of "map (\<lambda>(c, i, k). (c, i, if c = a then cx else k)) (parked (queue S))"])
        (auto simp: keep_future_def q_resume_def)
  next
    case (DropAcquire a)
    with assms(2,3) have a: "acquiring S a \<noteq> None" "a \<noteq> b" by simp_all
    from ok a(1) obtain xs n l ys where x: "parked (queue S) = xs @ (a, n, l) # ys"
      by (rule suspended_cases) (auto simp: r)
    from drop_parked_ok [OF ok x] obtain wl where
      "acquire_drop a (sem S) = Inr (sem S\<lparr>waiters := wl\<rparr>)" "wl_abs wl = queue S\<lparr>parked := xs @ ys\<rparr>" by blast
    moreover have "\<exists>k fs. xs @ ys = (b, w, k) # fs" using x q a(2) by (cases xs) auto
    ultimately show ?thesis using DropAcquire assms(4) by (intro keep [of "xs @ ys"]) auto
  next
    case (Leak g)
    with assms(4) q show ?thesis
      by (intro keep [of "parked (queue S)"]) (auto simp: leak_def and_then_eq_Inr)
  qed (use assms(3) in simp_all)
qed

interpretation stranded: inductive_invariant "stranded b w p ws" "sem_waiting_step b" "stranded b w p ws"
  for b and w and p and ws
  by unfold_locales (auto elim!: sem_waiting_stepE intro: waiting_call_strands)

text \<open>C37.
  The wake-up that is lost.  Take any reachable state in which two futures are parked at the head of
  the queue, no woken future is on its way to run, and the permits that are there are enough for the
  second future, which waits only for the first.  Dropping the first succeeds, and leaves the second at
  the head of the queue, with the same permits and nobody called.  And so it stays: however everybody
  polls, queues up, tries to acquire fairly or drops other futures, no waker is ever called, the
  second future stays parked at the head, and its permits stay there for it in vain.
\<close>

theorem sem_cancelled_head_strands_permits:
  assumes "reachable sem_start sem_step S" and "parked (queue S) = (a, n, k) # (b, w, l) # es"
    and "released (queue S) = Map.empty" and "w \<le> permits (sem S)"
  shows "\<exists>S'. sem_enabled (DropAcquire a) S \<and> sem_exec (DropAcquire a) S = Inr S' \<and>
     parked (queue S') = (b, w, l) # es \<and> permits (sem S') = permits (sem S) \<and> guards S' = guards S \<and>
     (\<forall>T. (sem_waiting_step b)\<^sup>*\<^sup>* S' T \<longrightarrow>
        (\<exists>c fs. parked (queue T) = (b, w, c) # fs) \<and> w \<le> permits (sem T) \<and>
        woken (waiters (sem T)) = woken (waiters (sem S)))"
proof -
  have ok: "sem_ok (acquiring S) (held S) (sem S)"
    using sem_all.inv_reachable [OF assms(1)] by (simp add: sys_ok_def)
  have "acquiring S a \<noteq> None" using matches_parked [OF sem_okD(3) [OF ok], of a n k] assms(2) by auto
  then have e: "sem_enabled (DropAcquire a) S" by simp
  from drop_parked_ok [OF ok, of "[]" a n k "(b, w, l) # es"] assms(2) obtain wl where
    d: "acquire_drop a (sem S) = Inr (sem S\<lparr>waiters := wl\<rparr>)" "wl_abs wl = queue S\<lparr>parked := (b, w, l) # es\<rparr>"
    by auto
  let ?S = "S\<lparr>sem := sem S\<lparr>waiters := wl\<rparr>, acquiring := (acquiring S)(a := None)\<rparr>"
  have x: "sem_exec (DropAcquire a) S = Inr ?S" using d(1) by simp
  have "sys_ok ?S" by (rule sem_exec_keeps(1) [OF e x sem_all.inv_reachable [OF assms(1)]])
  then have "stranded b w (permits (sem S)) (q_woken (queue S)) ?S" using d(2) assms(3) by (simp add: stranded_def)
  then have "stranded b w (permits (sem S)) (q_woken (queue S)) T" if "(sem_waiting_step b)\<^sup>*\<^sup>* ?S T" for T
    using stranded.inv_steps [OF that] by blast
  moreover have "woken (waiters s) = q_woken (wl_abs (waiters s))" for s :: semaphore by (simp add: wl_abs_def)
  ultimately show ?thesis using e x d(2) assms(4) by (intro exI [of _ ?S]) (simp add: stranded_def)
qed

text \<open>One permit; a future that asks for two is parked, and behind it one that asks for one.\<close>

theorem sem_cancelled_head_strands_permits_witness:
  "\<exists>S S'. reachable sem_start sem_step S \<and> sem_exec (DropAcquire 1) S = Inr S' \<and> guards S' = {#} \<and>
     parked (queue S') = [(2, 1, 8)] \<and> permits (sem S') = 1 \<and>
     (\<forall>T. (sem_waiting_step 2)\<^sup>*\<^sup>* S' T \<longrightarrow> (\<exists>c fs. parked (queue T) = (2, 1, c) # fs) \<and> 1 \<le> permits (sem T))"
proof -
  let ?c = "[(Acquire FairAcquire 1 2 7, any), (Acquire FairAcquire 2 1 8, any)]"
  have "passes (sem_script ?c (sem_new 1)) (\<lambda>S. permits (sem S) = 1 \<and> parked (queue S) = [(1, 2, 7), (2, 1, 8)] \<and>
     guards S = {#} \<and> fBall (fmdom (mem (waiters (sem S)))) (\<lambda>a. released (queue S) a = None))"
    by code_simp
  then obtain S where S: "sem_script ?c (sem_new 1) = Inr S" "permits (sem S) = 1"
    "parked (queue S) = [(1, 2, 7), (2, 1, 8)]" "guards S = {#}" "fBall (fmdom (mem (waiters (sem S)))) (\<lambda>a. released (queue S) a = None)"
    by (elim passesE conjE) (rule that)
  have "released (queue S) = Map.empty" by (rule released_nobody [OF S(5)])
  from sem_cancelled_head_strands_permits [OF sem_script_reachable [OF S(1)] S(3) this] S(2,4)
    sem_script_reachable [OF S(1)] show ?thesis by fastforce
qed

section \<open>The unit tests of the crate\<close>

definition fair_grant_to_cancelled_waiter_is_not_leaked :: "sem_sys res" where
  "fair_grant_to_cancelled_waiter_is_not_leaked = sem_script
     [(TryAcquire 1, \<lambda>S. guards S = {#Permit 1#} \<and> available_permits (sem S) = 0),
      (Acquire FairAcquire 1 1 0, pending 1),
      (ReleaseFair (Permit 1), \<lambda>S. available_permits (sem S) = 0),
      (DropAcquire 1, \<lambda>S. available_permits (sem S) = 1),
      (TryAcquire 1, \<lambda>S. guards S = {#Permit 1#})] (sem_new 1)"

definition permits_from_cancelled_fair_waiter_wake_next_waiter :: "sem_sys res" where
  "permits_from_cancelled_fair_waiter_wake_next_waiter = sem_script
     [(TryAcquire 1, \<lambda>S. guards S = {#Permit 1#}),
      (Acquire FairAcquire 1 1 0, pending 1),
      (Acquire FairAcquire 2 1 0, pending 2),
      (ReleaseFair (Permit 1), \<lambda>S. available_permits (sem S) = 0),
      (DropAcquire 1, any),
      (PollAcquire 2 0, ready 2)] (sem_new 1)"

definition release_wakes_front_waiter_with_another_queued :: "sem_sys res" where
  "release_wakes_front_waiter_with_another_queued = sem_script
     [(TryAcquire 1, \<lambda>S. guards S = {#Permit 1#}),
      (Acquire FairAcquire 1 1 0, pending 1),
      (Acquire FairAcquire 2 1 0, pending 2),
      (DropPermit (Permit 1), any),
      (PollAcquire 1 0, ready 1)] (sem_new 1)"

definition cancelled_woken_waiter_does_not_strand_permit :: "sem_sys res" where
  "cancelled_woken_waiter_does_not_strand_permit = sem_script
     [(TryAcquire 1, \<lambda>S. guards S = {#Permit 1#}),
      (Acquire FairAcquire 1 1 0, pending 1),
      (Acquire FairAcquire 2 1 0, pending 2),
      (DropPermit (Permit 1), any),
      (DropAcquire 1, any),
      (PollAcquire 2 0, ready 2)] (sem_new 1)"

definition cancelled_woken_waiter_rewakes_across_queue :: "sem_sys res" where
  "cancelled_woken_waiter_rewakes_across_queue = sem_script
     [(TryAcquire 2, \<lambda>S. guards S = {#Permit 2#}),
      (Acquire FairAcquire 1 1 0, pending 1),
      (Acquire FairAcquire 2 1 0, pending 2),
      (Acquire FairAcquire 3 1 0, pending 3),
      (DropPermit (Permit 2), any),
      (DropAcquire 1, any),
      (PollAcquire 2 0, ready 2),
      (PollAcquire 3 0, ready 3)] (sem_new 2)"

definition parked_acquire_cancelled_then_release :: "sem_sys res" where
  "parked_acquire_cancelled_then_release = sem_script
     [(TryAcquire 1, \<lambda>S. guards S = {#Permit 1#}),
      (Acquire FairAcquire 1 1 0, pending 1),
      (Acquire FairAcquire 2 1 0, pending 2),
      (DropAcquire 1, any),
      (DropPermit (Permit 1), any),
      (PollAcquire 2 0, ready 2)] (sem_new 1)"

lemma semaphore_tests_pass:
  "\<not> isl fair_grant_to_cancelled_waiter_is_not_leaked"
  "\<not> isl permits_from_cancelled_fair_waiter_wake_next_waiter"
  "\<not> isl release_wakes_front_waiter_with_another_queued"
  "\<not> isl cancelled_woken_waiter_does_not_strand_permit"
  "\<not> isl cancelled_woken_waiter_rewakes_across_queue"
  "\<not> isl parked_acquire_cancelled_then_release"
  by code_simp+

section \<open>The examples of the documentation\<close>

text \<open>A guard that is a temporary is dropped at the end of its statement.\<close>

definition available_permits_example :: "sem_sys res" where
  "available_permits_example = and_then (assert_that (available_permits (semaphore_new 100) = 100) (sem_new 100)) (sem_script
     [(AddPermits 10, \<lambda>S. available_permits (sem S) = 110),
      (TryAcquire 20, \<lambda>S. available_permits (sem S) = 90 \<and> guards S = {#Permit 20#}),
      (DropPermit (Permit 20), \<lambda>S. available_permits (sem S) = 110),
      (TryAcquire 20, any),
      (Leak (Permit 20), \<lambda>S. available_permits (sem S) = 90)])"

definition total_permits_example :: "sem_sys res" where
  "total_permits_example = and_then (assert_that (total_permits (semaphore_new 100) = 100) (sem_new 100)) (sem_script
     [(AddPermits 10, \<lambda>S. total_permits (sem S) = 110),
      (TryAcquire 20, \<lambda>S. total_permits (sem S) = 110 \<and> guards S = {#Permit 20#}),
      (DropPermit (Permit 20), \<lambda>S. total_permits (sem S) = 110),
      (TryAcquire 20, any),
      (Leak (Permit 20), \<lambda>S. total_permits (sem S) = 90)])"

definition add_permits_fair_example :: "sem_sys res" where
  "add_permits_fair_example = sem_script
     [(TryAcquire 2, \<lambda>S. guards S = {#Permit 2#}),
      (TryAcquire 2, \<lambda>S. guards S = {#Permit 2#}),
      (AddPermitsFair 2, any),
      (TryAcquire 2, \<lambda>S. guards S = {#Permit 2, Permit 2#}),
      (DropPermit (Permit 2), any),
      (DropPermit (Permit 2), any)] (sem_new 3)"

definition try_acquire_example :: "sem_sys res" where
  "try_acquire_example = sem_script
     [(TryAcquire 2, \<lambda>S. guards S = {#Permit 2#}),
      (TryAcquire 2, \<lambda>S. guards S = {#Permit 2#}),
      (DropPermit (Permit 2), any),
      (TryAcquire 2, \<lambda>S. guards S = {#Permit 2#}),
      (DropPermit (Permit 2), any)] (sem_new 3)"

definition try_acquire_unfair_example :: "sem_sys res" where
  "try_acquire_unfair_example = sem_script
     [(Acquire FairAcquire 1 2 0, pending 1),
      (TryAcquire 1, \<lambda>S. guards S = {#}),
      (TryAcquireUnfair 1, \<lambda>S. guards S = {#Permit 1#}),
      (DropPermit (Permit 1), any),
      (DropAcquire 1, any),
      (TryAcquire 1, \<lambda>S. guards S = {#Permit 1#}),
      (DropPermit (Permit 1), any)] (sem_new 1)"

definition acquire_example :: "sem_sys res" where
  "acquire_example = sem_script
     [(Acquire FairAcquire 1 1 0, ready 1),
      (TryAcquire 1, \<lambda>S. guards S = {#Permit 1#}),
      (DropPermit (Permit 1), any)] (sem_new 1)"

definition acquire_unfair_example :: "sem_sys res" where
  "acquire_unfair_example = sem_script
     [(Acquire FairAcquire 1 2 0, pending 1),
      (TryAcquire 1, \<lambda>S. guards S = {#}),
      (Acquire UnfairAcquire 2 1 0, ready 2),
      (DropPermit (Permit 1), any),
      (DropAcquire 1, any),
      (TryAcquire 1, \<lambda>S. guards S = {#Permit 1#}),
      (DropPermit (Permit 1), any)] (sem_new 1)"

definition permit_example :: "sem_sys res" where
  "permit_example = sem_script
     [(TryAcquire 1, \<lambda>S. guards S = {#Permit 1#}),
      (Acquire FairAcquire 1 1 0, pending 1),
      (DropPermit (Permit 1), any),
      (Acquire FairAcquire 2 1 0, ready 2),
      (DropPermit (Permit 1), any),
      (PollAcquire 1 0, ready 1),
      (DropPermit (Permit 1), any)] (sem_new 1)"

definition permits_example :: "sem_sys res" where
  "permits_example = sem_script
     [(TryAcquire 20, \<lambda>S. available_permits (sem S) = 80 \<and> total_permits (sem S) = 100 \<and> guards S = {#Permit 20#}),
      (DropPermit (Permit 20), \<lambda>S. available_permits (sem S) = 100 \<and> total_permits (sem S) = 100)] (sem_new 100)"

definition leak_example :: "sem_sys res" where
  "leak_example = and_then (assert_that (available_permits (semaphore_new 100) = 100 \<and> total_permits (semaphore_new 100) = 100) (sem_new 100)) (sem_script
     [(TryAcquire 20, any),
      (Leak (Permit 20), \<lambda>S. available_permits (sem S) = 80 \<and> total_permits (sem S) = 80)])"

definition release_fair_example :: "sem_sys res" where
  "release_fair_example = sem_script
     [(TryAcquire 1, \<lambda>S. guards S = {#Permit 1#}),
      (Acquire FairAcquire 1 1 0, pending 1),
      (ReleaseFair (Permit 1), any),
      (Acquire FairAcquire 2 1 0, pending 2),
      (PollAcquire 1 0, ready 1),
      (DropPermit (Permit 1), any),
      (PollAcquire 2 0, ready 2),
      (DropPermit (Permit 1), any)] (sem_new 1)"

lemma semaphore_examples_pass:
  "\<not> isl available_permits_example"
  "\<not> isl total_permits_example"
  "\<not> isl add_permits_fair_example"
  "\<not> isl try_acquire_example"
  "\<not> isl try_acquire_unfair_example"
  "\<not> isl acquire_example"
  "\<not> isl acquire_unfair_example"
  "\<not> isl permit_example"
  "\<not> isl permits_example"
  "\<not> isl leak_example"
  "\<not> isl release_fair_example"
  by code_simp+

end
