(* ===== verification/Semaphore_Tasks.thy ===== *)
theory Semaphore_Tasks
  imports Semaphore_System Wait_List_Rouse
begin

text \<open>
  Tasks that share a semaphore, on an executor that runs any task that was woken since it was last
  run.  Each task works through a list of jobs: it acquires the permits of a job, fairly or not, may
  hold them while it yields, and gives them back, fairly or not.  Task \<open>k\<close> has the waker \<open>k\<close>, and its
  acquire futures live one after the other at the address \<open>k\<close>.
\<close>

section \<open>The tasks\<close>

record job =
  wants :: usize
  kind_of :: acquire_kind
  yields :: bool
  gives :: fairness

datatype worker = Working "job list" | Waiting job "job list" | Holding permit fairness "job list"

fun give :: "fairness \<Rightarrow> permit \<Rightarrow> semaphore \<Rightarrow> semaphore res" where
  "give Fair guard s = release_fair guard s"
| "give Unfair guard s = permit_drop guard s"

definition carry_on ::
  "(semaphore \<Rightarrow> (worker \<times> bool \<times> semaphore) res) \<Rightarrow> job \<Rightarrow> job list \<Rightarrow> permit poll \<times> semaphore \<Rightarrow>
   (worker \<times> bool \<times> semaphore) res" where
  "carry_on rest j js rs =
     (case fst rs of
        Pending \<Rightarrow> Inr (Waiting j js, False, snd rs)
      | Ready guard \<Rightarrow>
          if yields j then Inr (Holding guard (gives j) js, True, snd rs)
          else and_then (give (gives j) guard (snd rs)) rest)"

fun labor :: "addr \<Rightarrow> job list \<Rightarrow> semaphore \<Rightarrow> (worker \<times> bool \<times> semaphore) res" where
  "labor k [] s = Inr (Working [], False, s)"
| "labor k (j # js) s = and_then (first_poll (kind_of j) k (wants j) k s) (carry_on (\<lambda>s. labor k js s) j js)"

fun worker_poll :: "addr \<Rightarrow> worker \<Rightarrow> semaphore \<Rightarrow> (worker \<times> bool \<times> semaphore) res" where
  "worker_poll k (Working js) s = labor k js s"
| "worker_poll k (Waiting j js) s =
     and_then (acquire_resume (kind_of j) k (wants j) k s) (carry_on (\<lambda>s. labor k js s) j js)"
| "worker_poll k (Holding guard f js) s = and_then (give f guard s) (labor k js)"

section \<open>The executor\<close>

record pool =
  desk :: semaphore
  worker :: "nat \<Rightarrow> worker"
  crew :: "nat set"
  awake :: "waker set"

fun is_free :: "worker \<Rightarrow> bool" where
  "is_free (Working []) = True"
| "is_free w = False"

definition runnable :: "nat \<Rightarrow> pool \<Rightarrow> bool" where
  "runnable k S \<longleftrightarrow> k \<in> crew S \<and> k \<in> awake S \<and> \<not> is_free (worker S k)"

definition run_worker :: "nat \<Rightarrow> pool \<Rightarrow> pool res" where
  "run_worker k S =
     and_then (worker_poll k (worker S k) (desk S)) (\<lambda>(w, again, s).
     Inr (S\<lparr>desk := s, worker := (worker S)(k := w),
       awake := awake S - {k} \<union> (if again then {k} else {}) \<union>
         set (drop (length (woken (waiters (desk S)))) (woken (waiters s)))\<rparr>))"

definition hire :: "usize \<Rightarrow> nat \<Rightarrow> (nat \<Rightarrow> job list) \<Rightarrow> pool" where
  "hire N n plan =
     \<lparr>desk = semaphore_new N, worker = (\<lambda>k. Working (plan k)), crew = {..<n}, awake = {..<n}\<rparr>"

text \<open>A job that asks for more permits than there are would wait for ever.\<close>

definition pool_start :: "usize \<Rightarrow> nat \<Rightarrow> (nat \<Rightarrow> job list) \<Rightarrow> pool \<Rightarrow> bool" where
  "pool_start N n plan S \<longleftrightarrow>
     S = hire N n plan \<and> (\<forall>k<n. \<forall>j\<in>set (plan k). wants j \<le> N)"

inductive pool_step :: "pool \<Rightarrow> pool \<Rightarrow> bool" where
  run_worker: "runnable k S \<Longrightarrow> run_worker k S = Inr S' \<Longrightarrow> pool_step S S'"

inductive_cases pool_stepE: "pool_step S S'"

fun run_workers :: "nat list \<Rightarrow> pool \<Rightarrow> pool res" where
  "run_workers [] S = Inr S"
| "run_workers (k # ks) S =
     (if runnable k S then and_then (run_worker k S) (run_workers ks) else Inl (Panic ''asleep''))"

definition contended :: "nat \<Rightarrow> job list" where
  "contended k =
     (if k = 0 then [\<lparr>wants = 2, kind_of = FairAcquire, yields = True, gives = Unfair\<rparr>]
      else [\<lparr>wants = 1, kind_of = UnfairAcquire, yields = True, gives = Fair\<rparr>,
            \<lparr>wants = 2, kind_of = FairAcquire, yields = False, gives = Unfair\<rparr>])"

section \<open>What a call does to the other tasks\<close>

abbreviation pq :: "semaphore \<Rightarrow> (usize, wake_up) wait_queue" where
  "pq s \<equiv> wl_abs (waiters s)"

lemma serve_rouses:
  assumes "pq s' = q_serve f p (pq s)"
  shows "rouses k (pq s) (pq s')" and "own_wakers (pq s) \<Longrightarrow> own_wakers (pq s')"
  using rouses_front [where q = "pq s" and es = "served p (parked (pq s))" and q' = "pq s'"] assms
    served_append_drop [of p "parked (pq s)"]
  by (simp_all add: q_serve_def Let_def)

lemma served_fits: "(a, w, k) \<in> set (served p es) \<Longrightarrow> w \<le> p"
proof (induction p es rule: served.induct)
  case (2 p b v c es)
  then show ?case
    by (auto simp: usize_le_iff unat_sub_no_wrap split: if_splits)
qed simp

section \<open>The waiters that a poll will disappoint\<close>

text \<open>They hold an unfair wake-up, and others took the permits meanwhile.\<close>

definition doomed :: "clients \<Rightarrow> semaphore \<Rightarrow> addr set" where
  "doomed P s = {a. \<exists>kind n t. P a = Some (kind, n) \<and> released (pq s) a = Some (WakeUnfair t) \<and> \<not> n \<le> permits s}"

lemma doomed_serve:
  assumes "wl_inv (waiters s)" and "matches P (pq s)" and "pq s' = q_serve Unfair (permits s) (pq s)"
    and "permits s' = permits s"
  shows "doomed P s' \<subseteq> doomed P s"
proof
  fix a assume "a \<in> doomed P s'"
  then obtain kind n t where a: "P a = Some (kind, n)" "released (pq s') a = Some (WakeUnfair t)" "\<not> n \<le> permits s"
    unfolding doomed_def assms(4) by blast
  let ?es = "served (permits s) (parked (pq s))"
  show "a \<in> doomed P s"
  proof (cases "map_of (handed Unfair ?es) a")
    case None
    with a assms(3) have "released (pq s) a = Some (WakeUnfair t)"
      by (simp add: q_serve_def Let_def map_add_def)
    with a show ?thesis by (auto simp: doomed_def)
  next
    case (Some h)
    then obtain w k where e: "(a, w, k) \<in> set ?es" by (auto dest!: map_of_SomeD simp: handed_def)
    then have "(a, w, k) \<in> set (parked (pq s))" using served_subset by blast
    with matches_parked [OF assms(2), of a w k] a(1) have "w = n" by auto
    with served_fits [OF e] a(3) show ?thesis by simp
  qed
qed

section \<open>One poll of a task\<close>

fun future_of :: "worker \<Rightarrow> (acquire_kind \<times> usize) option" where
  "future_of (Waiting j js) = Some (kind_of j, wants j)"
| "future_of w = None"

fun in_hand :: "worker \<Rightarrow> nat" where
  "in_hand (Holding guard f js) = unat (held_permits guard)"
| "in_hand w = 0"

fun is_holding :: "worker \<Rightarrow> bool" where
  "is_holding (Holding guard f js) = True"
| "is_holding w = False"

fun jobs_of :: "worker \<Rightarrow> job list" where
  "jobs_of (Working js) = js"
| "jobs_of (Waiting j js) = j # js"
| "jobs_of (Holding guard f js) = js"

text \<open>
  What a poll of task \<open>k\<close> leads to from \<open>s\<close>, where \<open>P\<close> and \<open>H\<close> are the futures and the permits in
  the hands of the other tasks.
\<close>

definition done_well ::
  "clients \<Rightarrow> nat \<Rightarrow> addr \<Rightarrow> job list \<Rightarrow> semaphore \<Rightarrow> worker \<times> bool \<times> semaphore \<Rightarrow> bool" where
  "done_well P H k js s r \<longleftrightarrow> (case r of (w, again, s') \<Rightarrow>
     sem_ok (P(k := future_of w)) (H + in_hand w) s' \<and> settled (P(k := future_of w)) s' \<and>
     total_permits s' = total_permits s \<and> own_wakers (pq s') \<and> rouses k (pq s) (pq s') \<and>
     (again \<or> is_free w \<or> k \<in> fst ` set (parked (pq s'))) \<and>
     set (jobs_of w) \<subseteq> set js \<and> length (jobs_of w) \<le> length js)"

text \<open>Nothing was acquired: the task has at most queued up.\<close>

definition queued :: "addr \<Rightarrow> semaphore \<Rightarrow> worker \<times> bool \<times> semaphore \<Rightarrow> bool" where
  "queued k s r \<longleftrightarrow> (case r of (w, again, s') \<Rightarrow>
     released (pq s) k = None \<and> \<not> again \<and> \<not> is_holding w \<and> permits s' = permits s \<and> released (pq s') = released (pq s) \<and>
     q_woken (pq s') = q_woken (pq s))"

lemma give_ok:
  assumes "sem_ok P (H + unat (held_permits guard)) s" and "own_wakers (pq s)"
  obtains s' where "give f guard s = Inr s'" and "sem_ok P H s'" and "settled P s'"
    and "total_permits s' = total_permits s" and "rouses k (pq s) (pq s')" and "own_wakers (pq s')"
proof -
  have "give f guard s = release_permits s (held_permits guard) f"
    by (cases f) (simp_all add: release_fair_def permit_drop_def)
  with release_ok [OF assms(1), of f] serve_rouses assms(2) show thesis by (metis that)
qed

lemma done_well_after:
  assumes "done_well P H k js t r" and "rouses k (pq s) (pq t)" and "total_permits t = total_permits s" and "set js \<subseteq> set js'"
    and "length js \<le> length js'"
  shows "done_well P H k js' s r"
  using assms rouses_trans [OF assms(2)] by (auto simp: done_well_def)

text \<open>The permits of a job were acquired, and \<open>rest\<close> are the other jobs.\<close>

lemma carry_on_ok:
  assumes "sem_ok P (H + unat (held_permits guard)) s" and "settled P s" and "P k = None" and "own_wakers (pq s)"
    and rest: "\<And>t. sem_ok P H t \<Longrightarrow> settled P t \<Longrightarrow> own_wakers (pq t) \<Longrightarrow> \<exists>r. rest t = Inr r \<and> done_well P H k js t r"
  shows "\<exists>r. carry_on rest j js (Ready guard, s) = Inr r \<and> done_well P H k js s r"
proof (cases "yields j")
  case True
  have "P(k := None) = P" using assms(3) by (simp add: fun_upd_idem)
  with True assms(1,2,4) show ?thesis by (simp add: carry_on_def done_well_def rouses_refl)
next
  case False
  obtain t where t: "give (gives j) guard s = Inr t" "sem_ok P H t" "settled P t"
    "total_permits t = total_permits s" "rouses k (pq s) (pq t)" "own_wakers (pq t)"
    by (rule give_ok [OF assms(1,4)])
  from rest [OF t(2,3,6)] obtain r where "rest t = Inr r" "done_well P H k js t r" by blast
  with False t done_well_after [of P H k js t r s js] show ?thesis by (simp add: carry_on_def)
qed

text \<open>Or the task queues up for them.\<close>

lemma stranger_not_released: "sem_ok P H s \<Longrightarrow> P k = None \<Longrightarrow> released (pq s) k = None"
  by (auto simp: sem_ok_def matches_def q_addrs_def)

lemma queue_up_ok:
  assumes "sem_ok P H s" and "settled P s" and "P k = None" and "own_wakers (pq s)"
    and "\<not> ((kind_of j = UnfairAcquire \<or> parked (pq s) = []) \<and> wants j \<le> permits s)"
  shows "\<exists>t. acquire_loop (kind_of j) k (wants j) k s = Inr (Pending, t) \<and>
     done_well P H k (j # js) s (Waiting j js, False, t) \<and> queued k s (Waiting j js, False, t)"
proof -
  from acquire_loop_parks [OF assms(1,3,5), of k] obtain wl' where
    w: "acquire_loop (kind_of j) k (wants j) k s = Inr (Pending, s\<lparr>waiters := wl'\<rparr>)"
    "wl_inv wl'" "\<not> borrowed wl'" "wl_abs wl' = q_start k (wants j) k (pq s)"
    by blast
  have r: "rouses k (pq s) (pq (s\<lparr>waiters := wl'\<rparr>))" using w(4) by (simp add: rouses_start)
  have "own_wakers (pq (s\<lparr>waiters := wl'\<rparr>))" using assms(4) w(4) by (simp add: rouses_start)
  moreover have "sem_ok (P(k \<mapsto> (kind_of j, wants j))) H (s\<lparr>waiters := wl'\<rparr>)"
    by (rule park_ok [OF assms(1,3) w(2-4)])
  moreover have "settled (P(k \<mapsto> (kind_of j, wants j))) (s\<lparr>waiters := wl'\<rparr>)"
    by (rule park_settled [OF assms(1,3,2) w(4)]) (use assms(5) in blast)
  ultimately show ?thesis
    using w(1,4) r stranger_not_released [OF assms(1,3)] by (simp add: done_well_def queued_def q_start_def)
qed

lemma labor_ok:
  assumes "sem_ok P H s" and "settled P s" and "P k = None" and "own_wakers (pq s)"
  shows "\<exists>r. labor k js s = Inr r \<and> done_well P H k js s r \<and> (length (jobs_of (fst r)) < length js \<or> queued k s r)"
  using assms
proof (induction js arbitrary: s)
  case Nil
  have "P(k := None) = P" using Nil.prems(3) by (simp add: fun_upd_idem)
  with Nil.prems stranger_not_released [OF Nil.prems(1,3)] show ?case
    by (simp add: done_well_def queued_def rouses_refl)
next
  case (Cons j js)
  show ?case
  proof (cases "(kind_of j = UnfairAcquire \<or> parked (pq s) = []) \<and> wants j \<le> permits s")
    case True
    let ?s = "s\<lparr>permits := permits s - wants j\<rparr>"
    have l: "acquire_loop (kind_of j) k (wants j) k s = Inr (Ready (Permit (wants j)), ?s)"
      using acquire_loop_takes [OF Cons.prems(1)] True by blast
    have t: "sem_ok P (H + unat (held_permits (Permit (wants j)))) ?s" "settled P ?s" "own_wakers (pq ?s)"
      using take_ok [OF Cons.prems(1), of "wants j"] True Cons.prems(2,4) by (simp_all add: own_wakers_def)
    have "\<exists>r. carry_on (\<lambda>s. labor k js s) j js (Ready (Permit (wants j)), ?s) = Inr r \<and> done_well P H k js ?s r"
      by (rule carry_on_ok [OF t(1,2) Cons.prems(3) t(3)]) (use Cons.IH Cons.prems(3) in blast)
    then obtain r where r: "carry_on (\<lambda>s. labor k js s) j js (Ready (Permit (wants j)), ?s) = Inr r" "done_well P H k js ?s r"
      by blast
    then have "length (jobs_of (fst r)) < length (j # js)" by (auto simp: done_well_def split: prod.splits)
    moreover have "done_well P H k (j # js) s r"
      by (rule done_well_after [OF r(2)]) (auto simp: rouses_refl)
    ultimately show ?thesis using l r(1) by (simp add: first_poll_loop)
  next
    case False
    from queue_up_ok [OF Cons.prems False, of js] show ?thesis
      by (auto simp: first_poll_loop carry_on_def)
  qed
qed

text \<open>A poll of a task that waits: still parked, or woken in vain, or served.\<close>

definition disappointed :: "clients \<Rightarrow> addr \<Rightarrow> semaphore \<Rightarrow> worker \<times> bool \<times> semaphore \<Rightarrow> bool" where
  "disappointed P k s r \<longleftrightarrow> (case r of (w, again, s') \<Rightarrow>
     \<not> again \<and> \<not> is_holding w \<and> k \<in> doomed P s \<and> doomed (P(k := future_of w)) s' \<subseteq> doomed P s - {k})"

definition poll_ok :: "clients \<Rightarrow> nat \<Rightarrow> addr \<Rightarrow> job \<Rightarrow> job list \<Rightarrow> semaphore \<Rightarrow> bool" where
  "poll_ok P H k j js s \<longleftrightarrow> (\<exists>r. worker_poll k (Waiting j js) s = Inr r \<and> done_well (P(k := None)) H k (j # js) s r \<and>
     (length (jobs_of (fst r)) \<le> length js \<or> queued k s r \<or> disappointed P k s r))"

lemma poll_parked_ok:
  assumes "sem_ok P H s" and "settled P s" and "P k = Some (kind_of j, wants j)" and "own_wakers (pq s)"
    and "released (pq s) k = None"
  shows "poll_ok P H k j js s"
proof -
  from resume_parked [OF assms(1,3,5), of k] obtain wl' where
    r: "acquire_resume (kind_of j) k (wants j) k s = Inr (Pending, s\<lparr>waiters := wl'\<rparr>)"
    "sem_ok P H (s\<lparr>waiters := wl'\<rparr>)" "settled P (s\<lparr>waiters := wl'\<rparr>)" "wl_abs wl' = snd (q_resume k k (pq s))"
    using assms(2) by blast
  have q: "wl_abs wl' = pq s" using r(4) resume_own [OF assms(4,5)] by simp
  have "P(k \<mapsto> (kind_of j, wants j)) = P" using assms(3) by auto
  moreover from matches_fst [OF sem_okD(3) [OF assms(1)] assms(3,5)] obtain c where
    "(k, wants j, c) \<in> set (parked (pq s))" .
  then have "k \<in> fst ` set (parked (pq s))" by force
  ultimately show ?thesis
    using r(1-3) q assms(4,5)
    by (simp add: poll_ok_def carry_on_def done_well_def queued_def own_wakers_def rouses_refl)
qed

lemma poll_served_ok:
  assumes "acquire_resume (kind_of j) k (wants j) k s = Inr (Ready guard, t)" and "rouses k (pq s) (pq t)"
    and "total_permits t = total_permits s"
    and t: "sem_ok (P(k := None)) (H + unat (held_permits guard)) t" "settled (P(k := None)) t" "own_wakers (pq t)"
  shows "poll_ok P H k j js s"
proof -
  have k: "(P(k := None)) k = None" by simp
  have "\<exists>r. labor k js u = Inr r \<and> done_well (P(k := None)) H k js u r"
    if "sem_ok (P(k := None)) H u" "settled (P(k := None)) u" "own_wakers (pq u)" for u
    using labor_ok [OF that(1,2) k that(3), of js] by blast
  from carry_on_ok [OF t(1,2) k t(3) this]
  have "\<exists>r. carry_on (\<lambda>s. labor k js s) j js (Ready guard, t) = Inr r \<and> done_well (P(k := None)) H k js t r" .
  then obtain r where r: "carry_on (\<lambda>s. labor k js s) j js (Ready guard, t) = Inr r" "done_well (P(k := None)) H k js t r"
    by blast
  then have "length (jobs_of (fst r)) \<le> length js" by (auto simp: done_well_def split: prod.splits)
  moreover have "done_well (P(k := None)) H k (j # js) s r"
    by (rule done_well_after [OF r(2) assms(2,3)]) auto
  ultimately show ?thesis using assms(1) r(1) by (simp add: poll_ok_def)
qed

lemma poll_in_vain_ok:
  assumes "sem_ok P H s" and "settled P s" and "P k = Some (kind_of j, wants j)" and "own_wakers (pq s)"
    and "released (pq s) k = Some (WakeUnfair t)" and "\<not> wants j \<le> permits s"
  shows "poll_ok P H k j js s"
proof -
  let ?P = "P(k := None)"
  from resume_released [OF assms(1,5), of k] obtain wl' where
    w: "wait_resume k k (waiters s) = Inr (Ready (WakeUnfair t), wl')" "wl_inv wl'"
    "wl_abs wl' = pq s\<lparr>released := (released (pq s))(k := None)\<rparr>"
    by blast
  let ?s = "s\<lparr>waiters := wl'\<rparr>"
  have l: "sem_ok ?P H ?s" using leave_ok [OF assms(1,5) w(2,3)] by (simp add: grant_weight_def)
  from release_ok [of ?P H 0 ?s Unfair] l obtain u where
    u: "release_permits ?s 0 Unfair = Inr u" "sem_ok ?P H u" "settled ?P u" "total_permits u = total_permits s"
    "pq u = q_serve Unfair (permits ?s) (pq ?s)" "permits u = permits ?s"
    by auto
  have own: "own_wakers (pq u)" using assms(4) w(3) by (intro serve_rouses(2) [OF u(5)]) (simp add: own_wakers_def)
  have ru: "rouses k (pq s) (pq u)"
    by (rule rouses_trans [OF rouses_same serve_rouses(1) [OF u(5)]]) (simp_all add: w(3))
  have "\<not> ((kind_of j = UnfairAcquire \<or> parked (pq u) = []) \<and> wants j \<le> permits u)" using assms(6) u(6) by simp
  from queue_up_ok [OF u(2,3) _ own this, of k js] obtain v where
    v: "acquire_loop (kind_of j) k (wants j) k u = Inr (Pending, v)"
    "done_well ?P H k (j # js) u (Waiting j js, False, v)" "queued k u (Waiting j js, False, v)"
    by auto
  have "acquire_resume (kind_of j) k (wants j) k s = Inr (Pending, v)"
    using w(1) assms(6) u(1) v(1) by (simp add: acquire_resume_def refuse_eq unfair_woken_drop_def)
  then have p: "worker_poll k (Waiting j js) s = Inr (Waiting j js, False, v)" by (simp add: carry_on_def)
  have "doomed (P(k \<mapsto> (kind_of j, wants j))) v \<subseteq> doomed P s - {k}"
  proof
    fix a assume "a \<in> doomed (P(k \<mapsto> (kind_of j, wants j))) v"
    then obtain kind n t where a: "(P(k \<mapsto> (kind_of j, wants j))) a = Some (kind, n)"
      "released (pq v) a = Some (WakeUnfair t)" "\<not> n \<le> permits v"
      unfolding doomed_def by blast
    have "k \<in> fst ` set (parked (pq v))" "wl_inv (waiters v)" using v(2) by (auto simp: done_well_def sem_ok_def)
    then obtain e where "e \<in> set (parked (pq v))" "k = fst e" by blast
    then have "released (pq v) k = None" using wl.disjoint_law [OF \<open>wl_inv (waiters v)\<close>] by simp
    with a(2) have "a \<noteq> k" by auto
    with a v(3) have "a \<in> doomed ?P u" by (auto simp: doomed_def queued_def)
    then have "a \<in> doomed ?P ?s" using doomed_serve [OF sem_okD(1,3) [OF l] u(5,6)] by blast
    with \<open>a \<noteq> k\<close> w(3) show "a \<in> doomed P s - {k}" by (auto simp: doomed_def)
  qed
  moreover have "k \<in> doomed P s" using assms(3,5,6) by (auto simp: doomed_def)
  ultimately have "disappointed P k s (Waiting j js, False, v)" by (simp add: disappointed_def)
  moreover have "done_well ?P H k (j # js) s (Waiting j js, False, v)"
    by (rule done_well_after [OF v(2) ru u(4)]) simp_all
  ultimately show ?thesis using p by (auto simp: poll_ok_def)
qed

lemma poll_waiting_ok:
  assumes "sem_ok P H s" and "settled P s" and "P k = Some (kind_of j, wants j)" and "own_wakers (pq s)"
  shows "poll_ok P H k j js s"
proof (cases "released (pq s) k")
  case None
  with poll_parked_ok [OF assms] show ?thesis .
next
  case (Some h)
  from resume_released [OF assms(1) Some, of k] obtain wl' where
    w: "wait_resume k k (waiters s) = Inr (Ready h, wl')" "wl_inv wl'"
    "wl_abs wl' = pq s\<lparr>released := (released (pq s))(k := None)\<rparr>"
    by blast
  let ?P = "P(k := None)" and ?s = "s\<lparr>waiters := wl'\<rparr>"
  note l = leave_ok [OF assms(1) Some w(2,3)] and ls = leave_settled [OF assms(1) Some assms(2) w(3)]
  have r: "rouses k (pq s) (pq ?s)" "own_wakers (pq ?s)" using assms(4) w(3) by (simp_all add: rouses_same own_wakers_def)
  show ?thesis
  proof (cases h)
    case (WakeFair g)
    with sem_okD(3) [OF assms(1)] Some assms(3) have g: "grant_permits g = wants j" by (force simp: matches_def)
    have a: "acquire_resume (kind_of j) k (wants j) k s = Inr (Ready (Permit (wants j)), ?s)"
      using w(1) WakeFair by (simp add: acquire_resume_def)
    have "settled ?P ?s" using ls [of "permits s"] WakeFair by (cases s) (simp add: offer_weight_def)
    with r l WakeFair g show ?thesis by (intro poll_served_ok [OF a]) (simp_all add: grant_weight_def)
  next
    case (WakeUnfair t)
    then have ok: "sem_ok ?P H ?s" using l by (simp add: grant_weight_def)
    show ?thesis
    proof (cases "wants j \<le> permits s")
      case False
      with poll_in_vain_ok [OF assms] Some WakeUnfair show ?thesis by blast
    next
      case True
      let ?t = "?s\<lparr>permits := permits s - wants j\<rparr>"
      have a: "acquire_resume (kind_of j) k (wants j) k s = Inr (Ready (Permit (wants j)), ?t)"
        using w(1) WakeUnfair take_ok(1) [OF ok, of "wants j"] True by (simp add: acquire_resume_def)
      have "settled ?P ?t"
        using ls [of "permits s - wants j"] WakeUnfair True assms(3) unat_sub_no_wrap [OF True]
        by (simp add: offer_weight_def requested_def usize_le_iff)
      moreover have "sem_ok ?P (H + unat (wants j)) ?t" using take_ok(2) [OF ok, of "wants j"] True by simp
      moreover have "rouses k (pq s) (pq ?t)" using w(3) by (simp add: rouses_same)
      ultimately show ?thesis using r(2) by (intro poll_served_ok [OF a]) (simp_all add: own_wakers_def)
    qed
  qed
qed

text \<open>Any poll: it finishes a job or an acquisition, or it only queues up, or it was woken in vain.\<close>

definition weight :: "worker \<Rightarrow> nat" where
  "weight w = 2 * length (jobs_of w) + of_bool (is_holding w)"

lemma done_well_length: "done_well P H k js s (w, again, s') \<Longrightarrow> length (jobs_of w) \<le> length js"
  by (simp add: done_well_def)

lemma weight_less: "length (jobs_of w) < n \<Longrightarrow> weight w < 2 * n"
  by (cases "is_holding w") (simp_all add: weight_def)

lemma weight_le: "length (jobs_of w) \<le> n \<Longrightarrow> \<not> is_holding w \<Longrightarrow> weight w \<le> 2 * n"
  by (simp add: weight_def)

lemma labor_weight:
  assumes "sem_ok P H s" and "settled P s" and "P k = None" and "own_wakers (pq s)"
  obtains w again s' where "labor k js s = Inr (w, again, s')" and "done_well P H k js s (w, again, s')"
    and "weight w < 2 * length js \<or> weight w \<le> 2 * length js \<and> queued k s (w, again, s')"
proof -
  from labor_ok [OF assms, of js] obtain w again s' where
    r: "labor k js s = Inr (w, again, s')" "done_well P H k js s (w, again, s')"
    "length (jobs_of w) < length js \<or> queued k s (w, again, s')"
    by auto
  with weight_less [of w "length js"] weight_le [OF done_well_length [OF r(2)]] show thesis
    by (intro that) (auto simp: queued_def)
qed

lemma worker_poll_ok:
  assumes "sem_ok P (H + in_hand w0) s" and "settled P s" and "P k = future_of w0" and "own_wakers (pq s)"
  obtains w again s' where "worker_poll k w0 s = Inr (w, again, s')"
    and "done_well (P(k := None)) H k (jobs_of w0) s (w, again, s')"
    and "weight w < weight w0 \<or>
      weight w \<le> weight w0 \<and> (queued k s (w, again, s') \<or> disappointed P k s (w, again, s'))"
proof (cases w0)
  case (Working js)
  with assms have P: "sem_ok P H s" "P k = None" "P(k := None) = P" by (simp_all add: fun_upd_idem)
  from labor_weight [OF P(1) assms(2) P(2) assms(4), of js] that P(3) Working show thesis
    by (auto simp: weight_def)
next
  case (Holding guard f js)
  with assms have P: "sem_ok P (H + unat (held_permits guard)) s" "P k = None" "P(k := None) = P"
    by (simp_all add: fun_upd_idem)
  obtain t where t: "give f guard s = Inr t" "sem_ok P H t" "settled P t" "total_permits t = total_permits s"
    "rouses k (pq s) (pq t)" "own_wakers (pq t)"
    by (rule give_ok [OF P(1) assms(4)])
  obtain w again s' where r: "labor k js t = Inr (w, again, s')" "done_well P H k js t (w, again, s')"
    "weight w < 2 * length js \<or> weight w \<le> 2 * length js \<and> queued k t (w, again, s')"
    by (rule labor_weight [OF t(2,3) P(2) t(6)])
  have "done_well P H k js s (w, again, s')" by (rule done_well_after [OF r(2) t(5,4)]) simp_all
  moreover have "weight w < weight w0" using r(3) Holding by (auto simp: weight_def)
  ultimately show thesis using that t(1) r(1) P(3) Holding by simp
next
  case (Waiting j js)
  have "poll_ok P H k j js s" using assms Waiting by (intro poll_waiting_ok) simp_all
  then obtain w again s' where r: "worker_poll k (Waiting j js) s = Inr (w, again, s')"
    "done_well (P(k := None)) H k (j # js) s (w, again, s')"
    "length (jobs_of w) \<le> length js \<or> queued k s (w, again, s') \<or> disappointed P k s (w, again, s')"
    unfolding poll_ok_def by auto
  have n: "\<not> is_holding w \<Longrightarrow> weight w \<le> weight w0" 
    using weight_le [OF done_well_length [OF r(2)]] Waiting by (simp add: weight_def)
  show thesis
  proof (rule that)
    show "worker_poll k w0 s = Inr (w, again, s')" using r(1) Waiting by simp
    show "done_well (P(k := None)) H k (jobs_of w0) s (w, again, s')" using r(2) Waiting by simp
    show "weight w < weight w0 \<or>
      weight w \<le> weight w0 \<and> (queued k s (w, again, s') \<or> disappointed P k s (w, again, s'))"
      using r(3) n weight_less [of w "Suc (length js)"] Waiting
      by (auto simp: queued_def disappointed_def weight_def)
  qed
qed

section \<open>The pool\<close>

definition clients_of :: "pool \<Rightarrow> clients" where
  "clients_of S a = (if a \<in> crew S then future_of (worker S a) else None)"

definition hands :: "pool \<Rightarrow> nat" where
  "hands S = (\<Sum>k\<in>crew S. in_hand (worker S k))"

definition pool_holds :: "usize \<Rightarrow> pool \<Rightarrow> bool" where
  "pool_holds N S \<longleftrightarrow>
     sem_ok (clients_of S) (hands S) (desk S) \<and> settled (clients_of S) (desk S) \<and> own_wakers (pq (desk S)) \<and>
     total_permits (desk S) = N \<and> finite (crew S) \<and>
     (\<forall>k\<in>crew S. \<forall>j\<in>set (jobs_of (worker S k)). wants j \<le> N) \<and>
     (\<forall>k\<in>crew S. is_free (worker S k) \<or> k \<in> awake S \<or> k \<in> fst ` set (parked (pq (desk S))))"

lemma pool_holdsD:
  assumes "pool_holds N S"
  shows "sem_ok (clients_of S) (hands S) (desk S)" "settled (clients_of S) (desk S)" "own_wakers (pq (desk S))"
    "total_permits (desk S) = N" "finite (crew S)"
    "\<And>k j. k \<in> crew S \<Longrightarrow> j \<in> set (jobs_of (worker S k)) \<Longrightarrow> wants j \<le> N"
    "\<And>k. k \<in> crew S \<Longrightarrow> is_free (worker S k) \<or> k \<in> awake S \<or> k \<in> fst ` set (parked (pq (desk S)))"
  using assms unfolding pool_holds_def by blast+

definition unrest :: "pool \<Rightarrow> nat" where
  "unrest S = Suc (card (crew S)) * card (doomed (clients_of S) (desk S)) + card (awake S \<inter> crew S)"

definition pool_work :: "pool \<Rightarrow> nat" where
  "pool_work S = (Suc (card (crew S)))\<^sup>2 * (\<Sum>k\<in>crew S. weight (worker S k)) + unrest S"

definition pool_done :: "pool \<Rightarrow> bool" where
  "pool_done S \<longleftrightarrow> (\<forall>k\<in>crew S. is_free (worker S k))"

lemma doomed_crew: "doomed (clients_of S) s \<subseteq> crew S"
  by (auto simp: doomed_def clients_of_def split: if_splits)

lemma card_doomed: "finite (crew S) \<Longrightarrow> card (doomed (clients_of S) s) \<le> card (crew S)"
  by (rule card_mono [OF _ doomed_crew])

lemma unrest_bound: "finite (crew S) \<Longrightarrow> unrest S < (Suc (card (crew S)))\<^sup>2"
proof -
  assume f: "finite (crew S)"
  have "unrest S \<le> Suc (card (crew S)) * card (crew S) + card (crew S)"
    unfolding unrest_def using card_doomed [OF f, of "desk S"] card_mono [OF f, of "awake S \<inter> crew S"]
    by (intro add_mono mult_le_mono) simp_all
  then show ?thesis by (simp add: power2_eq_square)
qed

lemma doomed_queued:
  assumes "queued k s (w, again, s')"
  shows "doomed (P(k := future_of w)) s' \<subseteq> doomed P s"
proof
  fix a assume "a \<in> doomed (P(k := future_of w)) s'"
  then obtain kind n t where a: "(P(k := future_of w)) a = Some (kind, n)" "released (pq s') a = Some (WakeUnfair t)"
    "\<not> n \<le> permits s'"
    unfolding doomed_def by blast
  with assms have "a \<noteq> k" by (auto simp: queued_def)
  with a assms show "a \<in> doomed P s" by (auto simp: queued_def doomed_def)
qed

text \<open>The state after a poll of task \<open>k\<close>.\<close>

lemma pool_after:
  assumes S: "pool_holds N S" and k: "k \<in> crew S"
    and r: "done_well ((clients_of S)(k := None)) (hands S - in_hand (worker S k)) k (jobs_of (worker S k)) (desk S) (w, again, s')"
    and calls: "q_woken (pq s') = q_woken (pq (desk S)) @ calls"
    and T: "T = S\<lparr>desk := s', worker := (worker S)(k := w),
        awake := awake S - {k} \<union> (if again then {k} else {}) \<union> set calls\<rparr>"
  shows "pool_holds N T" and "clients_of T = (clients_of S)(k := future_of w)"
proof -
  note h = pool_holdsD [OF S]
  have d: "sem_ok ((clients_of S)(k := future_of w)) (hands S - in_hand (worker S k) + in_hand w) s'"
    "settled ((clients_of S)(k := future_of w)) s'" "total_permits s' = total_permits (desk S)" "own_wakers (pq s')"
    "rouses k (pq (desk S)) (pq s')" "again \<or> is_free w \<or> k \<in> fst ` set (parked (pq s'))"
    "set (jobs_of w) \<subseteq> set (jobs_of (worker S k))"
    using r by (simp_all add: done_well_def)
  show c: "clients_of T = (clients_of S)(k := future_of w)" using k by (auto simp: clients_of_def T)
  have "hands T = hands S - in_hand (worker S k) + in_hand w"
  proof -
    have "(\<Sum>l\<in>crew S - {k}. in_hand (worker T l)) = (\<Sum>l\<in>crew S - {k}. in_hand (worker S l))"
      by (rule sum.cong) (simp_all add: T)
    then show ?thesis
      using sum.remove [OF h(5) k, of "\<lambda>l. in_hand (worker S l)"] sum.remove [OF h(5) k, of "\<lambda>l. in_hand (worker T l)"]
      by (simp add: hands_def T)
  qed
  moreover have "is_free (worker T l) \<or> l \<in> awake T \<or> l \<in> fst ` set (parked (pq (desk T)))" if l: "l \<in> crew S" for l
  proof (cases "l = k")
    case True
    with d(6) show ?thesis by (auto simp: T)
  next
    case False
    show ?thesis
    proof (cases "l \<in> fst ` set (parked (pq (desk S)))")
      case True
      then obtain n v where e: "(l, n, v) \<in> set (parked (pq (desk S)))" by auto
      with h(3) have v: "v = l" by (auto simp: own_wakers_def)
      obtain calls' where "q_woken (pq s') = q_woken (pq (desk S)) @ calls'"
        "(l, n, v) \<in> set (parked (pq s')) \<or> v \<in> set calls'"
        using d(5) e False unfolding rouses_def by blast
      with calls v show ?thesis by (force simp: T)
    next
      case f: False
      with h(7) [OF l] False show ?thesis by (auto simp: T)
    qed
  qed
  moreover have "wants j \<le> N" if "l \<in> crew S" "j \<in> set (jobs_of (worker T l))" for l j
    using that h(6) d(7) k by (cases "l = k") (auto simp: T)
  ultimately show "pool_holds N T"
    unfolding pool_holds_def c using d(1-4) h(4,5) by (simp add: T)
qed

text \<open>A poll that gets no permits leaves fewer wake-ups that can still be in vain.\<close>

lemma unrest_less:
  assumes "pool_holds N S" and k: "k \<in> crew S" "k \<in> awake S"
    and T: "T = S\<lparr>desk := s', worker := (worker S)(k := w), awake := awake S - {k} \<union> (if again then {k} else {}) \<union> set calls\<rparr>"
    and c: "q_woken (pq s') = q_woken (pq (desk S)) @ calls" and cl: "clients_of T = (clients_of S)(k := future_of w)"
    and qd: "queued k (desk S) (w, again, s') \<or> disappointed (clients_of S) k (desk S) (w, again, s')"
  shows "unrest T < unrest S"
proof -
  note h = pool_holdsD [OF assms(1)]
  have crew: "crew T = crew S" by (simp add: T)
  show ?thesis
  proof (cases "queued k (desk S) (w, again, s')")
    case True
    have "awake T \<inter> crew S = awake S \<inter> crew S - {k}" using True c by (auto simp: queued_def T)
    then have "card (awake T \<inter> crew S) < card (awake S \<inter> crew S)"
      using k h(5) by (simp only:) (intro card_Diff1_less finite_Int disjI2 IntI; assumption)
    moreover have "card (doomed (clients_of T) (desk T)) \<le> card (doomed (clients_of S) (desk S))"
      using doomed_queued [OF True, of "clients_of S"] cl finite_subset [OF doomed_crew h(5)]
      by (intro card_mono) (simp_all add: T)
    ultimately show ?thesis unfolding unrest_def crew by (intro add_le_less_mono mult_le_mono) simp_all
  next
    case False
    with qd have "doomed (clients_of T) (desk T) \<subseteq> doomed (clients_of S) (desk S) - {k}"
      "k \<in> doomed (clients_of S) (desk S)" using cl by (simp_all add: disappointed_def T)
    then have "doomed (clients_of T) (desk T) \<subset> doomed (clients_of S) (desk S)" by blast
    then have "Suc (card (doomed (clients_of T) (desk T))) \<le> card (doomed (clients_of S) (desk S))"
      using psubset_card_mono [OF finite_subset [OF doomed_crew h(5)]] by (simp add: Suc_le_eq)
    from mult_le_mono2 [OF this, of "Suc (card (crew S))"] card_mono [OF h(5), of "awake T \<inter> crew S"]
    show ?thesis unfolding unrest_def crew by simp
  qed
qed

lemma run_worker_ok:
  assumes "pool_holds N S" and "runnable k S"
  shows "\<exists>T. run_worker k S = Inr T \<and> pool_holds N T \<and> pool_work T < pool_work S \<and> crew T = crew S"
proof -
  note h = pool_holdsD [OF assms(1)]
  from assms(2) have k: "k \<in> crew S" "k \<in> awake S" by (simp_all add: runnable_def)
  have le: "in_hand (worker S k) \<le> hands S"
    unfolding hands_def by (rule member_le_sum [OF k(1)]) (simp_all add: h(5))
  have ok: "sem_ok (clients_of S) (hands S - in_hand (worker S k) + in_hand (worker S k)) (desk S)"
    unfolding le_add_diff_inverse2 [OF le] by (rule h(1))
  have P: "clients_of S k = future_of (worker S k)" using k(1) by (simp add: clients_of_def)
  obtain w again s' where r: "worker_poll k (worker S k) (desk S) = Inr (w, again, s')"
    and d: "done_well ((clients_of S)(k := None)) (hands S - in_hand (worker S k)) k (jobs_of (worker S k)) (desk S) (w, again, s')"
    and less: "weight w < weight (worker S k) \<or> weight w \<le> weight (worker S k) \<and>
      (queued k (desk S) (w, again, s') \<or> disappointed (clients_of S) k (desk S) (w, again, s'))"
    by (rule worker_poll_ok [OF ok h(2) P h(3)])
  from d obtain calls where c: "q_woken (pq s') = q_woken (pq (desk S)) @ calls"
    by (auto simp: done_well_def rouses_def)
  obtain T where T: "T = S\<lparr>desk := s', worker := (worker S)(k := w),
      awake := awake S - {k} \<union> (if again then {k} else {}) \<union> set calls\<rparr>" by blast
  have q: "woken (waiters s) = q_woken (pq s)" for s by (simp add: wl_abs_def)
  have run: "run_worker k S = Inr T" using r c by (simp add: run_worker_def T q)
  note t = pool_after [OF assms(1) k(1) d c T]
  have crew: "crew T = crew S" by (simp add: T)
  have sums: "(\<Sum>l\<in>crew T. weight (worker T l)) + weight (worker S k) = (\<Sum>l\<in>crew S. weight (worker S l)) + weight w"
    using sum_fun_upd [OF h(5) k(1), of weight "worker S" w] by (simp add: T)
  have "pool_work T < pool_work S"
  proof (cases "weight w < weight (worker S k)")
    case True
    with sums have "Suc (\<Sum>l\<in>crew T. weight (worker T l)) \<le> (\<Sum>l\<in>crew S. weight (worker S l))" by simp
    from mult_le_mono2 [OF this, of "(Suc (card (crew S)))\<^sup>2"] unrest_bound [of T] h(5) show ?thesis
      by (simp add: pool_work_def crew)
  next
    case False
    with less have "weight w \<le> weight (worker S k)" and "unrest T < unrest S"
      using unrest_less [OF assms(1) k T c] t(2) by auto
    with sums show ?thesis unfolding pool_work_def crew by (intro add_le_less_mono mult_le_mono) simp_all
  qed
  with run t(1) crew show ?thesis by blast
qed

text \<open>When nobody can run, everybody is parked, so all permits are there, which settledness excludes.\<close>

lemma pool_at_rest:
  assumes "pool_holds N S" and "\<And>k. k \<in> crew S \<Longrightarrow> is_free (worker S k) \<or> k \<in> fst ` set (parked (pq (desk S)))"
  shows "permits (desk S) = N" and "released (pq (desk S)) = Map.empty" and "hands S = 0"
proof -
  note h = pool_holdsD [OF assms(1)]
  note m = sem_okD [OF h(1)]
  have inv: "wl_inv (waiters (desk S))" by (rule m(1))
  have rel: "released (pq (desk S)) a = None" for a
  proof (rule ccontr)
    assume r: "released (pq (desk S)) a \<noteq> None"
    then have "a \<in> dom (clients_of S)" using m(3) by (auto simp: matches_def q_addrs_def)
    then have a: "a \<in> crew S" "future_of (worker S a) \<noteq> None" by (auto simp: clients_of_def split: if_splits)
    then have "\<not> is_free (worker S a)" by (cases "worker S a" rule: future_of.cases) auto
    with assms(2) [OF a(1)] obtain e where "e \<in> set (parked (pq (desk S)))" "a = fst e" by blast
    with wl.disjoint_law [OF inv] r show False by simp
  qed
  then show r: "released (pq (desk S)) = Map.empty" by blast
  have "in_hand (worker S k) = 0" if k: "k \<in> crew S" for k
  proof (cases "worker S k")
    case (Holding guard f js)
    with assms(2) [OF k] have "k \<in> fst ` set (parked (pq (desk S)))" by simp
    then have "k \<in> dom (clients_of S)" using m(3) by (auto simp: matches_def q_addrs_def)
    with Holding show ?thesis by (auto simp: clients_of_def split: if_splits)
  qed simp_all
  then show z: "hands S = 0" by (simp add: hands_def)
  have "granted (pq (desk S)) = 0" by (simp add: granted_def r sum_over_empty)
  with m(4) z h(4) show "permits (desk S) = N" by (simp add: word_unat_eq_iff)
qed

lemma pool_can_run:
  assumes "pool_holds N S" and "\<not> pool_done S"
  shows "\<exists>k. runnable k S"
proof (rule ccontr)
  assume none: "\<nexists>k. runnable k S"
  note h = pool_holdsD [OF assms(1)]
  have rest: "is_free (worker S k) \<or> k \<in> fst ` set (parked (pq (desk S)))" if "k \<in> crew S" for k
    using h(7) [OF that] none that by (auto simp: runnable_def)
  note r = pool_at_rest [OF assms(1) rest]
  from assms(2) obtain k where "k \<in> crew S" "\<not> is_free (worker S k)" by (auto simp: pool_done_def)
  with rest [of k] obtain a n v es where p: "parked (pq (desk S)) = (a, n, v) # es"
    by (cases "parked (pq (desk S))") auto
  then obtain kind where "clients_of S a = Some (kind, n)"
    using matches_parked [OF sem_okD(3) [OF h(1)], of a n v] by auto
  then obtain j js where "a \<in> crew S" "worker S a = Waiting j js" "wants j = n"
    by (cases "worker S a") (auto simp: clients_of_def split: if_splits)
  with h(6) [of a j] have "n \<le> N" by simp
  moreover have "unat (permits (desk S)) < unat n + offered (clients_of S) (pq (desk S))"
    using h(2) p by (simp add: settled_def)
  ultimately show False using r(1,2) by (simp add: offered_def sum_over_empty usize_le_iff)
qed

lemma pool_start_holds:
  assumes "pool_start N n plan S"
  shows "pool_holds N S" and "crew S = {..<n}"
    and "pool_work S = 2 * (Suc n)\<^sup>2 * (\<Sum>k<n. length (plan k)) + n"
proof -
  have S: "S = hire N n plan" and w: "\<forall>k<n. \<forall>j\<in>set (plan k). wants j \<le> N" using assms by (simp_all add: pool_start_def)
  have c: "clients_of S = Map.empty" by (auto simp: clients_of_def S hire_def)
  have q: "pq (desk S) = q_new" "wl_inv (waiters (desk S))"
    by (simp_all add: S hire_def semaphore_new_def new_refines)
  have "sem_ok Map.empty (hands S) (desk S)"
    using q by (simp add: sem_ok_def matches_def q_new_def q_addrs_def granted_def hands_def S hire_def semaphore_new_def
        borrowed_abs [symmetric] sum_over_empty)
  moreover have "settled Map.empty (desk S)" "own_wakers (pq (desk S))" using q(1) by (simp_all add: settled_def own_wakers_def q_new_def)
  ultimately show "pool_holds N S" using w
    unfolding pool_holds_def c by (auto simp: S hire_def semaphore_new_def)
  show "crew S = {..<n}" by (simp add: S hire_def)
  have "doomed Map.empty s = {}" for s by (simp add: doomed_def)
  moreover have a: "awake S = {..<n}" "crew S = {..<n}" "worker S = (\<lambda>k. Working (plan k))" by (simp_all add: S hire_def)
  ultimately have "unrest S = n" by (simp add: unrest_def c)
  then show "pool_work S = 2 * (Suc n)\<^sup>2 * (\<Sum>k<n. length (plan k)) + n"
    by (simp add: pool_work_def a weight_def sum_distrib_left ac_simps)
qed

interpretation pool: bounded_runs "pool_start N n plan" pool_step "pool_holds N" pool_done pool_work
  for N and n and plan
proof unfold_locales
  fix S
  assume S: "pool_holds N S" "\<not> pool_done S"
  from pool_can_run [OF this] obtain k where "runnable k S" ..
  with run_worker_ok [OF S(1) this] show "\<exists>T. pool_step S T" by (auto intro: pool_step.run_worker)
next
  fix S T
  assume S: "pool_holds N S" "pool_step S T"
  then obtain k where "runnable k S" "run_worker k S = Inr T" by (auto elim: pool_stepE)
  with run_worker_ok [OF S(1), of k] show "pool_work T < pool_work S" by simp
next
  fix S T
  assume S: "pool_step S T" "pool_holds N S"
  then obtain k where "runnable k S" "run_worker k S = Inr T" by (auto elim: pool_stepE)
  with run_worker_ok [OF S(2), of k] show "pool_holds N T" by simp
qed (use pool_start_holds in blast)

section \<open>Everybody is served\<close>

lemma hands_bound: "pool_holds N S \<Longrightarrow> hands S \<le> unat N"
  using sem_okD(4) [OF pool_holdsD(1), of N S] pool_holdsD(4) [of N S] by simp

lemma pool_done_back:
  assumes "pool_holds N S" and "pool_done S"
  shows "available_permits (desk S) = N" and "parked (pq (desk S)) = []"
proof -
  show "available_permits (desk S) = N"
    unfolding available_permits_def by (rule pool_at_rest(1) [OF assms(1)]) (use assms(2) in \<open>simp add: pool_done_def\<close>)
  have "clients_of S a = None" for a
    using assms(2) by (cases "worker S a" rule: is_free.cases) (auto simp: clients_of_def pool_done_def)
  then have "q_addrs (pq (desk S)) = {}" using sem_okD(3) [OF pool_holdsD(1) [OF assms(1)]] by (auto simp: matches_def)
  then show "parked (pq (desk S)) = []" by (simp add: q_addrs_def)
qed

lemma run_worker_crew: "run_worker k S = Inr T \<Longrightarrow> crew T = crew S"
  by (auto simp: run_worker_def and_then_eq_Inr)

lemma pool_steps_crew: "(pool_step ^^ m) S T \<Longrightarrow> crew T = crew S"
  by (induction m arbitrary: T) (auto elim!: pool_stepE dest!: run_worker_crew)

text \<open>C8.
  Any number of tasks that acquire permits and give them back, each with at most one acquisition at a
  time and never asking for more than the total, and none of them aborted, always finish.  However the executor chooses among the tasks that are awake,
  whichever of them acquire or give back fairly, and wherever they yield with permits in their hands,
  no call faults, the permits in their hands never exceed the total, there is no deadlock, and no run
  has more than \<open>2 * (n + 1)\<^sup>2 * jobs + n\<close> polls for \<open>n\<close> tasks: a wake-up may be in vain, since an
  unfair acquisition took the permits first, but not for ever.  A run that cannot go on has done all
  the jobs, the queue is empty, and all permits are back.
\<close>

theorem sem_every_schedule_serves:
  assumes "pool_start N n plan S" and "(pool_step ^^ m) S T"
  shows "m \<le> 2 * (n + 1)\<^sup>2 * (\<Sum>k<n. length (plan k)) + n \<and>
     (\<Sum>k<n. in_hand (worker T k)) \<le> unat N \<and>
     (\<forall>k. runnable k T \<longrightarrow> (\<exists>U. run_worker k T = Inr U)) \<and>
     ((\<forall>k<n. worker T k = Working []) \<and> available_permits (desk T) = N \<and> parked (wl_abs (waiters (desk T))) = []
      \<or> (\<exists>U. pool_step T U))"
proof -
  have r: "pool_holds N T \<and> m \<le> pool_work S \<and> (pool_done T \<or> (\<exists>U. pool_step T U))"
    by (rule pool.run_continues [OF assms(2,1)])
  note b = pool_start_holds [OF assms(1)]
  have c: "crew T = {..<n}" using pool_steps_crew [OF assms(2)] b(2) by simp
  have "\<exists>U. run_worker k T = Inr U" if "runnable k T" for k using run_worker_ok [OF _ that] r by blast
  moreover have "is_free w \<Longrightarrow> w = Working []" for w by (cases w rule: is_free.cases) simp_all
  ultimately show ?thesis
    using r b(3) hands_bound [of N T] pool_done_back [of N T] by (auto simp: c hands_def pool_done_def)
qed

lemma run_workers_steps: "run_workers ks S = Inr T \<Longrightarrow> (pool_step ^^ length ks) S T"
proof (induction ks arbitrary: S)
  case (Cons k ks)
  then obtain U where "runnable k S" "run_worker k S = Inr U" "run_workers ks U = Inr T"
    by (auto simp: and_then_eq_Inr split: if_splits)
  with Cons.IH [of U] have "pool_step S U" "(pool_step ^^ length ks) U T" by (auto intro: run_worker)
  then show ?case unfolding list.size(4) add_Suc_right by (simp only: add_0_right relpowp_Suc_I2)
qed simp

theorem sem_every_schedule_serves_witness:
  "\<exists>T. run_workers [1, 0, 1, 0, 0, 1] (hire 2 2 contended) = Inr T \<and>
     (\<forall>k<2. worker T k = Working []) \<and> available_permits (desk T) = 2"
proof -
  let ?ks = "[1, 0, 1, 0, 0, 1]"
  have "passes (run_workers ?ks (hire 2 2 contended)) (\<lambda>T. \<not> runnable 0 T \<and> \<not> runnable 1 T \<and> crew T = {..<2})"
    by code_simp
  then obtain T where T: "run_workers ?ks (hire 2 2 contended) = Inr T" "\<not> runnable 0 T" "\<not> runnable 1 T"
    "crew T = {..<2}"
    by (elim passesE conjE) (rule that)
  have "\<not> pool_step T U" for U
  proof
    assume "pool_step T U"
    then obtain k where k: "runnable k T" by (auto elim: pool_stepE)
    then have "k < 2" using T(4) by (auto simp: runnable_def)
    then have "k = 0 \<or> k = 1" by auto
    with k T(2,3) show False by auto
  qed
  moreover have "pool_start 2 2 contended (hire 2 2 contended)" by (simp add: pool_start_def contended_def)
  ultimately show ?thesis
    using sem_every_schedule_serves [OF _ run_workers_steps [OF T(1)], of 2 2 contended] T(1) by auto
qed

end
