(* ===== verification/Once_Cell.thy ===== *)
theory Once_Cell
  imports Wait_List_Spec
begin

text \<open>
  \<open>src/once_cell.rs\<close>.  The cell's state and its wait list; the baton that carries the job of
  initializing is a value in a waiter's slot, and its destructor is \<open>baton_drop\<close>.  The future of
  \<open>get_or_try_init\<close> suspends at two points: waiting for a baton, or while the caller's
  initializer is pending with the guard alive (\<open>stage\<close>).  The initializer itself is the
  caller's: \<open>f\<close> gives its answer each time it is polled and updates what its closure captured.
  A panic of the initializer is a value (\<open>Unwound\<close>), since the cell lives on after it.
\<close>

section \<open>Data\<close>

datatype 'v cell_state = Uninit | Initializing | Initialized 'v

datatype baton = Baton

record 'v once_cell =
  cell_state :: "'v cell_state"
  cell_waiters :: "(unit, baton) wait_list"

datatype 'v set_result = SetOk 'v | SetInitializing 'v | SetInitialized 'v 'v

datatype 'o answer = NotYet | Yields 'o | Panics string

datatype stage = AwaitsBaton | RunsInit

datatype 'o outcome = Returned 'o | Unwound string

datatype 'o progress = Suspended stage | Finished "'o outcome"

section \<open>Passing the job on\<close>

definition baton_drop :: "'v once_cell \<Rightarrow> 'v once_cell res" where
  "baton_drop c =
     (if cell_state c \<noteq> Initializing then Inr c
      else
        and_then (borrow (cell_waiters c)) (\<lambda>wl.
        and_then (wake_one Baton wl) (\<lambda>(leftover, wl).
        and_then (drop_borrowed wl) (\<lambda>wl.
        case leftover of
          Ok _ \<Rightarrow> Inr (c\<lparr>cell_waiters := wl\<rparr>)
        | Err err \<Rightarrow> Inr (c\<lparr>cell_waiters := wl, cell_state := Uninit\<rparr>)))))"

definition guard_drop :: "'v once_cell \<Rightarrow> 'v once_cell res" where
  "guard_drop c = baton_drop c"

section \<open>Synchronous access\<close>

definition once_cell_new :: "'v once_cell" where
  "once_cell_new = \<lparr>cell_state = Uninit, cell_waiters = wait_list_new\<rparr>"

definition once_cell_default :: "'v once_cell" where
  "once_cell_default = once_cell_new"

definition cell_get :: "'v once_cell \<Rightarrow> 'v option" where
  "cell_get c = (case cell_state c of Initialized v \<Rightarrow> Some v | _ \<Rightarrow> None)"

text \<open>\<open>get_mut\<close> hands out a unique reference; \<open>g\<close> is what the caller does through it.\<close>

definition cell_get_mut :: "('v \<Rightarrow> 'v) \<Rightarrow> 'v once_cell \<Rightarrow> 'v option \<times> 'v once_cell" where
  "cell_get_mut g c =
     (case cell_state c of
        Initialized v \<Rightarrow> (Some (g v), c\<lparr>cell_state := Initialized (g v)\<rparr>)
      | _ \<Rightarrow> (None, c))"

definition get_unwrap :: "'v once_cell \<Rightarrow> 'v res" where
  "get_unwrap c =
     (case cell_get c of
        None \<Rightarrow> Inl (Panic ''called `Option::unwrap()` on a `None` value'')
      | Some v \<Rightarrow> Inr v)"

definition cell_set :: "'v \<Rightarrow> 'v once_cell \<Rightarrow> ('v set_result \<times> 'v once_cell) res" where
  "cell_set v c =
     (case cell_state c of
        Uninit \<Rightarrow>
          let c = c\<lparr>cell_state := Initialized v\<rparr> in
          and_then (get_unwrap c) (\<lambda>r. Inr (SetOk r, c))
      | Initializing \<Rightarrow> Inr (SetInitializing v, c)
      | Initialized r \<Rightarrow> Inr (SetInitialized r v, c))"

fun set_result_ok :: "'v set_result \<Rightarrow> ('v, 'v) result" where
  "set_result_ok (SetOk v) = Ok v"
| "set_result_ok (SetInitializing v) = Err v"
| "set_result_ok (SetInitialized r v) = Err v"

fun set_result_value :: "'v set_result \<Rightarrow> 'v option" where
  "set_result_value (SetOk v) = Some v"
| "set_result_value (SetInitialized r v) = Some r"
| "set_result_value (SetInitializing v) = None"

fun set_result_unwrap :: "'v set_result \<Rightarrow> 'v res" where
  "set_result_unwrap (SetOk v) = Inr v"
| "set_result_unwrap (SetInitializing v) = Inl (Panic ''`OnceCell` was being initialized'')"
| "set_result_unwrap (SetInitialized r v) = Inl (Panic ''`OnceCell` was already initialized'')"

definition cell_into_inner :: "'v once_cell \<Rightarrow> 'v option" where
  "cell_into_inner c = (case cell_state c of Initialized v \<Rightarrow> Some v | _ \<Rightarrow> None)"

definition cell_take :: "'v once_cell \<Rightarrow> 'v option \<times> 'v once_cell" where
  "cell_take c = (cell_into_inner c, once_cell_new)"

definition cell_from :: "'v \<Rightarrow> 'v once_cell" where
  "cell_from v = \<lparr>cell_state = Initialized v, cell_waiters = wait_list_new\<rparr>"

definition cell_eq :: "'v once_cell \<Rightarrow> 'v once_cell \<Rightarrow> bool" where
  "cell_eq c d \<longleftrightarrow> cell_get c = cell_get d"

definition cell_clone :: "'v once_cell \<Rightarrow> 'v once_cell" where
  "cell_clone c = (case cell_get c of None \<Rightarrow> once_cell_new | Some v \<Rightarrow> cell_from v)"

section \<open>The initializing future\<close>

text \<open>
  The loop that wakes every waiter after the value was stored.  The baton that \<open>wake_one\<close> hands
  back when nobody is left is dropped while the list is still borrowed.
\<close>

function wake_all :: "'v once_cell \<Rightarrow> 'v once_cell res" where
  "wake_all c =
     and_then (wake_one Baton (cell_waiters c)) (\<lambda>(r, wl).
     case r of
       Ok _ \<Rightarrow> wake_all (c\<lparr>cell_waiters := wl\<rparr>)
     | Err err \<Rightarrow> baton_drop (c\<lparr>cell_waiters := wl\<rparr>))"
  by pat_completeness auto
termination
  by (relation "measure (\<lambda>c. wakers_left (cell_waiters c))") (auto dest: wake_one_decreases)

declare wake_all.simps [simp del]

definition finish_init :: "'v \<Rightarrow> 'v once_cell \<Rightarrow> ('v \<times> 'v once_cell) res" where
  "finish_init v c =
     (let c = c\<lparr>cell_state := Initialized v\<rparr> in
      and_then (borrow (cell_waiters c)) (\<lambda>wl.
      and_then (wake_all (c\<lparr>cell_waiters := wl\<rparr>)) (\<lambda>c.
      and_then (get_unwrap c) (\<lambda>r.
      and_then (drop_borrowed (cell_waiters c)) (\<lambda>wl.
      Inr (r, c\<lparr>cell_waiters := wl\<rparr>))))))"

type_synonym ('x, 'o) initializer = "'x \<Rightarrow> ('o answer \<times> 'x) res"

text \<open>A poll of \<open>f().await?\<close> with the guard alive, and what follows it.\<close>

definition run_init ::
  "('x, ('v, 'e) result) initializer \<Rightarrow> 'x \<Rightarrow> 'v once_cell \<Rightarrow>
   (('v, 'e) result progress \<times> 'x \<times> 'v once_cell) res" where
  "run_init f x c =
     and_then (f x) (\<lambda>(ans, x).
     case ans of
       NotYet \<Rightarrow> Inr (Suspended RunsInit, x, c)
     | Panics msg \<Rightarrow>
         (case guard_drop c of
            Inl (Panic _) \<Rightarrow> Inl Abort
          | Inl e \<Rightarrow> Inl e
          | Inr c \<Rightarrow> Inr (Finished (Unwound msg), x, c))
     | Yields (Err e) \<Rightarrow> and_then (guard_drop c) (\<lambda>c. Inr (Finished (Returned (Err e)), x, c))
     | Yields (Ok v) \<Rightarrow> and_then (finish_init v c) (\<lambda>(r, c). Inr (Finished (Returned (Ok r)), x, c)))"

text \<open>What a waiter does once \<open>wait\<close> has returned its baton.\<close>

definition take_over ::
  "('x, ('v, 'e) result) initializer \<Rightarrow> 'x \<Rightarrow> 'v once_cell \<Rightarrow>
   (('v, 'e) result progress \<times> 'x \<times> 'v once_cell) res" where
  "take_over f x c =
     (case cell_state c of
        Uninit \<Rightarrow> Inl (Panic ''internal error: entered unreachable code'')
      | Initializing \<Rightarrow> run_init f x c
      | Initialized v \<Rightarrow> and_then (baton_drop c) (\<lambda>c. Inr (Finished (Returned (Ok v)), x, c)))"

definition get_or_try_init_start ::
  "addr \<Rightarrow> ('x, ('v, 'e) result) initializer \<Rightarrow> waker \<Rightarrow> 'x \<Rightarrow> 'v once_cell \<Rightarrow>
   (('v, 'e) result progress \<times> 'x \<times> 'v once_cell) res" where
  "get_or_try_init_start a f cx x c =
     (case cell_state c of
        Uninit \<Rightarrow> run_init f x (c\<lparr>cell_state := Initializing\<rparr>)
      | Initializing \<Rightarrow>
          and_then (wait_start a () cx (cell_waiters c)) (\<lambda>(r, wl).
          case r of
            Pending \<Rightarrow> Inr (Suspended AwaitsBaton, x, c\<lparr>cell_waiters := wl\<rparr>)
          | Ready baton \<Rightarrow> take_over f x (c\<lparr>cell_waiters := wl\<rparr>))
      | Initialized v \<Rightarrow> Inr (Finished (Returned (Ok v)), x, c))"

fun get_or_try_init_resume ::
  "stage \<Rightarrow> addr \<Rightarrow> ('x, ('v, 'e) result) initializer \<Rightarrow> waker \<Rightarrow> 'x \<Rightarrow> 'v once_cell \<Rightarrow>
   (('v, 'e) result progress \<times> 'x \<times> 'v once_cell) res" where
  "get_or_try_init_resume AwaitsBaton a f cx x c =
     and_then (wait_resume a cx (cell_waiters c)) (\<lambda>(r, wl).
     case r of
       Pending \<Rightarrow> Inr (Suspended AwaitsBaton, x, c\<lparr>cell_waiters := wl\<rparr>)
     | Ready baton \<Rightarrow> take_over f x (c\<lparr>cell_waiters := wl\<rparr>))"
| "get_or_try_init_resume RunsInit a f cx x c = run_init f x c"

text \<open>Dropping the suspended future drops its waiter with the baton it may hold, or its guard.\<close>

fun get_or_try_init_drop :: "stage \<Rightarrow> addr \<Rightarrow> 'v once_cell \<Rightarrow> 'v once_cell res" where
  "get_or_try_init_drop AwaitsBaton a c =
     and_then (wait_cancel a (cell_waiters c)) (\<lambda>(slot, wl).
     let c = c\<lparr>cell_waiters := wl\<rparr> in
     case slot of Input _ \<Rightarrow> Inr c | Output baton \<Rightarrow> baton_drop c)"
| "get_or_try_init_drop RunsInit a c = guard_drop c"

section \<open>get_or_init and insert\<close>

text \<open>
  \<open>get_or_init\<close> runs \<open>get_or_try_init\<close> with an error type that has no values; the empty match on
  it is the panic below, and no answer of an initializer that cannot fail leads there.
\<close>

fun infallible :: "('v, 'e) result progress \<Rightarrow> 'v progress res" where
  "infallible (Suspended s) = Inr (Suspended s)"
| "infallible (Finished (Unwound msg)) = Inr (Finished (Unwound msg))"
| "infallible (Finished (Returned (Ok v))) = Inr (Finished (Returned v))"
| "infallible (Finished (Returned (Err e))) = Inl (Panic ''match on an empty type'')"

fun map_answer :: "('o \<Rightarrow> 'p) \<Rightarrow> 'o answer \<Rightarrow> 'p answer" where
  "map_answer g NotYet = NotYet"
| "map_answer g (Yields x) = Yields (g x)"
| "map_answer g (Panics msg) = Panics msg"

definition never_fails :: "('x, 'v) initializer \<Rightarrow> ('x, ('v, unit) result) initializer" where
  "never_fails f x = and_then (f x) (\<lambda>(ans, x). Inr (map_answer Ok ans, x))"

definition get_or_init_start ::
  "addr \<Rightarrow> ('x, 'v) initializer \<Rightarrow> waker \<Rightarrow> 'x \<Rightarrow> 'v once_cell \<Rightarrow> ('v progress \<times> 'x \<times> 'v once_cell) res" where
  "get_or_init_start a f cx x c =
     and_then (get_or_try_init_start a (never_fails f) cx x c) (\<lambda>(p, x, c).
     and_then (infallible p) (\<lambda>p. Inr (p, x, c)))"

definition get_or_init_resume ::
  "stage \<Rightarrow> addr \<Rightarrow> ('x, 'v) initializer \<Rightarrow> waker \<Rightarrow> 'x \<Rightarrow> 'v once_cell \<Rightarrow> ('v progress \<times> 'x \<times> 'v once_cell) res" where
  "get_or_init_resume s a f cx x c =
     and_then (get_or_try_init_resume s a (never_fails f) cx x c) (\<lambda>(p, x, c).
     and_then (infallible p) (\<lambda>p. Inr (p, x, c)))"

text \<open>
  The initializer of \<open>insert\<close>: it takes the value out of the captured option, and
  \<open>unwrap_unchecked\<close> of an empty option is undefined behaviour.
\<close>

definition take_value :: "('v option, 'v) initializer" where
  "take_value x = (case x of None \<Rightarrow> Inl Dangling | Some v \<Rightarrow> Inr (Yields v, None))"

fun inserted :: "'v progress \<Rightarrow> 'v option \<Rightarrow> ('v, 'v \<times> 'v) result progress" where
  "inserted (Suspended s) x = Suspended s"
| "inserted (Finished (Unwound msg)) x = Finished (Unwound msg)"
| "inserted (Finished (Returned r)) (Some v) = Finished (Returned (Err (r, v)))"
| "inserted (Finished (Returned r)) None = Finished (Returned (Ok r))"

definition insert_start ::
  "addr \<Rightarrow> waker \<Rightarrow> 'v \<Rightarrow> 'v once_cell \<Rightarrow>
   (('v, 'v \<times> 'v) result progress \<times> 'v option \<times> 'v once_cell) res" where
  "insert_start a cx v c =
     and_then (get_or_init_start a take_value cx (Some v) c) (\<lambda>(p, x, c).
     Inr (inserted p x, x, c))"

definition insert_resume ::
  "stage \<Rightarrow> addr \<Rightarrow> waker \<Rightarrow> 'v option \<Rightarrow> 'v once_cell \<Rightarrow>
   (('v, 'v \<times> 'v) result progress \<times> 'v option \<times> 'v once_cell) res" where
  "insert_resume s a cx x c =
     and_then (get_or_init_resume s a take_value cx x c) (\<lambda>(p, x, c).
     Inr (inserted p x, x, c))"

end
