(* ===== verification/Once_Cell_System.thy ===== *)
theory Once_Cell_System
  imports Once_Cell
begin

text \<open>
  The cell with its suspended futures.  \<open>cell_ok\<close> is the invariant behind the baton protocol:
  while the cell is initializing, exactly one future has the job (it runs its initializer, or it
  was woken with the baton and has not run yet); an uninitialized cell has no futures; and an
  initialized one has nobody parked.
\<close>

section \<open>The invariant\<close>

type_synonym futures = "addr \<Rightarrow> stage option"

definition has_job :: "futures \<Rightarrow> (unit, baton) wait_queue \<Rightarrow> addr \<Rightarrow> bool" where
  "has_job F q a \<longleftrightarrow> F a = Some RunsInit \<or> released q a \<noteq> None"

definition cell_matches :: "futures \<Rightarrow> 'v once_cell \<Rightarrow> bool" where
  "cell_matches F c \<longleftrightarrow>
     wl_inv (cell_waiters c) \<and> \<not> borrowed (cell_waiters c) \<and>
     q_addrs (wl_abs (cell_waiters c)) = {a. F a = Some AwaitsBaton}"

definition cell_ok :: "futures \<Rightarrow> 'v once_cell \<Rightarrow> bool" where
  "cell_ok F c \<longleftrightarrow> cell_matches F c \<and>
     (case cell_state c of
        Uninit \<Rightarrow> F = Map.empty
      | Initializing \<Rightarrow> \<exists>a. \<forall>b. has_job F (wl_abs (cell_waiters c)) b \<longleftrightarrow> b = a
      | Initialized v \<Rightarrow> parked (wl_abs (cell_waiters c)) = [] \<and> RunsInit \<notin> ran F)"

text \<open>Between two holders: the cell is initializing, and nobody has the job.\<close>

definition vacant :: "futures \<Rightarrow> 'v once_cell \<Rightarrow> bool" where
  "vacant F c \<longleftrightarrow> cell_matches F c \<and> cell_state c = Initializing \<and>
     (\<forall>a. \<not> has_job F (wl_abs (cell_waiters c)) a)"

lemma cell_matchesD:
  assumes "cell_matches F c"
  shows "wl_inv (cell_waiters c)" "\<not> borrowed (cell_waiters c)"
    "q_addrs (wl_abs (cell_waiters c)) = {a. F a = Some AwaitsBaton}"
    "\<not> q_borrowed (wl_abs (cell_waiters c))"
  using assms by (auto simp: cell_matches_def borrowed_abs)

lemma cell_matches_abs:
  assumes "cell_matches F c" and "wl_inv wl'" and "\<not> q_borrowed (wl_abs wl')"
    and "q_addrs (wl_abs wl') = {a. F' a = Some AwaitsBaton}"
  shows "cell_matches F' (c\<lparr>cell_waiters := wl'\<rparr>)"
  using assms by (simp add: cell_matches_def borrowed_abs)

lemma cell_matches_state [simp]: "cell_matches F (c\<lparr>cell_state := st\<rparr>) = cell_matches F c"
  by (simp add: cell_matches_def)

lemma no_futures:
  assumes "cell_matches F c" and "q_addrs (wl_abs (cell_waiters c)) = {}" and "RunsInit \<notin> ran F"
  shows "F = Map.empty"
proof
  fix a
  have "F a \<noteq> Some AwaitsBaton" using cell_matchesD(3) [OF assms(1)] assms(2) by auto
  moreover have "F a \<noteq> Some RunsInit" using assms(3) by (auto simp: ran_def)
  ultimately show "F a = None" by (metis option.exhaust stage.exhaust)
qed

section \<open>Dropping the job\<close>

text \<open>A dropped job goes to the waiter that has waited longest, or the cell is reset.\<close>

lemma baton_drop_passes:
  assumes "wl_inv (cell_waiters c)" and "\<not> q_borrowed (wl_abs (cell_waiters c))"
    and "cell_state c = Initializing"
  shows "\<exists>wl'. baton_drop c = Inr (c\<lparr>cell_waiters := wl',
        cell_state := (if parked (wl_abs (cell_waiters c)) = [] then Uninit else Initializing)\<rparr>) \<and>
     wl_inv wl' \<and> wl_abs wl' = snd (q_wake Baton (wl_abs (cell_waiters c)))"
proof -
  let ?q = "wl_abs (cell_waiters c)"
  from wl.borrow_law [OF assms(1,2)] obtain wl1 where
    1: "borrow (cell_waiters c) = Inr wl1" "wl_inv wl1" "wl_abs wl1 = ?q\<lparr>q_borrowed := True\<rparr>"
    by blast
  from wl.wake_law [OF 1(2), of Baton] obtain wl2 where
    2: "wake_one Baton wl1 = Inr (fst (q_wake Baton (wl_abs wl1)), wl2)" "wl_inv wl2"
      "wl_abs wl2 = snd (q_wake Baton (wl_abs wl1))"
    by blast
  have "q_borrowed (wl_abs wl2)" using 1(3) 2(3) by (auto simp: q_wake_def split: list.splits)
  from wl.release_law [OF 2(2) this] obtain wl3 where
    3: "drop_borrowed wl2 = Inr wl3" "wl_inv wl3" "wl_abs wl3 = wl_abs wl2\<lparr>q_borrowed := False\<rparr>"
    by blast
  have b: "q_borrowed ?q = False" using assms(2) by simp
  have "wl_abs wl3 = snd (q_wake Baton ?q)"
    using 1(3) 2(3) 3(3) b by (cases ?q) (auto simp: q_wake_def split: list.splits)
  moreover have "baton_drop c = Inr (c\<lparr>cell_waiters := wl3,
      cell_state := (if parked ?q = [] then Uninit else Initializing)\<rparr>)"
    using assms(3) 1 2 3
    by (cases c; cases "parked ?q") (auto simp: baton_drop_def q_wake_def)
  ultimately show ?thesis using 3(2) by blast
qed

lemma baton_drop_idle: "cell_state c \<noteq> Initializing \<Longrightarrow> baton_drop c = Inr c"
  by (simp add: baton_drop_def)

lemma baton_drop_ok:
  assumes "vacant F c"
  shows "\<exists>c'. baton_drop c = Inr c' \<and> cell_ok F c' \<and> cell_get c' = None"
proof -
  let ?q = "wl_abs (cell_waiters c)"
  from assms have m: "cell_matches F c" and st: "cell_state c = Initializing"
    and v: "\<And>a. F a \<noteq> Some RunsInit" "\<And>a. released ?q a = None"
    by (auto simp: vacant_def has_job_def)
  note ok = cell_matchesD [OF m]
  from baton_drop_passes [OF ok(1,4) st] obtain wl' where
    w: "baton_drop c = Inr (c\<lparr>cell_waiters := wl', cell_state := (if parked ?q = [] then Uninit else Initializing)\<rparr>)"
    "wl_inv wl'" "wl_abs wl' = snd (q_wake Baton ?q)"
    by blast
  show ?thesis
  proof (cases "parked ?q")
    case Nil
    then have q: "wl_abs wl' = ?q" using w(3) by (simp add: q_wake_def)
    have "q_addrs ?q = {}" using Nil v(2) by (auto simp: q_addrs_def)
    moreover have "RunsInit \<notin> ran F" using v(1) by (auto simp: ran_def)
    ultimately have "F = Map.empty" using no_futures [OF m] by blast
    moreover have "cell_matches F (c\<lparr>cell_waiters := wl'\<rparr>)"
      using cell_matches_abs [OF m w(2)] ok q by simp
    ultimately show ?thesis using w(1) Nil by (simp add: cell_ok_def cell_get_def)
  next
    case (Cons e es)
    obtain a i k where e: "e = (a, i, k)" by (cases e)
    have q: "wl_abs wl' = ?q\<lparr>parked := es, released := (released ?q)(a \<mapsto> Baton), q_woken := q_woken ?q @ [k]\<rparr>"
      using w(3) Cons e by (simp add: q_wake_def)
    have "q_addrs (wl_abs wl') = q_addrs ?q"
      using Cons e v(2) by (auto simp: q q_addrs_def)
    then have "cell_matches F (c\<lparr>cell_waiters := wl'\<rparr>)"
      using cell_matches_abs [OF m w(2)] ok q by simp
    moreover have "has_job F (wl_abs wl') b \<longleftrightarrow> b = a" for b
      using v by (simp add: has_job_def q)
    ultimately show ?thesis using w(1) Cons st by (auto simp: cell_ok_def cell_get_def)
  qed
qed

section \<open>Finishing\<close>

lemma wake_all_drains:
  assumes "wl_inv wl" and "cell_state c \<noteq> Initializing"
  shows "\<exists>wl'. wake_all (c\<lparr>cell_waiters := wl\<rparr>) = Inr (c\<lparr>cell_waiters := wl'\<rparr>) \<and>
     wl_inv wl' \<and> wl_abs wl' = q_drain Baton (wl_abs wl)"
proof -
  have "wake_all (c\<lparr>cell_waiters := l\<rparr>) =
      and_then (wake_one Baton l) (\<lambda>(r, l). case r of
        Ok _ \<Rightarrow> wake_all (c\<lparr>cell_waiters := l\<rparr>) | Err e \<Rightarrow> baton_drop (c\<lparr>cell_waiters := l\<rparr>))" for l
    by (subst wake_all.simps) (simp cong: result.case_cong)
  from wl.drain [where loop = "\<lambda>l. wake_all (c\<lparr>cell_waiters := l\<rparr>)"
      and finish = "\<lambda>e l. baton_drop (c\<lparr>cell_waiters := l\<rparr>)", OF this assms(1)] assms(2)
  show ?thesis by (auto simp: baton_drop_idle)
qed

lemma finish_init_eq:
  assumes "wl_inv (cell_waiters c)" and "\<not> q_borrowed (wl_abs (cell_waiters c))"
  shows "\<exists>wl'. finish_init v c = Inr (v, c\<lparr>cell_state := Initialized v, cell_waiters := wl'\<rparr>) \<and>
     wl_inv wl' \<and> wl_abs wl' = q_drain Baton (wl_abs (cell_waiters c))"
proof -
  let ?c = "c\<lparr>cell_state := Initialized v\<rparr>" and ?q = "wl_abs (cell_waiters c)"
  from wl.borrow_law [OF assms] obtain wl1 where
    1: "borrow (cell_waiters c) = Inr wl1" "wl_inv wl1" "wl_abs wl1 = ?q\<lparr>q_borrowed := True\<rparr>"
    by blast
  from wake_all_drains [OF 1(2), of ?c] obtain wl2 where
    2: "wake_all (?c\<lparr>cell_waiters := wl1\<rparr>) = Inr (?c\<lparr>cell_waiters := wl2\<rparr>)" "wl_inv wl2"
      "wl_abs wl2 = q_drain Baton (wl_abs wl1)"
    by auto
  have "q_borrowed (wl_abs wl2)" using 1(3) 2(3) by (simp add: q_drain_def)
  from wl.release_law [OF 2(2) this] obtain wl3 where
    3: "drop_borrowed wl2 = Inr wl3" "wl_inv wl3" "wl_abs wl3 = wl_abs wl2\<lparr>q_borrowed := False\<rparr>"
    by blast
  have "q_borrowed ?q = False" using assms(2) by simp
  then have "wl_abs wl3 = q_drain Baton ?q"
    using 1(3) 2(3) 3(3) by (cases ?q) (simp add: q_drain_def cong: if_cong)
  with 1(1) 2(1) 3(1,2) show ?thesis
    by (intro exI [of _ wl3]) (simp add: finish_init_def Let_def get_unwrap_def cell_get_def)
qed

lemma finish_init_ok:
  assumes "vacant F c"
  shows "\<exists>c'. finish_init v c = Inr (v, c') \<and> cell_ok F c' \<and> cell_get c' = Some v"
proof -
  from assms have m: "cell_matches F c" and r: "\<And>a. F a \<noteq> Some RunsInit"
    by (auto simp: vacant_def has_job_def)
  note ok = cell_matchesD [OF m]
  from finish_init_eq [OF ok(1,4), of v] obtain wl' where
    w: "finish_init v c = Inr (v, c\<lparr>cell_state := Initialized v, cell_waiters := wl'\<rparr>)" "wl_inv wl'"
    "wl_abs wl' = q_drain Baton (wl_abs (cell_waiters c))"
    by blast
  have "q_addrs (wl_abs wl') = q_addrs (wl_abs (cell_waiters c))"
    by (force simp: w(3) q_drain_def q_addrs_def split: if_splits)
  then have "cell_matches F (c\<lparr>cell_state := Initialized v, cell_waiters := wl'\<rparr>)"
    using cell_matches_abs [of F "c\<lparr>cell_state := Initialized v\<rparr>" wl' F] m w(2,3) ok
    by (simp add: q_drain_def)
  with w r show ?thesis
    by (simp add: cell_ok_def cell_get_def ran_def q_drain_def)
qed

section \<open>Polls and drops\<close>

text \<open>What a poll of the future at \<open>a\<close> leaves behind.\<close>

definition polled ::
  "futures \<Rightarrow> addr \<Rightarrow> ('v, 'e) result progress \<Rightarrow> 'v once_cell \<Rightarrow> bool" where
  "polled F a p c \<longleftrightarrow>
     (case p of
        Suspended s \<Rightarrow> cell_ok (F(a \<mapsto> s)) c
      | Finished out \<Rightarrow> cell_ok (F(a := None)) c \<and>
          (\<forall>v. out = Returned (Ok v) \<longrightarrow> cell_get c = Some v))"

lemma cell_matches_runs:
  assumes "F a \<noteq> Some AwaitsBaton"
  shows "cell_matches (F(a \<mapsto> RunsInit)) c = cell_matches F c"
  using assms by (auto simp: cell_matches_def)

lemma run_init_ok:
  assumes "vacant (F(a := None)) c" and "f x = Inr (ans, x')"
  shows "\<exists>p c'. run_init f x c = Inr (p, x', c') \<and> polled F a p c'"
proof (cases ans)
  case NotYet
  have "cell_ok (F(a \<mapsto> RunsInit)) c"
    using assms(1) cell_matches_runs [of "F(a := None)" a c]
    by (auto simp: vacant_def cell_ok_def has_job_def split: if_splits)
  with NotYet assms(2) show ?thesis by (simp add: run_init_def polled_def)
next
  case (Panics msg)
  with baton_drop_ok [OF assms(1)] assms(2) show ?thesis
    by (auto simp: run_init_def guard_drop_def polled_def)
next
  case (Yields r)
  show ?thesis
  proof (cases r)
    case (Ok v)
    with Yields finish_init_ok [OF assms(1), of v] assms(2) show ?thesis
      by (auto simp: run_init_def polled_def)
  next
    case (Err e)
    with Yields baton_drop_ok [OF assms(1)] assms(2) show ?thesis
      by (auto simp: run_init_def guard_drop_def polled_def)
  qed
qed

lemma start_ok:
  assumes "cell_ok F c" and "F a = None" and "\<And>x. \<exists>ans x'. f x = Inr (ans, x')"
  shows "\<exists>p x' c'. get_or_try_init_start a f cx x c = Inr (p, x', c') \<and> polled F a p c'"
proof -
  from assms(1) have m: "cell_matches F c" by (simp add: cell_ok_def)
  note ok = cell_matchesD [OF m]
  have F: "F(a := None) = F" using assms(2) by (simp add: fun_upd_idem)
  show ?thesis
  proof (cases "cell_state c")
    case Uninit
    with assms(1) have "F = Map.empty" by (simp add: cell_ok_def)
    moreover from this ok(3) have "released (wl_abs (cell_waiters c)) = Map.empty"
      by (simp add: q_addrs_def)
    ultimately have "vacant F (c\<lparr>cell_state := Initializing\<rparr>)"
      using m by (simp add: vacant_def has_job_def)
    with run_init_ok [of F a _ f x] assms(3) [of x] F Uninit show ?thesis
      by (fastforce simp: get_or_try_init_start_def)
  next
    case Initializing
    have "a \<notin> q_addrs (wl_abs (cell_waiters c))" using ok(3) assms(2) by simp
    from wl.start_law [OF ok(1,4) this, of "()" cx] obtain wl' where
      w: "wait_start a () cx (cell_waiters c) = Inr (Pending, wl')" "wl_inv wl'"
      "wl_abs wl' = q_start a () cx (wl_abs (cell_waiters c))"
      by blast
    have "q_addrs (wl_abs wl') = {b. (F(a \<mapsto> AwaitsBaton)) b = Some AwaitsBaton}"
      using ok(3) by (auto simp: w(3) q_start_def q_addrs_def)
    then have "cell_matches (F(a \<mapsto> AwaitsBaton)) (c\<lparr>cell_waiters := wl'\<rparr>)"
      using cell_matches_abs [OF m w(2)] ok(4) w(3) by (simp add: q_start_def)
    moreover have "has_job (F(a \<mapsto> AwaitsBaton)) (wl_abs wl') b = has_job F (wl_abs (cell_waiters c)) b" for b
      using assms(2) by (auto simp: has_job_def w(3) q_start_def)
    ultimately show ?thesis
      using w(1) Initializing assms(1)
      by (simp add: get_or_try_init_start_def polled_def cell_ok_def)
  next
    case (Initialized v)
    with assms(1) F show ?thesis
      by (simp add: get_or_try_init_start_def polled_def cell_get_def)
  qed
qed

text \<open>A waiter that was handed the baton leaves the list.\<close>

lemma leave_list:
  assumes "cell_ok F c" and "released (wl_abs (cell_waiters c)) a \<noteq> None" and "wl_inv wl'"
    and "wl_abs wl' = wl_abs (cell_waiters c)\<lparr>released := (released (wl_abs (cell_waiters c)))(a := None)\<rparr>"
  shows "cell_state c = Initializing \<Longrightarrow> vacant (F(a := None)) (c\<lparr>cell_waiters := wl'\<rparr>)"
    and "cell_state c = Initialized v \<Longrightarrow> cell_ok (F(a := None)) (c\<lparr>cell_waiters := wl'\<rparr>)"
    and "cell_state c \<noteq> Uninit"
proof -
  let ?q = "wl_abs (cell_waiters c)"
  from assms(1) have m: "cell_matches F c" by (simp add: cell_ok_def)
  note ok = cell_matchesD [OF m]
  have a: "a \<notin> fst ` set (parked ?q)" using wl.disjoint_law [OF ok(1)] assms(2) by force
  have Fa: "F a = Some AwaitsBaton" using ok(3) assms(2) by (auto simp: q_addrs_def)
  have "q_addrs (wl_abs wl') = q_addrs ?q - {a}" using a by (auto simp: assms(4) q_addrs_def)
  also have "\<dots> = {b. (F(a := None)) b = Some AwaitsBaton}" using ok(3) by auto
  finally have m': "cell_matches (F(a := None)) (c\<lparr>cell_waiters := wl'\<rparr>)"
    using cell_matches_abs [OF m assms(3)] ok(4) assms(4) by simp
  show "cell_state c \<noteq> Uninit" using assms(1) Fa by (auto simp: cell_ok_def)
  {
    assume st: "cell_state c = Initializing"
    with assms(1) obtain b where u: "\<And>b'. has_job F ?q b' \<longleftrightarrow> b' = b" by (auto simp: cell_ok_def)
    have "has_job F ?q a" using assms(2) by (simp add: has_job_def)
    with u have "\<not> has_job F ?q b" if "b \<noteq> a" for b using that u by simp
    then have "\<not> has_job (F(a := None)) (wl_abs wl') b" for b
      by (cases "b = a") (auto simp: has_job_def assms(4))
    with m' st show "vacant (F(a := None)) (c\<lparr>cell_waiters := wl'\<rparr>)" by (simp add: vacant_def)
  }
  {
    assume "cell_state c = Initialized v"
    with assms(1,4) m' show "cell_ok (F(a := None)) (c\<lparr>cell_waiters := wl'\<rparr>)"
      by (auto simp: cell_ok_def ran_def)
  }
qed

lemma cell_get_Some: "cell_get c = Some v \<longleftrightarrow> cell_state c = Initialized v"
  by (auto simp: cell_get_def split: cell_state.splits)

lemma cell_get_waiters [simp]: "cell_get (c\<lparr>cell_waiters := wl\<rparr>) = cell_get c"
  by (simp add: cell_get_def)

lemma runs_init_vacant:
  assumes "cell_ok F c" and "F a = Some RunsInit"
  shows "vacant (F(a := None)) c"
proof -
  from assms(1) have m: "cell_matches F c" by (simp add: cell_ok_def)
  have st: "cell_state c = Initializing"
    using assms by (cases "cell_state c") (auto simp: cell_ok_def ran_def)
  have "cell_matches (F(a := None)) c"
    using m assms(2) by (auto simp: cell_matches_def)
  moreover obtain b where u: "\<And>b'. has_job F (wl_abs (cell_waiters c)) b' \<longleftrightarrow> b' = b"
    using assms(1) st by (auto simp: cell_ok_def)
  have "has_job F (wl_abs (cell_waiters c)) a" using assms(2) by (simp add: has_job_def)
  then have "b = a" using u by simp
  have "a \<notin> q_addrs (wl_abs (cell_waiters c))" using cell_matchesD(3) [OF m] assms(2) by simp
  then have "released (wl_abs (cell_waiters c)) a = None" by (auto simp: q_addrs_def)
  then have "\<not> has_job (F(a := None)) (wl_abs (cell_waiters c)) b'" for b'
    using u [of b'] \<open>b = a\<close> by (cases "b' = a") (auto simp: has_job_def)
  ultimately show ?thesis using st by (simp add: vacant_def)
qed

lemma take_over_ok:
  assumes "cell_ok F c" and "released (wl_abs (cell_waiters c)) a \<noteq> None" and "wl_inv wl'"
    and "wl_abs wl' = wl_abs (cell_waiters c)\<lparr>released := (released (wl_abs (cell_waiters c)))(a := None)\<rparr>"
    and "\<And>x. \<exists>ans x'. f x = Inr (ans, x')"
  shows "\<exists>p x' c'. take_over f x (c\<lparr>cell_waiters := wl'\<rparr>) = Inr (p, x', c') \<and> polled F a p c' \<and>
     (\<forall>v. cell_get c = Some v \<longrightarrow> p = Finished (Returned (Ok v)) \<and> cell_get c' = Some v)"
proof (cases "cell_state c")
  case Uninit
  with leave_list(3) [OF assms(1-4)] show ?thesis by simp
next
  case Initializing
  from assms(5) [of x] obtain ans x' where "f x = Inr (ans, x')" by blast
  from run_init_ok [of F a _ f x, OF leave_list(1) [OF assms(1-4) Initializing] this] Initializing
  show ?thesis by (auto simp: take_over_def cell_get_def)
next
  case (Initialized v)
  with leave_list(2) [OF assms(1-4) Initialized] show ?thesis
    by (simp add: take_over_def baton_drop_idle polled_def cell_get_Some)
qed

lemma resume_ok:
  assumes "cell_ok F c" and "F a = Some s" and "\<And>x. \<exists>ans x'. f x = Inr (ans, x')"
  shows "\<exists>p x' c'. get_or_try_init_resume s a f cx x c = Inr (p, x', c') \<and> polled F a p c' \<and>
     (\<forall>v. cell_get c = Some v \<longrightarrow> p = Finished (Returned (Ok v)) \<and> cell_get c' = Some v)"
proof (cases s)
  case RunsInit
  from assms(3) [of x] obtain ans x' where f: "f x = Inr (ans, x')" by blast
  have v: "vacant (F(a := None)) c" using runs_init_vacant assms(1,2) RunsInit by blast
  then have "cell_get c = None" by (simp add: vacant_def cell_get_def)
  with run_init_ok [of F a c f x, OF v f] RunsInit show ?thesis by auto
next
  case AwaitsBaton
  let ?q = "wl_abs (cell_waiters c)"
  from assms(1) have m: "cell_matches F c" by (simp add: cell_ok_def)
  note ok = cell_matchesD [OF m]
  have a: "a \<in> q_addrs ?q" using ok(3) assms(2) AwaitsBaton by simp
  from wl.resume_law [OF ok(1,4) a, of cx] obtain wl' where
    w: "wait_resume a cx (cell_waiters c) = Inr (fst (q_resume a cx ?q), wl')" "wl_inv wl'"
    "wl_abs wl' = snd (q_resume a cx ?q)"
    by blast
  show ?thesis
  proof (cases "released ?q a")
    case (Some b)
    with w have "wl_abs wl' = ?q\<lparr>released := (released ?q)(a := None)\<rparr>" by (simp add: q_resume_def)
    with take_over_ok [where f = f and x = x, OF assms(1) _ w(2) _ assms(3), of a] Some w(1) AwaitsBaton show ?thesis
      by (simp add: q_resume_def)
  next
    case None
    have "F(a \<mapsto> AwaitsBaton) = F" using assms(2) AwaitsBaton by auto
    have q: "wl_abs wl' = ?q\<lparr>parked := map (\<lambda>(b, i, k). (b, i, if b = a then cx else k)) (parked ?q)\<rparr>"
      using w(3) None by (simp add: q_resume_def)
    have "fst ` set (parked (wl_abs wl')) = fst ` set (parked ?q)" by (force simp: q image_image)
    then have "q_addrs (wl_abs wl') = q_addrs ?q" by (simp add: q_addrs_def q)
    then have "cell_matches F (c\<lparr>cell_waiters := wl'\<rparr>)"
      using cell_matches_abs [OF m w(2)] ok(3,4) q by simp
    moreover have "parked ?q \<noteq> []" using a None by (auto simp: q_addrs_def)
    ultimately have "cell_ok F (c\<lparr>cell_waiters := wl'\<rparr>)" "cell_get c = None"
      using assms(1) q by (auto simp: cell_ok_def has_job_def cell_get_def split: cell_state.splits)
    with w(1) None AwaitsBaton \<open>F(a \<mapsto> AwaitsBaton) = F\<close> show ?thesis
      by (simp add: q_resume_def polled_def)
  qed
qed

lemma cell_drop_woken_ok:
  assumes "cell_ok F c" and "F a = Some AwaitsBaton" and "released (wl_abs (cell_waiters c)) a = Some b"
  shows "\<exists>c'. get_or_try_init_drop AwaitsBaton a c = Inr c' \<and> cell_ok (F(a := None)) c' \<and> cell_get c' = cell_get c"
proof -
  let ?q = "wl_abs (cell_waiters c)"
  from assms(1) have m: "cell_matches F c" by (simp add: cell_ok_def)
  note ok = cell_matchesD [OF m]
  have "filter (\<lambda>e. fst e \<noteq> a) (parked ?q) = parked ?q"
    using wl.disjoint_law [OF ok(1)] assms(3) by (intro filter_fst_neq) force
  with wl.cancel_released_law [OF ok(1,4) assms(3)] obtain wl' where
    w: "wait_cancel a (cell_waiters c) = Inr (Output b, wl')" "wl_inv wl'"
    "wl_abs wl' = ?q\<lparr>released := (released ?q)(a := None)\<rparr>"
    by (auto simp: q_cancel_def)
  have r: "released ?q a \<noteq> None" using assms(3) by simp
  note leave = leave_list [OF assms(1) r w(2,3)]
  show ?thesis
  proof (cases "cell_state c")
    case Initializing
    with baton_drop_ok [OF leave(1)] w(1) show ?thesis by (auto simp: cell_get_def)
  next
    case (Initialized v)
    with leave(2) w(1) show ?thesis by (simp add: baton_drop_idle)
  qed (use leave(3) in simp)
qed

lemma cell_drop_parked_ok:
  assumes "cell_ok F c" and "F a = Some AwaitsBaton" and "released (wl_abs (cell_waiters c)) a = None"
  shows "\<exists>c'. get_or_try_init_drop AwaitsBaton a c = Inr c' \<and> cell_ok (F(a := None)) c' \<and> cell_get c' = cell_get c"
proof -
  let ?q = "wl_abs (cell_waiters c)"
  from assms(1) have m: "cell_matches F c" by (simp add: cell_ok_def)
  note ok = cell_matchesD [OF m]
  have a: "a \<in> q_addrs ?q" using ok(3) assms(2) by simp
  with assms(3) obtain k where p: "(a, (), k) \<in> set (parked ?q)" by (auto simp: q_addrs_def)
  from wl.cancel_parked_law [OF ok(1,4) p] obtain wl' where
    w: "wait_cancel a (cell_waiters c) = Inr (Input (), wl')" "wl_inv wl'" "wl_abs wl' = q_cancel a ?q"
    by blast
  have "(released ?q)(a := None) = released ?q" using assms(3) by (simp add: fun_upd_idem)
  then have q: "wl_abs wl' = ?q\<lparr>parked := filter (\<lambda>e. fst e \<noteq> a) (parked ?q)\<rparr>"
    using w(3) by (simp add: q_cancel_def)
  have "q_addrs (wl_abs wl') = q_addrs ?q - {a}" using assms(3) by (auto simp: q q_addrs_def)
  also have "\<dots> = {b. (F(a := None)) b = Some AwaitsBaton}" using ok(3) by auto
  finally have "cell_matches (F(a := None)) (c\<lparr>cell_waiters := wl'\<rparr>)"
    using cell_matches_abs [OF m w(2)] ok(4) q by simp
  moreover have "has_job (F(a := None)) (wl_abs wl') b = has_job F ?q b" for b
    using assms(2) by (auto simp: has_job_def q)
  ultimately have "cell_ok (F(a := None)) (c\<lparr>cell_waiters := wl'\<rparr>)"
    using assms(1,2) p by (auto simp: cell_ok_def ran_def split: cell_state.splits)
  with w(1) show ?thesis by simp
qed

lemma drop_ok:
  assumes "cell_ok F c" and "F a = Some s"
  shows "\<exists>c'. get_or_try_init_drop s a c = Inr c' \<and> cell_ok (F(a := None)) c' \<and> cell_get c' = cell_get c"
proof (cases s)
  case RunsInit
  have v: "vacant (F(a := None)) c" using runs_init_vacant assms RunsInit by blast
  then have "cell_get c = None" by (simp add: vacant_def cell_get_def)
  with baton_drop_ok [OF v] RunsInit show ?thesis by (simp add: guard_drop_def)
next
  case AwaitsBaton
  with assms cell_drop_woken_ok [of F c a] cell_drop_parked_ok [of F c a] show ?thesis
    by (cases "released (wl_abs (cell_waiters c)) a") auto
qed

lemma start_keeps_value:
  assumes "cell_get c = Some v"
  shows "get_or_try_init_start a f cx x c = Inr (Finished (Returned (Ok v)), x, c)"
  using assms by (simp add: get_or_try_init_start_def cell_get_Some)

lemma set_eq:
  "cell_set v c = Inr (case cell_state c of
      Uninit \<Rightarrow> (SetOk v, c\<lparr>cell_state := Initialized v\<rparr>)
    | Initializing \<Rightarrow> (SetInitializing v, c)
    | Initialized r \<Rightarrow> (SetInitialized r v, c))"
  by (simp add: cell_set_def get_unwrap_def cell_get_def split: cell_state.split)

lemma set_ok:
  assumes "cell_ok F c" and "cell_set v c = Inr (r, c')"
  shows "cell_ok F c'"
  using assms
  by (auto simp: set_eq cell_ok_def cell_matches_def q_addrs_def split: cell_state.splits)

section \<open>The cell and its futures as a system\<close>

record ('v, 'e) cell_sys =
  the_cell :: "'v once_cell"
  pending_inits :: futures
  returned :: "(addr \<times> ('v, 'e) result outcome) list"

datatype ('v, 'e) cell_op =
    StartInit addr "('v, 'e) result answer" waker
  | PollInit addr "('v, 'e) result answer" waker
  | DropInit addr
  | SetCell 'v

fun cell_enabled :: "('v, 'e) cell_op \<Rightarrow> ('v, 'e) cell_sys \<Rightarrow> bool" where
  "cell_enabled (StartInit a ans cx) S \<longleftrightarrow> pending_inits S a = None"
| "cell_enabled (PollInit a ans cx) S \<longleftrightarrow> pending_inits S a \<noteq> None"
| "cell_enabled (DropInit a) S \<longleftrightarrow> pending_inits S a \<noteq> None"
| "cell_enabled (SetCell v) S \<longleftrightarrow> True"

definition answers :: "'o answer \<Rightarrow> (unit, 'o) initializer" where
  "answers ans x = Inr (ans, x)"

definition record_poll ::
  "addr \<Rightarrow> ('v, 'e) result progress \<Rightarrow> 'v once_cell \<Rightarrow> ('v, 'e) cell_sys \<Rightarrow> ('v, 'e) cell_sys" where
  "record_poll a p c S =
     (case p of
        Suspended s \<Rightarrow> S\<lparr>the_cell := c, pending_inits := (pending_inits S)(a \<mapsto> s)\<rparr>
      | Finished out \<Rightarrow> S\<lparr>the_cell := c, pending_inits := (pending_inits S)(a := None),
                          returned := returned S @ [(a, out)]\<rparr>)"

fun cell_exec :: "('v, 'e) cell_op \<Rightarrow> ('v, 'e) cell_sys \<Rightarrow> ('v, 'e) cell_sys res" where
  "cell_exec (StartInit a ans cx) S =
     and_then (get_or_try_init_start a (answers ans) cx () (the_cell S)) (\<lambda>(p, _, c).
     Inr (record_poll a p c S))"
| "cell_exec (PollInit a ans cx) S =
     (case pending_inits S a of
        None \<Rightarrow> Inr S
      | Some s \<Rightarrow>
          and_then (get_or_try_init_resume s a (answers ans) cx () (the_cell S)) (\<lambda>(p, _, c).
          Inr (record_poll a p c S)))"
| "cell_exec (DropInit a) S =
     (case pending_inits S a of
        None \<Rightarrow> Inr S
      | Some s \<Rightarrow>
          and_then (get_or_try_init_drop s a (the_cell S)) (\<lambda>c.
          Inr (S\<lparr>the_cell := c, pending_inits := (pending_inits S)(a := None)\<rparr>)))"
| "cell_exec (SetCell v) S = and_then (cell_set v (the_cell S)) (\<lambda>(r, c). Inr (S\<lparr>the_cell := c\<rparr>))"

definition cell_start :: "('v, 'e) cell_sys \<Rightarrow> bool" where
  "cell_start S \<longleftrightarrow> pending_inits S = Map.empty \<and> returned S = [] \<and>
     (the_cell S = once_cell_new \<or> (\<exists>v. the_cell S = cell_from v))"

text \<open>The calls that go through a shared reference.\<close>

inductive cell_shared_step :: "('v, 'e) cell_sys \<Rightarrow> ('v, 'e) cell_sys \<Rightarrow> bool" where
  cell_shared_call: "cell_enabled op S \<Longrightarrow> cell_exec op S = Inr S' \<Longrightarrow> cell_shared_step S S'"

inductive_cases cell_shared_stepE: "cell_shared_step S S'"

text \<open>
  All calls: \<open>get_mut\<close> and \<open>take\<close> need the cell exclusively, so no future that borrows it is alive.
\<close>

inductive cell_step :: "('v, 'e) cell_sys \<Rightarrow> ('v, 'e) cell_sys \<Rightarrow> bool" where
  cell_call: "cell_enabled op S \<Longrightarrow> cell_exec op S = Inr S' \<Longrightarrow> cell_step S S'"
| cell_mutate: "pending_inits S = Map.empty \<Longrightarrow>
    cell_step S (S\<lparr>the_cell := snd (cell_get_mut g (the_cell S))\<rparr>)"
| cell_taken: "pending_inits S = Map.empty \<Longrightarrow> cell_step S (S\<lparr>the_cell := snd (cell_take (the_cell S))\<rparr>)"

inductive_cases cell_stepE: "cell_step S S'"

definition cell_sys_ok :: "('v, 'e) cell_sys \<Rightarrow> bool" where
  "cell_sys_ok S \<longleftrightarrow> cell_ok (pending_inits S) (the_cell S)"

text \<open>Every value ever returned is the one in the cell.\<close>

definition agrees :: "('v, 'e) cell_sys \<Rightarrow> bool" where
  "agrees S \<longleftrightarrow> (\<forall>a v. (a, Returned (Ok v)) \<in> set (returned S) \<longrightarrow> cell_get (the_cell S) = Some v)"

lemma new_ok: "cell_ok Map.empty once_cell_new" "cell_ok Map.empty (cell_from v)"
  by (auto simp: cell_ok_def cell_matches_def once_cell_new_def cell_from_def new_refines
      wait_list_new_def [symmetric] q_new_def q_addrs_def borrowed_abs [symmetric])

lemma record_poll_ok:
  assumes "polled (pending_inits S) a p c"
  shows "cell_sys_ok (record_poll a p c S)"
  using assms by (cases p) (simp_all add: record_poll_def cell_sys_ok_def polled_def)

lemma record_poll_agrees:
  assumes "agrees S" and "polled (pending_inits S) a p c"
    and "\<And>v. cell_get (the_cell S) = Some v \<Longrightarrow> cell_get c = Some v"
  shows "agrees (record_poll a p c S)"
  using assms by (cases p) (auto simp: record_poll_def agrees_def polled_def)

lemma cell_exec_ok:
  assumes "cell_sys_ok S" and "cell_enabled op S"
  shows "\<exists>S'. cell_exec op S = Inr S' \<and> cell_sys_ok S' \<and>
     (\<forall>v. cell_get (the_cell S) = Some v \<longrightarrow> cell_get (the_cell S') = Some v) \<and>
     (agrees S \<longrightarrow> agrees S')"
proof -
  have ok: "cell_ok (pending_inits S) (the_cell S)" using assms(1) by (simp add: cell_sys_ok_def)
  have ans: "\<exists>ans' x'. answers ans x = Inr (ans', x')" for ans :: "('a, 'b) result answer" and x
    by (simp add: answers_def)
  have cell [simp]: "the_cell (record_poll a p c S) = c" for a p c
    by (simp add: record_poll_def split: progress.split)
  show ?thesis
  proof (cases op)
    case (StartInit a an cx)
    then have "pending_inits S a = None" using assms(2) by simp
    from start_ok [where f = "answers an" and cx = cx and x = "()", OF ok this ans] obtain p c where
      e: "get_or_try_init_start a (answers an) cx () (the_cell S) = Inr (p, (), c)"
      and p: "polled (pending_inits S) a p c"
      by auto
    have k: "cell_get c = Some v" if "cell_get (the_cell S) = Some v" for v
      using start_keeps_value [OF that, of a "answers an" cx "()"] e that by simp
    with e p StartInit record_poll_ok [OF p] record_poll_agrees [OF _ p k] show ?thesis by simp
  next
    case (PollInit a an cx)
    then obtain s where s: "pending_inits S a = Some s" using assms(2) by auto
    from resume_ok [where f = "answers an" and cx = cx and x = "()", OF ok this ans] obtain p c where
      e: "get_or_try_init_resume s a (answers an) cx () (the_cell S) = Inr (p, (), c)"
      and p: "polled (pending_inits S) a p c"
      and k: "\<And>v. cell_get (the_cell S) = Some v \<Longrightarrow> cell_get c = Some v"
      by auto
    from e s PollInit k record_poll_ok [OF p] record_poll_agrees [OF _ p k] show ?thesis by simp
  next
    case (DropInit a)
    then obtain s where s: "pending_inits S a = Some s" using assms(2) by auto
    from drop_ok [OF ok this] s DropInit show ?thesis
      by (auto simp: cell_sys_ok_def agrees_def)
  next
    case (SetCell v)
    obtain r c where r: "cell_set v (the_cell S) = Inr (r, c)"
      by (cases "cell_state (the_cell S)") (simp_all add: set_eq)
    moreover have "cell_get c = Some v'" if "cell_get (the_cell S) = Some v'" for v'
      using r that by (auto simp: set_eq cell_get_Some split: cell_state.splits)
    ultimately show ?thesis using SetCell set_ok [OF ok r] by (auto simp: cell_sys_ok_def agrees_def)
  qed
qed

lemma cell_start_ok: "cell_start S \<Longrightarrow> cell_sys_ok S" "cell_start S \<Longrightarrow> agrees S"
  using new_ok by (auto simp: cell_start_def cell_sys_ok_def agrees_def)

lemma cell_step_ok:
  assumes "cell_step S T" and "cell_sys_ok S"
  shows "cell_sys_ok T"
  using assms(1)
proof cases
  case (cell_call op)
  with cell_exec_ok [OF assms(2)] show ?thesis by fastforce
next
  case (cell_mutate g)
  with assms(2) show ?thesis
    by (auto simp: cell_get_mut_def cell_sys_ok_def cell_ok_def split: cell_state.splits)
next
  case cell_taken
  with new_ok(1) show ?thesis by (simp add: cell_take_def cell_sys_ok_def)
qed

lemma cell_shared_step_ok:
  assumes "cell_shared_step S T" and "cell_sys_ok S \<and> agrees S"
  shows "cell_sys_ok T \<and> agrees T"
  using assms(1)
proof cases
  case (cell_shared_call op)
  with cell_exec_ok [of S op] assms(2) show ?thesis by fastforce
qed

interpretation cell_all: inductive_invariant cell_start cell_step cell_sys_ok
  by unfold_locales (fact cell_start_ok(1) cell_step_ok)+

interpretation cell_shared: inductive_invariant cell_start cell_shared_step
  "\<lambda>S. cell_sys_ok S \<and> agrees S"
  by unfold_locales (use cell_start_ok cell_shared_step_ok in blast)+

end
