(* ===== verification/Once_Cell_Props.thy ===== *)
theory Once_Cell_Props
  imports Once_Cell_System
begin

text \<open>
  The properties of the once-cell in every reachable state of the system, the exact results of
  \<open>insert\<close>, and the unit tests of the crate and the examples of its documentation run on the
  model.
\<close>

section \<open>Exact results of the polls that end or pass the job\<close>

abbreviation cell_queue :: "('v, 'e) cell_sys \<Rightarrow> (unit, baton) wait_queue" where
  "cell_queue S \<equiv> wl_abs (cell_waiters (the_cell S))"

lemma runner_finishes:
  assumes "cell_sys_ok S" and "pending_inits S a = Some RunsInit"
  shows "\<exists>S'. cell_exec (PollInit a (Yields (Ok v)) cx) S = Inr S' \<and>
     cell_get (the_cell S') = Some v \<and> returned S' = returned S @ [(a, Returned (Ok v))] \<and>
     pending_inits S' = (pending_inits S)(a := None) \<and> cell_queue S' = q_drain Baton (cell_queue S)"
proof -
  have "cell_matches (pending_inits S) (the_cell S)"
    using assms(1) by (simp add: cell_sys_ok_def cell_ok_def)
  note ok = cell_matchesD [OF this]
  from finish_init_eq [OF ok(1,4), of v] assms(2) show ?thesis
    by (auto simp: run_init_def answers_def record_poll_def cell_get_def)
qed

lemma runner_gives_up:
  assumes "cell_sys_ok S" and "pending_inits S a = Some RunsInit"
    and "op = DropInit a \<or> op = PollInit a (Yields (Err e)) cx \<or> op = PollInit a (Panics msg) cx"
  shows "\<exists>S'. cell_exec op S = Inr S' \<and>
     pending_inits S' = (pending_inits S)(a := None) \<and>
     cell_state (the_cell S') = (if parked (cell_queue S) = [] then Uninit else Initializing) \<and>
     cell_queue S' = snd (q_wake Baton (cell_queue S))"
proof -
  have ok: "cell_ok (pending_inits S) (the_cell S)" using assms(1) by (simp add: cell_sys_ok_def)
  then have "cell_matches (pending_inits S) (the_cell S)" by (simp add: cell_ok_def)
  note m = cell_matchesD [OF this]
  have "cell_state (the_cell S) = Initializing"
    using runs_init_vacant [OF ok assms(2)] by (simp add: vacant_def)
  from baton_drop_passes [OF m(1,4) this] assms(2,3) show ?thesis
    by (auto simp: run_init_def answers_def record_poll_def guard_drop_def)
qed

section \<open>Properties\<close>

text \<open>C31.
  No call that ownership allows faults, in any reachable state: the list is never found borrowed,
  the \<open>unreachable!\<close> after a wait is not reached, the value is present when it is unwrapped, and
  no waiter is left dangling, whatever the initializers answer.
\<close>

theorem once_cell_no_fault:
  assumes "reachable cell_start cell_step S" and "cell_enabled op S"
  shows "\<exists>S'. cell_exec op S = Inr S'"
  using cell_exec_ok [OF cell_all.inv_reachable [OF assms(1)] assms(2)] by blast

text \<open>C3.
  The baton protocol.  While the cell is initializing, exactly one future has the job: it is
  running its initializer, or it has been handed the baton and not run yet.  Initializers run and
  waiters are parked only while the cell is initializing, so nobody waits for an initialization
  that no living future can finish; and an empty cell has no futures at all.
\<close>

theorem once_cell_one_initializer:
  assumes "reachable cell_start cell_step S"
  shows "(cell_state (the_cell S) = Initializing \<longrightarrow> (\<exists>!a. has_job (pending_inits S) (cell_queue S) a)) \<and>
     (RunsInit \<in> ran (pending_inits S) \<longrightarrow> cell_state (the_cell S) = Initializing) \<and>
     (parked (cell_queue S) \<noteq> [] \<longrightarrow> cell_state (the_cell S) = Initializing) \<and>
     (cell_state (the_cell S) = Uninit \<longrightarrow> pending_inits S = Map.empty)"
proof -
  have ok: "cell_ok (pending_inits S) (the_cell S)"
    using cell_all.inv_reachable [OF assms] by (simp add: cell_sys_ok_def)
  then have m: "q_addrs (cell_queue S) = {a. pending_inits S a = Some AwaitsBaton}"
    by (auto simp: cell_ok_def dest: cell_matchesD(3))
  show ?thesis
  proof (cases "cell_state (the_cell S)")
    case Uninit
    with ok have e: "pending_inits S = Map.empty" by (simp add: cell_ok_def)
    with m have "parked (cell_queue S) = []" by (auto simp: q_addrs_def)
    with e Uninit show ?thesis by simp
  next
    case Initializing
    with ok show ?thesis by (auto simp: cell_ok_def)
  next
    case (Initialized v)
    with ok show ?thesis by (simp add: cell_ok_def)
  qed
qed

lemma value_kept:
  assumes "cell_shared_step\<^sup>*\<^sup>* S T" and "cell_sys_ok S" and "cell_get (the_cell S) = Some v"
  shows "cell_sys_ok T \<and> cell_get (the_cell T) = Some v"
  using assms
proof (induction rule: rtranclp_induct)
  case (step T U)
  from step.hyps(2) obtain op where op: "cell_enabled op T" "cell_exec op T = Inr U"
    by (rule cell_shared_stepE)
  from cell_exec_ok [OF _ op(1)] op(2) step.IH [OF step.prems] show ?case by auto
qed simp

text \<open>C30.
  Written once.  Through a shared reference the value never changes again once it is set, and
  every future that ever returned successfully returned that one value, however initializers,
  \<open>set\<close> and cancellations interleave.
\<close>

theorem once_cell_write_once:
  assumes "reachable cell_start cell_shared_step S"
  shows "((a, Returned (Ok v)) \<in> set (returned S) \<longrightarrow> cell_get (the_cell S) = Some v) \<and>
     (cell_shared_step\<^sup>*\<^sup>* S T \<longrightarrow> cell_get (the_cell S) = Some v \<longrightarrow> cell_get (the_cell T) = Some v)"
  using cell_shared.inv_reachable [OF assms] value_kept [of S T v] by (simp add: agrees_def)

text \<open>C24.
  When the running initializer succeeds, its future returns the value, every parked waiter is
  woken, in order, and each waiter's next poll returns the same value without asking its own
  initializer.
\<close>

theorem once_cell_success_wakes_all:
  assumes "reachable cell_start cell_step S" and "pending_inits S a = Some RunsInit"
  shows "\<exists>S'. cell_exec (PollInit a (Yields (Ok v)) cx) S = Inr S' \<and>
     returned S' = returned S @ [(a, Returned (Ok v))] \<and> parked (cell_queue S') = [] \<and>
     q_woken (cell_queue S') = q_woken (cell_queue S) @ map (\<lambda>(a, i, k). k) (parked (cell_queue S)) \<and>
     (\<forall>b f x. pending_inits S b = Some AwaitsBaton \<longrightarrow>
        (\<exists>c. get_or_try_init_resume AwaitsBaton b (f :: ('x, ('v, 'e) result) initializer) cx x (the_cell S') =
           Inr (Finished (Returned (Ok v)), x, c)))"
proof -
  note inv = cell_all.inv_reachable [OF assms(1)]
  from runner_finishes [OF inv assms(2), of v cx] obtain S' where
    S': "cell_exec (PollInit a (Yields (Ok v)) cx) S = Inr S'" "cell_get (the_cell S') = Some v"
    "returned S' = returned S @ [(a, Returned (Ok v))]"
    "pending_inits S' = (pending_inits S)(a := None)" "cell_queue S' = q_drain Baton (cell_queue S)"
    by blast
  have e: "cell_enabled (PollInit a (Yields (Ok v)) cx) S" using assms(2) by simp
  from cell_exec_ok [OF inv e] S'(1) have "cell_sys_ok S'" by auto
  then have m: "cell_matches (pending_inits S') (the_cell S')"
    by (simp add: cell_sys_ok_def cell_ok_def)
  note ok = cell_matchesD [OF m]
  have "\<exists>c. get_or_try_init_resume AwaitsBaton b f cx x (the_cell S') =
      Inr (Finished (Returned (Ok v)), x, c)"
    if "pending_inits S b = Some AwaitsBaton" for b x and f :: "('x, ('v, 'e) result) initializer"
  proof -
    have "pending_inits S' b = Some AwaitsBaton" using that assms(2) S'(4) by auto
    then have b: "b \<in> q_addrs (cell_queue S')" using ok(3) by simp
    then obtain h where "released (cell_queue S') b = Some h"
      using S'(5) by (auto simp: q_addrs_def q_drain_def split: if_splits)
    with wl.resume_law [OF ok(1,4) b, of cx] S'(2) show ?thesis
      by (auto simp: q_resume_def take_over_def cell_get_Some baton_drop_idle)
  qed
  with S' show ?thesis by (auto simp: q_drain_def)
qed

text \<open>C20.
  When the running initializer fails, panics or is dropped while others wait, the cell stays in
  the initializing state, the waiter that has waited longest is woken, and its next poll runs its
  own initializer; when nobody waits the cell is empty again and the next call starts over.
\<close>

theorem once_cell_failure_hands_over:
  assumes "reachable cell_start cell_step S" and "pending_inits S a = Some RunsInit"
    and "op = DropInit a \<or> op = PollInit a (Yields (Err e)) cx \<or> op = PollInit a (Panics msg) cx"
  shows "\<exists>S'. cell_exec op S = Inr S' \<and>
     (case parked (cell_queue S) of
        [] \<Rightarrow> cell_state (the_cell S') = Uninit \<and> pending_inits S' = Map.empty
      | (b, i, k) # es \<Rightarrow>
          cell_state (the_cell S') = Initializing \<and> parked (cell_queue S') = es \<and>
          q_woken (cell_queue S') = q_woken (cell_queue S) @ [k] \<and>
          (\<exists>S2. cell_exec (PollInit b NotYet k) S' = Inr S2 \<and> pending_inits S2 b = Some RunsInit))"
proof -
  note inv = cell_all.inv_reachable [OF assms(1)]
  from runner_gives_up [OF inv assms(2,3)] obtain S' where
    S': "cell_exec op S = Inr S'" "pending_inits S' = (pending_inits S)(a := None)"
    "cell_state (the_cell S') = (if parked (cell_queue S) = [] then Uninit else Initializing)"
    "cell_queue S' = snd (q_wake Baton (cell_queue S))"
    by blast
  have "cell_enabled op S" using assms(2,3) by auto
  from cell_exec_ok [OF inv this] S'(1) have "cell_sys_ok S'" by auto
  then have m: "cell_matches (pending_inits S') (the_cell S')"
    by (simp add: cell_sys_ok_def cell_ok_def)
  note ok = cell_matchesD [OF m]
  show ?thesis
  proof (cases "parked (cell_queue S)")
    case Nil
    with S' \<open>cell_sys_ok S'\<close> show ?thesis by (simp add: cell_sys_ok_def cell_ok_def)
  next
    case (Cons w es)
    obtain b i k where w: "w = (b, i, k)" by (cases w)
    have q: "cell_queue S' = cell_queue S\<lparr>parked := es, released := (released (cell_queue S))(b \<mapsto> Baton),
        q_woken := q_woken (cell_queue S) @ [k]\<rparr>"
      using S'(4) Cons w by (simp add: q_wake_def)
    then have b: "b \<in> q_addrs (cell_queue S')" by (simp add: q_addrs_def)
    then have "pending_inits S' b = Some AwaitsBaton" using ok(3) by simp
    with wl.resume_law [OF ok(1,4) b, of k] S'(3) Cons
    have "\<exists>S2. cell_exec (PollInit b NotYet k) S' = Inr S2 \<and> pending_inits S2 b = Some RunsInit"
      by (auto simp: q_resume_def q take_over_def run_init_def answers_def record_poll_def)
    with S'(1,3) Cons w q show ?thesis by simp
  qed
qed

lemma insert_stores:
  assumes "wl_inv (cell_waiters c)" and "\<not> q_borrowed (wl_abs (cell_waiters c))"
  shows "\<exists>c'. finish_init v c = Inr (v, c') \<and> cell_get c' = Some v"
  using finish_init_eq [OF assms, of v] by (auto simp: cell_get_def)

lemma insert_start_eq:
  assumes "cell_matches P c" and "P a = None"
  shows "\<exists>c'. insert_start a cx v c = Inr (case cell_state c of
       Uninit \<Rightarrow> (Finished (Returned (Ok v)), None, c')
     | Initializing \<Rightarrow> (Suspended AwaitsBaton, Some v, c')
     | Initialized r \<Rightarrow> (Finished (Returned (Err (r, v))), Some v, c')) \<and>
     cell_get c' = (if cell_state c = Uninit then Some v else cell_get c)"
proof -
  note m = cell_matchesD [OF assms(1)]
  show ?thesis
  proof (cases "cell_state c")
    case Uninit
    with insert_stores [of "c\<lparr>cell_state := Initializing\<rparr>" v] m(1,4) show ?thesis
      by (auto simp: insert_start_def get_or_init_start_def get_or_try_init_start_def run_init_def
          never_fails_def take_value_def)
  next
    case Initializing
    have "a \<notin> q_addrs (wl_abs (cell_waiters c))" using m(3) assms(2) by simp
    from wl.start_law [OF m(1,4) this, of "()" cx] Initializing show ?thesis
      by (auto simp: insert_start_def get_or_init_start_def get_or_try_init_start_def)
  next
    case (Initialized r)
    then show ?thesis
      by (auto simp: insert_start_def get_or_init_start_def get_or_try_init_start_def)
  qed
qed

lemma insert_resume_eq:
  assumes "cell_ok P c" and "P a = Some AwaitsBaton"
  shows "\<exists>c'. insert_resume AwaitsBaton a cx (Some v) c = Inr (case released (wl_abs (cell_waiters c)) a of
       None \<Rightarrow> (Suspended AwaitsBaton, Some v, c')
     | Some _ \<Rightarrow> (case cell_get c of
           None \<Rightarrow> (Finished (Returned (Ok v)), None, c')
         | Some r \<Rightarrow> (Finished (Returned (Err (r, v))), Some v, c'))) \<and>
     cell_get c' = (if released (wl_abs (cell_waiters c)) a \<noteq> None \<and> cell_get c = None then Some v
       else cell_get c)"
proof -
  let ?q = "wl_abs (cell_waiters c)"
  from assms(1) have "cell_matches P c" by (simp add: cell_ok_def)
  note m = cell_matchesD [OF this]
  have q: "a \<in> q_addrs ?q" using m(3) assms(2) by simp
  from wl.resume_law [OF m(1,4) q, of cx] obtain l where
    l: "wait_resume a cx (cell_waiters c) = Inr (fst (q_resume a cx ?q), l)"
    "wl_inv l" "wl_abs l = snd (q_resume a cx ?q)"
    by blast
  show ?thesis
  proof (cases "released ?q a")
    case None
    with l(1) show ?thesis by (auto simp: insert_resume_def get_or_init_resume_def q_resume_def)
  next
    case (Some b)
    then have ql: "wl_abs l = ?q\<lparr>released := (released ?q)(a := None)\<rparr>" using l(3) by (simp add: q_resume_def)
    show ?thesis
    proof (cases "cell_state c")
      case Uninit
      with assms show ?thesis by (simp add: cell_ok_def)
    next
      case Initializing
      with insert_stores [of "c\<lparr>cell_waiters := l\<rparr>" v] l(1,2) ql m(4) Some show ?thesis
        by (auto simp: insert_resume_def get_or_init_resume_def q_resume_def take_over_def run_init_def
            never_fails_def take_value_def cell_get_def)
    next
      case (Initialized r)
      with l(1) Some show ?thesis
        by (auto simp: insert_resume_def get_or_init_resume_def q_resume_def take_over_def
            baton_drop_idle cell_get_def)
    qed
  qed
qed

text \<open>C32.
  \<open>insert\<close> stores its value exactly when it gets to initialize the cell: at once in an empty cell,
  or later when it has waited and is handed the job.  In every other case it gives its own value
  back together with the value in the cell, and never takes the value twice.
\<close>

theorem once_cell_insert:
  assumes "reachable cell_start cell_step S"
  shows "(pending_inits S a = None \<longrightarrow>
      (\<exists>c. insert_start a cx v (the_cell S) = Inr (case cell_state (the_cell S) of
          Uninit \<Rightarrow> (Finished (Returned (Ok v)), None, c)
        | Initializing \<Rightarrow> (Suspended AwaitsBaton, Some v, c)
        | Initialized r \<Rightarrow> (Finished (Returned (Err (r, v))), Some v, c)) \<and>
        cell_get c = (if cell_state (the_cell S) = Uninit then Some v else cell_get (the_cell S)))) \<and>
    (pending_inits S a = Some AwaitsBaton \<longrightarrow>
      (\<exists>c. insert_resume AwaitsBaton a cx (Some v) (the_cell S) = Inr (case released (cell_queue S) a of
          None \<Rightarrow> (Suspended AwaitsBaton, Some v, c)
        | Some _ \<Rightarrow> (case cell_get (the_cell S) of
              None \<Rightarrow> (Finished (Returned (Ok v)), None, c)
            | Some r \<Rightarrow> (Finished (Returned (Err (r, v))), Some v, c))) \<and>
        cell_get c = (if released (cell_queue S) a \<noteq> None \<and> cell_get (the_cell S) = None then Some v
          else cell_get (the_cell S))))"
proof -
  have "cell_ok (pending_inits S) (the_cell S)"
    using cell_all.inv_reachable [OF assms] by (simp add: cell_sys_ok_def)
  moreover from this have "cell_matches (pending_inits S) (the_cell S)" by (simp add: cell_ok_def)
  ultimately show ?thesis
    using insert_start_eq [of "pending_inits S" "the_cell S" a cx v]
      insert_resume_eq [of "pending_inits S" "the_cell S" a cx v] by blast
qed

text \<open>
  Filling an empty cell whose list is free and has no one parked: the wake-up of all waiters finds
  nobody, and the cell is what \<open>set\<close> makes of it.
\<close>

lemma finish_init_alone:
  assumes "wl_inv (cell_waiters c)" and "\<not> borrowed (cell_waiters c)" and "parked (wl_abs (cell_waiters c)) = []"
  shows "finish_init v c = Inr (v, c\<lparr>cell_state := Initialized v\<rparr>)"
proof -
  have "head (inner (cell_waiters c)) = None"
    using wl.empty_law [OF assms(1)] assms(3) by (simp add: is_empty_def)
  with assms(2) show ?thesis
    by (cases c, cases "cell_waiters c")
      (simp add: finish_init_def borrow_free wake_all.simps wake_one_def baton_drop_idle get_unwrap_def cell_get_def
        drop_borrowed_def)
qed

lemma start_alone:
  assumes "cell_ok F c" and "cell_state c = Uninit" and "f x = Inr (Yields (Ok v), x')"
  shows "get_or_try_init_start a f cx x c = Inr (Finished (Returned (Ok v)), x', c\<lparr>cell_state := Initialized v\<rparr>)"
proof -
  have m: "cell_matches F c" and F: "F = Map.empty" using assms(1,2) by (auto simp: cell_ok_def)
  have "parked (wl_abs (cell_waiters c)) = []"
    using cell_matchesD(3) [OF m] F by (simp add: q_addrs_def)
  with cell_matchesD(1,2) [OF m] finish_init_alone [of "c\<lparr>cell_state := Initializing\<rparr>" v] assms(2,3)
  show ?thesis by (simp add: get_or_try_init_start_def run_init_def)
qed

text \<open>C39.
  Every way to fill an empty cell gives the same cell.  In a state in which the cell is empty, \<open>set\<close>,
  and \<open>get_or_init\<close>, \<open>get_or_try_init\<close> and \<open>insert\<close> with an initializer that is ready at once, all
  succeed with the value and leave one and the same cell, pointers included; it reads back the value,
  \<open>take\<close> gives the value and a new empty cell, and a clone is equal to it.
\<close>

theorem once_cell_filled_alike:
  assumes "reachable cell_start cell_step S" and "cell_state (the_cell S) = Uninit"
  shows "\<exists>c. cell_set v (the_cell S) = Inr (SetOk v, c) \<and>
     get_or_init_start a (answers (Yields v)) cx () (the_cell S) = Inr (Finished (Returned v), (), c) \<and>
     get_or_try_init_start a (answers (Yields (Ok v :: ('v, 'e) result))) cx () (the_cell S) =
       Inr (Finished (Returned (Ok v)), (), c) \<and>
     insert_start a cx v (the_cell S) = Inr (Finished (Returned (Ok v)), None, c) \<and>
     cell_get c = Some v \<and> cell_into_inner c = Some v \<and> cell_take c = (Some v, once_cell_new) \<and>
     cell_eq (cell_clone c) c \<and> cell_eq c (cell_from v)"
proof -
  have ok: "cell_ok (pending_inits S) (the_cell S)"
    using cell_all.inv_reachable [OF assms(1)] by (simp add: cell_sys_ok_def)
  let ?c = "the_cell S\<lparr>cell_state := Initialized v\<rparr>"
  have "cell_set v (the_cell S) = Inr (SetOk v, ?c)" using assms(2) by (simp add: set_eq)
  moreover have "get_or_init_start a (answers (Yields v)) cx () (the_cell S) = Inr (Finished (Returned v), (), ?c)"
    using start_alone [OF ok assms(2), of "never_fails (answers (Yields v))" "()" v "()" a cx]
    by (simp add: get_or_init_start_def never_fails_def answers_def)
  moreover have "get_or_try_init_start a (answers (Yields (Ok v :: ('v, 'e) result))) cx () (the_cell S) =
      Inr (Finished (Returned (Ok v)), (), ?c)"
    by (rule start_alone [OF ok assms(2)]) (simp add: answers_def)
  moreover have "insert_start a cx v (the_cell S) = Inr (Finished (Returned (Ok v)), None, ?c)"
    using start_alone [OF ok assms(2), of "never_fails take_value" "Some v" v None a cx]
    by (simp add: insert_start_def get_or_init_start_def never_fails_def take_value_def)
  moreover have "cell_get ?c = Some v \<and> cell_into_inner ?c = Some v \<and> cell_take ?c = (Some v, once_cell_new) \<and>
      cell_eq (cell_clone ?c) ?c \<and> cell_eq ?c (cell_from v)"
    by (simp add: cell_get_def cell_into_inner_def cell_take_def cell_eq_def cell_clone_def cell_from_def)
  ultimately show ?thesis by blast
qed

section \<open>Scripts and witnesses\<close>

definition cell_sys_new :: "('v, 'e) cell_sys" where
  "cell_sys_new = \<lparr>the_cell = once_cell_new, pending_inits = Map.empty, returned = []\<rparr>"

abbreviation cell_script ::
  "(('v, 'e) cell_op \<times> (('v, 'e) cell_sys \<Rightarrow> bool)) list \<Rightarrow> ('v, 'e) cell_sys \<Rightarrow> ('v, 'e) cell_sys res" where
  "cell_script \<equiv> run_script cell_enabled cell_exec"

lemma cell_start_new: "cell_start cell_sys_new"
  by (simp add: cell_start_def cell_sys_new_def)

lemma cell_script_reachable:
  assumes "cell_script calls cell_sys_new = Inr S"
  shows "reachable cell_start cell_step S" and "reachable cell_start cell_shared_step S"
  by (rule run_script_reachable [OF assms]; blast intro: reach_start cell_start_new cell_call cell_shared_call)+

text \<open>A future is pending, or it returned with this outcome at its last poll.\<close>

definition init_pending :: "addr \<Rightarrow> ('v, 'e) cell_sys \<Rightarrow> bool" where
  "init_pending a S \<longleftrightarrow> pending_inits S a \<noteq> None"

definition init_returned :: "addr \<Rightarrow> ('v, 'e) result \<Rightarrow> ('v, 'e) cell_sys \<Rightarrow> bool" where
  "init_returned a r S \<longleftrightarrow> returned S \<noteq> [] \<and> last (returned S) = (a, Returned r)"

definition two_waiting :: "(int, string) cell_sys res" where
  "two_waiting = cell_script
     [(StartInit 1 NotYet 5, any), (StartInit 2 NotYet 6, any), (StartInit 3 NotYet 7, any)] cell_sys_new"

lemma two_waiting:
  obtains S where "two_waiting = Inr S" "reachable cell_start cell_step S"
    "pending_inits S 1 = Some RunsInit" "pending_inits S 4 = None"
    "parked (cell_queue S) = [(2, (), 6), (3, (), 7)]" "cell_state (the_cell S) = Initializing"
proof -
  have "passes two_waiting (\<lambda>S. pending_inits S 1 = Some RunsInit \<and> pending_inits S 4 = None \<and>
      parked (cell_queue S) = [(2, (), 6), (3, (), 7)] \<and> cell_state (the_cell S) = Initializing)"
    by code_simp
  then obtain S where S: "two_waiting = Inr S" "pending_inits S 1 = Some RunsInit" "pending_inits S 4 = None"
    "parked (cell_queue S) = [(2, (), 6), (3, (), 7)]" "cell_state (the_cell S) = Initializing"
    by (auto elim: passesE)
  moreover have "reachable cell_start cell_step S"
    using S(1) cell_script_reachable unfolding two_waiting_def by blast
  ultimately show thesis using that by blast
qed

theorem once_cell_no_fault_witness:
  "\<exists>S S'. two_waiting = Inr S \<and> reachable cell_start cell_step S \<and>
     cell_exec (PollInit 2 (Panics ''boom'') 0) S = Inr S'"
proof (rule two_waiting)
  fix S assume S: "two_waiting = Inr S" "reachable cell_start cell_step S"
    "parked (cell_queue S) = [(2, (), 6), (3, (), 7)]"
  have "cell_matches (pending_inits S) (the_cell S)"
    using cell_all.inv_reachable [OF S(2)] by (simp add: cell_sys_ok_def cell_ok_def)
  from cell_matchesD(3) [OF this] S(3) have "pending_inits S 2 = Some AwaitsBaton"
    by (auto simp: q_addrs_def)
  then have "cell_enabled (PollInit 2 (Panics ''boom'') 0) S" by simp
  from once_cell_no_fault [OF S(2) this] S(1,2) show ?thesis by blast
qed

theorem once_cell_one_initializer_witness:
  "\<exists>S. two_waiting = Inr S \<and> reachable cell_start cell_step S \<and>
     (\<exists>!a. has_job (pending_inits S) (cell_queue S) a)"
  by (rule two_waiting) (use once_cell_one_initializer in blast)

theorem once_cell_write_once_witness:
  "\<exists>S :: (int, string) cell_sys. reachable cell_start cell_shared_step S \<and>
     (1, Returned (Ok 9)) \<in> set (returned S) \<and> cell_get (the_cell S) = Some 9 \<and>
     (\<forall>T. cell_shared_step S T \<longrightarrow> cell_get (the_cell T) = Some 9)"
proof -
  let ?c = "[(StartInit 1 NotYet 5, any), (SetCell 3, any), (PollInit 1 (Yields (Ok 9)) 5, any)]"
  have "passes (cell_script ?c (cell_sys_new :: (int, string) cell_sys))
      (\<lambda>S. (1, Returned (Ok 9)) \<in> set (returned S))"
    by code_simp
  then obtain S where S: "cell_script ?c (cell_sys_new :: (int, string) cell_sys) = Inr S"
    "(1, Returned (Ok 9)) \<in> set (returned S)"
    by (rule passesE)
  note r = cell_script_reachable(2) [OF S(1)]
  from once_cell_write_once [OF r] r S(2) show ?thesis by blast
qed

theorem once_cell_success_wakes_all_witness:
  "\<exists>S S'. two_waiting = Inr S \<and> cell_exec (PollInit 1 (Yields (Ok 9)) 5) S = Inr S' \<and>
     returned S' = returned S @ [(1, Returned (Ok 9))] \<and>
     q_woken (cell_queue S') = q_woken (cell_queue S) @ [6, 7]"
proof (rule two_waiting)
  fix S assume S: "two_waiting = Inr S" "reachable cell_start cell_step S"
    "pending_inits S 1 = Some RunsInit" "parked (cell_queue S) = [(2, (), 6), (3, (), 7)]"
  from once_cell_success_wakes_all [OF S(2,3), of 9 5, where 'x = unit] S(1,4) show ?thesis by auto
qed

theorem once_cell_failure_hands_over_witness:
  "\<exists>S S' S2. two_waiting = Inr S \<and> cell_exec (DropInit 1) S = Inr S' \<and>
     parked (cell_queue S') = [(3, (), 7)] \<and> cell_exec (PollInit 2 NotYet 6) S' = Inr S2 \<and>
     pending_inits S2 2 = Some RunsInit"
proof (rule two_waiting)
  fix S assume S: "two_waiting = Inr S" "reachable cell_start cell_step S"
    "pending_inits S 1 = Some RunsInit" "parked (cell_queue S) = [(2, (), 6), (3, (), 7)]"
  from once_cell_failure_hands_over [OF S(2,3), of "DropInit 1"] S(1,4) show ?thesis by auto
qed

theorem once_cell_insert_witness:
  "\<exists>S c d. two_waiting = Inr S \<and>
     insert_start 4 0 8 (the_cell S) = Inr (Suspended AwaitsBaton, Some 8, c) \<and>
     insert_start 4 0 8 (the_cell (cell_sys_new :: (int, string) cell_sys)) =
       Inr (Finished (Returned (Ok 8)), None, d) \<and> cell_get d = Some 8"
proof (rule two_waiting)
  fix S assume S: "two_waiting = Inr S" "reachable cell_start cell_step S"
    "cell_state (the_cell S) = Initializing" "pending_inits S 4 = None"
    "parked (cell_queue S) = [(2, (), 6), (3, (), 7)]"
  from once_cell_insert [OF S(2), of 4 0 8] S(3,4) obtain c where
    c: "insert_start 4 0 8 (the_cell S) = Inr (Suspended AwaitsBaton, Some 8, c)" by auto
  have r: "reachable cell_start cell_step (cell_sys_new :: (int, string) cell_sys)"
    by (rule reach_start) (rule cell_start_new)
  have n: "pending_inits (cell_sys_new :: (int, string) cell_sys) 4 = None"
    "cell_state (the_cell (cell_sys_new :: (int, string) cell_sys)) = Uninit"
    by (simp_all add: cell_sys_new_def once_cell_new_def)
  from once_cell_insert [OF r, of 4 0 8] n S(1) c show ?thesis by auto
qed

theorem once_cell_filled_alike_witness:
  "\<exists>S c. cell_script [(StartInit 1 NotYet 0, any), (DropInit 1, any)] (cell_sys_new :: (int, string) cell_sys) = Inr S \<and>
     cell_set 8 (the_cell S) = Inr (SetOk 8, c) \<and>
     insert_start 2 0 8 (the_cell S) = Inr (Finished (Returned (Ok 8)), None, c) \<and>
     cell_take c = (Some 8, once_cell_new)"
proof -
  let ?c = "[(StartInit 1 NotYet 0, any), (DropInit 1, any)]"
  have "passes (cell_script ?c (cell_sys_new :: (int, string) cell_sys)) (\<lambda>S. cell_state (the_cell S) = Uninit)"
    by code_simp
  then obtain S where S: "cell_script ?c (cell_sys_new :: (int, string) cell_sys) = Inr S"
    "cell_state (the_cell S) = Uninit"
    by (rule passesE)
  from once_cell_filled_alike [OF cell_script_reachable(1) [OF S(1)] S(2), of 8 2 0] S(1)
  show ?thesis by blast
qed

section \<open>The unit tests of the crate\<close>

text \<open>
  In the scripts, the answer given at each poll is that of the initializer written in the test:
  \<open>yield_now\<close> is one \<open>NotYet\<close>.
\<close>

definition insert_when_initializing :: "int once_cell res" where
  "insert_when_initializing =
     and_then (get_or_init_start 1 (answers NotYet) 0 () once_cell_new) (\<lambda>(p, _, cell).
     and_then (assert_that (p = Suspended RunsInit) cell) (\<lambda>cell.
     and_then (insert_start 2 0 6 cell) (\<lambda>(q, x, cell).
     and_then (assert_that (q = Suspended AwaitsBaton) cell) (\<lambda>cell.
     and_then (get_or_init_resume RunsInit 1 (answers NotYet) 0 () cell) (\<lambda>(p, _, cell).
     and_then (assert_that (p = Suspended RunsInit) cell) (\<lambda>cell.
     and_then (insert_resume AwaitsBaton 2 0 x cell) (\<lambda>(q, x, cell).
     and_then (assert_that (q = Suspended AwaitsBaton) cell) (\<lambda>cell.
     and_then (get_or_init_resume RunsInit 1 (answers NotYet) 0 () cell) (\<lambda>(p, _, cell).
     and_then (assert_that (p = Suspended RunsInit) cell) (\<lambda>cell.
     and_then (insert_resume AwaitsBaton 2 0 x cell) (\<lambda>(q, x, cell).
     and_then (assert_that (q = Suspended AwaitsBaton) cell) (\<lambda>cell.
     and_then (get_or_init_resume RunsInit 1 (answers (Yields 5)) 0 () cell) (\<lambda>(p, _, cell).
     and_then (assert_that (p = Finished (Returned 5)) cell) (\<lambda>cell.
     and_then (insert_resume AwaitsBaton 2 0 x cell) (\<lambda>(q, x, cell).
     assert_that (q = Finished (Returned (Err (5, 6)))) cell)))))))))))))))"

definition woken_waiter_cancelled_resets_to_uninit :: "(int, string) cell_sys res" where
  "woken_waiter_cancelled_resets_to_uninit = cell_script
     [(StartInit 1 NotYet 0, init_pending 1),
      (StartInit 2 (Yields (Ok 1)) 0, init_pending 2),
      (PollInit 1 (Yields (Err ''boom'')) 0, init_returned 1 (Err ''boom'')),
      (DropInit 2, any),
      (StartInit 3 (Yields (Ok 42)) 0, init_returned 3 (Ok 42))] cell_sys_new"

definition woken_waiter_cancelled_hands_role_to_next :: "(int, string) cell_sys res" where
  "woken_waiter_cancelled_hands_role_to_next = cell_script
     [(StartInit 1 NotYet 0, init_pending 1),
      (StartInit 2 (Yields (Ok 1)) 0, init_pending 2),
      (StartInit 3 (Yields (Ok 2)) 0, init_pending 3),
      (PollInit 1 (Yields (Err ''boom'')) 0, init_returned 1 (Err ''boom'')),
      (DropInit 2, any),
      (PollInit 3 (Yields (Ok 2)) 0, init_returned 3 (Ok 2))] cell_sys_new"

definition initializer_panic_hands_role_to_waiter :: "(int, string) cell_sys res" where
  "initializer_panic_hands_role_to_waiter = cell_script
     [(StartInit 1 NotYet 0, init_pending 1),
      (StartInit 2 (Yields (Ok 2)) 0, init_pending 2),
      (PollInit 1 (Panics ''boom'') 0, \<lambda>S. last (returned S) = (1, Unwound ''boom'')),
      (PollInit 2 (Yields (Ok 2)) 0, init_returned 2 (Ok 2))] cell_sys_new"

definition role_chains_through_failures :: "(int, string) cell_sys res" where
  "role_chains_through_failures = cell_script
     [(StartInit 1 NotYet 0, init_pending 1),
      (StartInit 2 NotYet 0, init_pending 2),
      (StartInit 3 (Yields (Ok 3)) 0, init_pending 3),
      (PollInit 1 (Yields (Err ''a'')) 0, init_returned 1 (Err ''a'')),
      (PollInit 2 NotYet 0, init_pending 2),
      (PollInit 2 (Yields (Err ''b'')) 0, init_returned 2 (Err ''b'')),
      (PollInit 3 (Yields (Ok 3)) 0, init_returned 3 (Ok 3))] cell_sys_new"

lemma once_cell_tests_pass:
  "\<not> isl insert_when_initializing"
  "passes woken_waiter_cancelled_resets_to_uninit (\<lambda>S. cell_get (the_cell S) = Some 42)"
  "passes woken_waiter_cancelled_hands_role_to_next (\<lambda>S. cell_get (the_cell S) = Some 2)"
  "passes initializer_panic_hands_role_to_waiter (\<lambda>S. cell_get (the_cell S) = Some 2)"
  "passes role_chains_through_failures (\<lambda>S. cell_get (the_cell S) = Some 3)"
  by code_simp+

section \<open>The examples of the documentation\<close>

definition set_example :: "int once_cell res" where
  "set_example =
     and_then (get_or_init_start 1 (answers NotYet) 0 () once_cell_new) (\<lambda>(p, _, cell).
     and_then (assert_that (p = Suspended RunsInit) cell) (\<lambda>cell.
     and_then (cell_set 6 cell) (\<lambda>(r, cell).
     and_then (assert_that (r = SetInitializing 6) cell) (\<lambda>cell.
     and_then (get_or_init_resume RunsInit 1 (answers (Yields 5)) 0 () cell) (\<lambda>(p, _, cell).
     and_then (assert_that (p = Finished (Returned 5)) cell) (\<lambda>cell.
     and_then (cell_set 6 cell) (\<lambda>(r, cell).
     assert_that (r = SetInitialized 5 6) cell)))))))"

definition set_after_failure_example :: "int once_cell res" where
  "set_after_failure_example =
     and_then (get_or_try_init_start 1 (answers (Yields (Err ''error''))) 0 () once_cell_new) (\<lambda>(p, _, cell).
     and_then (assert_that (p = Finished (Returned (Err ''error''))) cell) (\<lambda>cell.
     and_then (assert_that (cell_get cell = None) cell) (\<lambda>cell.
     and_then (cell_set 5 cell) (\<lambda>(r, cell).
     assert_that (r = SetOk 5) cell))))"

definition insert_example :: "int once_cell res" where
  "insert_example =
     and_then (insert_start 1 0 5 once_cell_new) (\<lambda>(p, _, cell).
     and_then (assert_that (p = Finished (Returned (Ok 5)) \<and> cell_get cell = Some 5) cell) (\<lambda>cell.
     and_then (insert_start 2 0 6 cell) (\<lambda>(p, _, cell).
     assert_that (p = Finished (Returned (Err (5, 6)))) cell)))"

definition insert_after_failure_example :: "int once_cell res" where
  "insert_after_failure_example =
     and_then (get_or_try_init_start 1 (answers (NotYet :: (int, string) result answer)) 0 () once_cell_new) (\<lambda>(p, _, cell).
     and_then (assert_that (p = Suspended RunsInit) cell) (\<lambda>cell.
     and_then (insert_start 2 0 10 cell) (\<lambda>(q, x, cell).
     and_then (assert_that (q = Suspended AwaitsBaton) cell) (\<lambda>cell.
     and_then (get_or_try_init_resume RunsInit 1 (answers (Yields (Err ''error''))) 0 () cell) (\<lambda>(p, _, cell).
     and_then (assert_that (p = Finished (Returned (Err ''error''))) cell) (\<lambda>cell.
     and_then (cell_set 0 cell) (\<lambda>(r, cell).
     and_then (assert_that (r = SetInitializing 0) cell) (\<lambda>cell.
     and_then (insert_resume AwaitsBaton 2 0 x cell) (\<lambda>(q, x, cell).
     and_then (assert_that (q = Finished (Returned (Ok 10))) cell) (\<lambda>cell.
     assert_that (cell_get cell = Some 10) cell))))))))))"

definition get_or_init_example :: "int once_cell res" where
  "get_or_init_example =
     and_then (get_or_init_start 1 (answers (Yields 13)) 0 () once_cell_new) (\<lambda>(p, _, cell).
     and_then (assert_that (p = Finished (Returned 13)) cell) (\<lambda>cell.
     and_then (get_or_init_start 2 (answers (Panics ''unreachable'')) 0 () cell) (\<lambda>(p, _, cell).
     assert_that (p = Finished (Returned 13)) cell)))"

definition take_example :: "int once_cell res" where
  "take_example =
     (let (taken, cell) = cell_take once_cell_new in
      and_then (assert_that (taken = None) cell) (\<lambda>cell.
      and_then (cell_set 10 cell) (\<lambda>(r, cell).
      and_then (set_result_unwrap r) (\<lambda>_.
      let (taken, cell) = cell_take cell in
      and_then (assert_that (taken = Some 10) cell) (\<lambda>cell.
      let (taken, cell) = cell_take cell in
      assert_that (taken = None) cell)))))"

definition into_inner_example :: "unit res" where
  "into_inner_example =
     and_then (assert_that (cell_into_inner (once_cell_new :: int once_cell) = None) ()) (\<lambda>_.
     assert_that (cell_into_inner (cell_from (10 :: int)) = Some 10) ())"

lemma once_cell_examples_pass:
  "\<not> isl set_example"
  "\<not> isl set_after_failure_example"
  "\<not> isl insert_example"
  "\<not> isl insert_after_failure_example"
  "\<not> isl get_or_init_example"
  "\<not> isl take_example"
  "\<not> isl into_inner_example"
  by code_simp+

end
