(* ===== verification/Once_Cell_Tasks.thy ===== *)
theory Once_Cell_Tasks
  imports Once_Cell_System Wait_List_Rouse
begin

text \<open>
  Tasks that want the value of one cell, on an executor that runs any task that was woken since it
  was last run and may abort any task at any time.  Each task awaits \<open>get_or_try_init\<close> with an
  initializer of its own, which yields a number of times and then answers, fails or panics.  Task \<open>k\<close>
  has the waker \<open>k\<close>, and its future lives at the address \<open>k\<close>.
\<close>

section \<open>The tasks\<close>

datatype ('v, 'e) asker = Asking nat | Underway stage nat | Answered "('v, 'e) result outcome" | Aborted

text \<open>The number of times that the initializer will still yield is its state.\<close>

fun counts_down :: "'o answer \<Rightarrow> (nat, 'o) initializer" where
  "counts_down ans 0 = Inr (ans, 0)"
| "counts_down ans (Suc m) = Inr (NotYet, m)"

fun asker_poll ::
  "addr \<Rightarrow> ('v, 'e) result answer \<Rightarrow> ('v, 'e) asker \<Rightarrow> 'v once_cell \<Rightarrow>
   (('v, 'e) result progress \<times> nat \<times> 'v once_cell) res" where
  "asker_poll k ans (Asking m) c = get_or_try_init_start k (counts_down ans) k m c"
| "asker_poll k ans (Underway s m) c = get_or_try_init_resume s k (counts_down ans) k m c"
| "asker_poll k ans (Answered out) c = Inr (Finished out, 0, c)"
| "asker_poll k ans Aborted c = Inl (Panic ''polled after it was dropped'')"

fun asker_drop :: "addr \<Rightarrow> ('v, 'e) asker \<Rightarrow> 'v once_cell \<Rightarrow> 'v once_cell res" where
  "asker_drop k (Underway s m) c = get_or_try_init_drop s k c"
| "asker_drop k a c = Inr c"

fun after :: "('v, 'e) result progress \<Rightarrow> nat \<Rightarrow> ('v, 'e) asker" where
  "after (Suspended s) m = Underway s m"
| "after (Finished out) m = Answered out"

text \<open>A task that is suspended in its initializer has been woken by its own \<open>yield_now\<close>.\<close>

fun goes_on :: "('v, 'e) result progress \<Rightarrow> bool" where
  "goes_on (Suspended RunsInit) = True"
| "goes_on p = False"

section \<open>The executor\<close>

record ('v, 'e) lobby =
  the_cell :: "'v once_cell"
  asker :: "nat \<Rightarrow> ('v, 'e) asker"
  guests :: "nat set"
  awake :: "waker set"

fun is_over :: "('v, 'e) asker \<Rightarrow> bool" where
  "is_over (Answered out) = True"
| "is_over Aborted = True"
| "is_over a = False"

definition runnable :: "nat \<Rightarrow> ('v, 'e) lobby \<Rightarrow> bool" where
  "runnable k S \<longleftrightarrow> k \<in> guests S \<and> k \<in> awake S \<and> \<not> is_over (asker S k)"

definition new_calls :: "'v once_cell \<Rightarrow> 'v once_cell \<Rightarrow> waker set" where
  "new_calls c c' = set (drop (length (woken (cell_waiters c))) (woken (cell_waiters c')))"

definition run_asker ::
  "(nat \<Rightarrow> ('v, 'e) result answer) \<Rightarrow> nat \<Rightarrow> ('v, 'e) lobby \<Rightarrow> ('v, 'e) lobby res" where
  "run_asker plan k S =
     and_then (asker_poll k (plan k) (asker S k) (the_cell S)) (\<lambda>(p, m, c).
     Inr (S\<lparr>the_cell := c, asker := (asker S)(k := after p m),
       awake := awake S - {k} \<union> (if goes_on p then {k} else {}) \<union> new_calls (the_cell S) c\<rparr>))"

definition abort_asker :: "nat \<Rightarrow> ('v, 'e) lobby \<Rightarrow> ('v, 'e) lobby res" where
  "abort_asker k S =
     and_then (asker_drop k (asker S k) (the_cell S)) (\<lambda>c.
     Inr (S\<lparr>the_cell := c, asker := (asker S)(k := Aborted), awake := awake S \<union> new_calls (the_cell S) c\<rparr>))"

definition lobby_start ::
  "nat \<Rightarrow> (nat \<Rightarrow> nat) \<Rightarrow> (nat \<Rightarrow> ('v, 'e) result answer) \<Rightarrow> ('v, 'e) lobby \<Rightarrow> bool" where
  "lobby_start n delay plan S \<longleftrightarrow> (\<forall>k<n. plan k \<noteq> NotYet) \<and>
     S = \<lparr>the_cell = once_cell_new, asker = (\<lambda>k. Asking (delay k)), guests = {..<n}, awake = {..<n}\<rparr>"

inductive lobby_step :: "(nat \<Rightarrow> ('v, 'e) result answer) \<Rightarrow> ('v, 'e) lobby \<Rightarrow> ('v, 'e) lobby \<Rightarrow> bool" for plan where
  run_asker: "runnable k S \<Longrightarrow> run_asker plan k S = Inr S' \<Longrightarrow> lobby_step plan S S'"
| abort_asker: "k \<in> guests S \<Longrightarrow> \<not> is_over (asker S k) \<Longrightarrow> abort_asker k S = Inr S' \<Longrightarrow> lobby_step plan S S'"

inductive_cases lobby_stepE: "lobby_step plan S S'"

section \<open>What a poll and a drop do\<close>

abbreviation cq :: "'v once_cell \<Rightarrow> (unit, baton) wait_queue" where
  "cq c \<equiv> wl_abs (cell_waiters c)"

fun progress_of :: "('v, 'e) result answer \<Rightarrow> ('v, 'e) result progress" where
  "progress_of NotYet = Suspended RunsInit"
| "progress_of (Yields r) = Finished (Returned r)"
| "progress_of (Panics msg) = Finished (Unwound msg)"

lemma baton_drop_rouses:
  assumes "wl_inv (cell_waiters c)" and "\<not> q_borrowed (cq c)" and "own_wakers (cq c)"
  obtains c' where "baton_drop c = Inr c'" and "rouses k (cq c) (cq c')" and "own_wakers (cq c')"
    and "cell_state c = Initializing \<Longrightarrow> cell_get c' = None"
proof (cases "cell_state c = Initializing")
  case True
  from baton_drop_passes [OF assms(1,2) True] rouses_wake(1) [of k "cq c" Baton] rouses_wake(2) [of "cq c" Baton] assms(3) that show thesis
    by (fastforce simp: cell_get_def)
next
  case False
  with baton_drop_idle [OF False] that assms(3) show thesis by (simp add: rouses_refl)
qed

text \<open>A poll of the initializer, by the one who has the job.\<close>

lemma run_init_rouses:
  assumes "wl_inv (cell_waiters c)" and "\<not> q_borrowed (cq c)" and "own_wakers (cq c)"
    and "cell_state c = Initializing" and "f x = Inr (ans, x')"
  obtains c' where "run_init f x c = Inr (progress_of ans, x', c')" and "rouses k (cq c) (cq c')"
    and "own_wakers (cq c')" and "\<And>v. cell_get c' = Some v \<longleftrightarrow> ans = Yields (Ok v)"
proof -
  obtain d where d: "baton_drop c = Inr d" "rouses k (cq c) (cq d)" "own_wakers (cq d)" "cell_get d = None"
    using baton_drop_rouses [OF assms(1-3)] assms(4) by metis
  show thesis
  proof (cases ans)
    case NotYet
    with assms(3-5) that [of c] show thesis by (simp add: run_init_def rouses_refl cell_get_def)
  next
    case (Panics msg)
    with assms(5) d that [of d] show thesis by (simp add: run_init_def guard_drop_def)
  next
    case (Yields r)
    show thesis
    proof (cases r)
      case (Err e)
      with Yields assms(5) d that [of d] show thesis by (simp add: run_init_def guard_drop_def)
    next
      case (Ok v)
      from finish_init_eq [OF assms(1,2), of v] obtain wl' where
        "finish_init v c = Inr (v, c\<lparr>cell_state := Initialized v, cell_waiters := wl'\<rparr>)"
        "wl_abs wl' = q_drain Baton (cq c)"
        by blast
      with Yields Ok assms(5) that [of "c\<lparr>cell_state := Initialized v, cell_waiters := wl'\<rparr>"] show thesis
        by (auto simp: run_init_def rouses_drain cell_get_def)
    qed
  qed
qed

text \<open>What a poll of task \<open>k\<close> leads to, in cell \<open>c'\<close>, when its initializer has \<open>m\<close> yields to go.\<close>

definition went ::
  "addr \<Rightarrow> ('v, 'e) result answer \<Rightarrow> nat \<Rightarrow> 'v once_cell \<Rightarrow> ('v, 'e) result progress \<times> nat \<times> 'v once_cell \<Rightarrow> bool" where
  "went k ans m c r \<longleftrightarrow> (case r of (p, m', c') \<Rightarrow>
     rouses k (cq c) (cq c') \<and> own_wakers (cq c') \<and>
     (p = Suspended AwaitsBaton \<longrightarrow> m' = m \<and> k \<in> fst ` set (parked (cq c'))) \<and>
     (p = Suspended RunsInit \<longrightarrow> m = Suc m') \<and>
     (\<forall>v. cell_get c = Some v \<longrightarrow> cell_get c' = Some v) \<and>
     (\<forall>v. cell_get c' = Some v \<longrightarrow> cell_get c = Some v \<or> ans = Yields (Ok v)) \<and>
     (\<forall>e. p = Finished (Returned (Err e)) \<longrightarrow> ans = Yields (Err e)) \<and>
     (\<forall>msg. p = Finished (Unwound msg) \<longrightarrow> ans = Panics msg))"

text \<open>The job is done, or half done, from a state \<open>d\<close> in which the task has it.\<close>

lemma init_went:
  assumes "wl_inv (cell_waiters d)" and "\<not> q_borrowed (cq d)" and "own_wakers (cq d)" and "cell_state d = Initializing"
    and "rouses k (cq c) (cq d)" and "cell_get c = None" and "ans \<noteq> NotYet"
  obtains p m' c' where "run_init (counts_down ans) m d = Inr (p, m', c')" and "went k ans m c (p, m', c')"
    and "p \<noteq> Suspended AwaitsBaton"
proof (cases m)
  case 0
  have f: "counts_down ans m = Inr (ans, 0)" by (simp add: 0)
  obtain c' where r: "run_init (counts_down ans) m d = Inr (progress_of ans, 0, c')" "rouses k (cq d) (cq c')"
    "own_wakers (cq c')" "\<And>v. cell_get c' = Some v \<longleftrightarrow> ans = Yields (Ok v)"
    by (rule run_init_rouses [where f = "counts_down ans" and x = m and k = k, OF assms(1-4) f]) (rule that)
  have "went k ans m c (progress_of ans, 0, c')"
    using r assms(6,7) rouses_trans [OF assms(5) r(2)] by (cases ans) (auto simp: went_def)
  moreover have "progress_of ans \<noteq> Suspended AwaitsBaton" using assms(7) by (cases ans) simp_all
  ultimately show thesis by (rule that [OF r(1)])
next
  case (Suc m')
  have f: "counts_down ans m = Inr (NotYet, m')" by (simp add: Suc)
  obtain c' where r: "run_init (counts_down ans) m d = Inr (progress_of NotYet, m', c')" "rouses k (cq d) (cq c')"
    "own_wakers (cq c')" "\<And>v. cell_get c' = Some v \<longleftrightarrow> NotYet = Yields (Ok v :: ('a, 'b) result)"
    by (rule run_init_rouses [where f = "counts_down ans" and x = m and k = k, OF assms(1-4) f]) (rule that)
  have "went k ans m c (Suspended RunsInit, m', c')"
    using r assms(6) rouses_trans [OF assms(5) r(2)] Suc by (auto simp: went_def)
  with r(1) show thesis by (intro that [of "Suspended RunsInit" m' c']) simp_all
qed

lemma start_went:
  assumes "cell_ok F c" and "F k = None" and "own_wakers (cq c)" and "ans \<noteq> NotYet"
  obtains p m' c' where "get_or_try_init_start k (counts_down ans) k m c = Inr (p, m', c')" and "went k ans m c (p, m', c')"
proof (cases "cell_state c")
  case Uninit
  let ?d = "c\<lparr>cell_state := Initializing\<rparr>"
  from assms(1) have "cell_matches F c" by (simp add: cell_ok_def)
  note ok = cell_matchesD [OF this]
  obtain p m' c' where "run_init (counts_down ans) m ?d = Inr (p, m', c')" "went k ans m c (p, m', c')"
    by (rule init_went [of ?d k c ans m]) (use ok assms(3,4) Uninit in \<open>simp_all add: rouses_refl cell_get_def\<close>)
  with Uninit that show thesis by (simp add: get_or_try_init_start_def)
next
  case Initializing
  from assms(1) have "cell_matches F c" by (simp add: cell_ok_def)
  note ok = cell_matchesD [OF this]
  have "k \<notin> q_addrs (cq c)" using ok(3) assms(2) by simp
  from wl.start_law [OF ok(1,4) this, of "()" k] obtain wl' where
    w: "wait_start k () k (cell_waiters c) = Inr (Pending, wl')" "wl_abs wl' = q_start k () k (cq c)"
    by blast
  have "went k ans m c (Suspended AwaitsBaton, m, c\<lparr>cell_waiters := wl'\<rparr>)"
    using w(2) assms(3) Initializing rouses_start(1) [of k "cq c" "()" k] rouses_start(2) [of "cq c" k "()"]
    by (simp add: went_def cell_get_def) (simp add: q_start_def)
  with w(1) Initializing that show thesis by (simp add: get_or_try_init_start_def)
next
  case (Initialized v)
  have "went k ans m c (Finished (Returned (Ok v)), m, c)" using assms(3) by (simp add: went_def rouses_refl)
  with Initialized that show thesis by (simp add: get_or_try_init_start_def)
qed

lemma resume_went:
  assumes "cell_ok F c" and "F k = Some s" and "own_wakers (cq c)" and "ans \<noteq> NotYet"
  obtains p m' c' where "get_or_try_init_resume s k (counts_down ans) k m c = Inr (p, m', c')"
    and "went k ans m c (p, m', c')" and "p = Suspended AwaitsBaton \<Longrightarrow> s = AwaitsBaton \<and> cq c' = cq c"
proof (cases s)
  case RunsInit
  have v: "vacant (F(k := None)) c" using runs_init_vacant assms(1,2) RunsInit by blast
  then have "cell_matches (F(k := None)) c" and st: "cell_state c = Initializing" by (simp_all add: vacant_def)
  note ok = cell_matchesD [OF this(1)]
  obtain p m' c' where "run_init (counts_down ans) m c = Inr (p, m', c')" "went k ans m c (p, m', c')" "p \<noteq> Suspended AwaitsBaton"
    by (rule init_went [of c k c ans m]) (use ok assms(3,4) st in \<open>simp_all add: rouses_refl cell_get_def\<close>)
  with RunsInit that show thesis by simp
next
  case AwaitsBaton
  from assms(1) have m: "cell_matches F c" by (simp add: cell_ok_def)
  note ok = cell_matchesD [OF m]
  have a: "k \<in> q_addrs (cq c)" using ok(3) assms(2) AwaitsBaton by simp
  from wl.resume_law [OF ok(1,4) a, of k] obtain wl' where
    w: "wait_resume k k (cell_waiters c) = Inr (fst (q_resume k k (cq c)), wl')" "wl_inv wl'"
    "wl_abs wl' = snd (q_resume k k (cq c))"
    by blast
  show thesis
  proof (cases "released (cq c) k")
    case None
    have q: "wl_abs wl' = cq c" using w(3) resume_own [OF assms(3) None] by simp
    have "went k ans m c (Suspended AwaitsBaton, m, c\<lparr>cell_waiters := wl'\<rparr>)"
      using q assms(3) a None by (auto simp: went_def rouses_refl q_addrs_def)
    then show thesis using w(1) None AwaitsBaton q
      by (intro that [of "Suspended AwaitsBaton" m "c\<lparr>cell_waiters := wl'\<rparr>"]) (simp_all add: q_resume_def)
  next
    case (Some b)
    let ?d = "c\<lparr>cell_waiters := wl'\<rparr>"
    have q: "wl_abs wl' = cq c\<lparr>released := (released (cq c))(k := None)\<rparr>" using w(3) Some by (simp add: q_resume_def)
    have r: "rouses k (cq c) (cq ?d)" "own_wakers (cq ?d)" using q assms(3) by (simp_all add: rouses_same own_wakers_def)
    have e: "get_or_try_init_resume s k (counts_down ans) k m c = take_over (counts_down ans) m ?d"
      using w(1) Some AwaitsBaton by (simp add: q_resume_def)
    have u: "cell_state c \<noteq> Uninit" using leave_list(3) [OF assms(1) _ w(2) q] Some by simp
    show thesis
    proof (cases "cell_state c")
      case Initializing
      obtain p m' c' where "run_init (counts_down ans) m ?d = Inr (p, m', c')" "went k ans m c (p, m', c')" "p \<noteq> Suspended AwaitsBaton"
        by (rule init_went [of ?d k c ans m])
          (use w(2) q ok(4) r assms(4) Initializing in \<open>simp_all add: cell_get_def\<close>)
      with e Initializing that show thesis by (simp add: take_over_def)
    next
      case (Initialized v)
      have "went k ans m c (Finished (Returned (Ok v)), m, ?d)" using r by (simp add: went_def)
      with e Initialized that show thesis by (simp add: take_over_def baton_drop_idle)
    qed (use u in simp)
  qed
qed

lemma drop_rouses:
  assumes "cell_ok F c" and "F k = Some s" and "own_wakers (cq c)" and "get_or_try_init_drop s k c = Inr c'"
  shows "rouses k (cq c) (cq c')" and "own_wakers (cq c')"
proof -
  from assms(1) have m: "cell_matches F c" by (simp add: cell_ok_def)
  note ok = cell_matchesD [OF m]
  have "rouses k (cq c) (cq c') \<and> own_wakers (cq c')"
  proof (cases s)
    case RunsInit
    with assms(4) baton_drop_rouses [OF ok(1,4) assms(3), of k] show ?thesis by (auto simp: guard_drop_def)
  next
    case AwaitsBaton
    show ?thesis
    proof (cases "released (cq c) k")
      case None
      have a: "k \<in> q_addrs (cq c)" using ok(3) assms(2) AwaitsBaton by simp
      with None obtain w where p: "(k, (), w) \<in> set (parked (cq c))" by (auto simp: q_addrs_def)
      from wl.cancel_parked_law [OF ok(1,4) p] assms(4) AwaitsBaton
        rouses_cancel(1) [of k "cq c"] rouses_cancel(2) [of "cq c" k] assms(3) show ?thesis by auto
    next
      case (Some b)
      from wl.cancel_released_law [OF ok(1,4) Some] obtain wl' where
        w: "wait_cancel k (cell_waiters c) = Inr (Output b, wl')" "wl_inv wl'" "wl_abs wl' = q_cancel k (cq c)"
        by blast
      let ?d = "c\<lparr>cell_waiters := wl'\<rparr>"
      have "\<not> q_borrowed (cq ?d)" "own_wakers (cq ?d)" "rouses k (cq c) (cq ?d)"
        using w(3) ok(4) rouses_cancel(1) [of k "cq c"] rouses_cancel(2) [of "cq c" k] assms(3)
        by (simp_all add: q_cancel_def)
      with baton_drop_rouses [of ?d k] w(1,2) assms(4) AwaitsBaton show ?thesis
        by (auto intro: rouses_trans)
    qed
  qed
  then show "rouses k (cq c) (cq c')" and "own_wakers (cq c')" by blast+
qed

section \<open>Every poll brings a task closer to its end\<close>

fun future_of :: "('v, 'e) asker \<Rightarrow> stage option" where
  "future_of (Underway s m) = Some s"
| "future_of a = None"

fun yields_left :: "('v, 'e) asker \<Rightarrow> nat" where
  "yields_left (Asking m) = m"
| "yields_left (Underway s m) = m"
| "yields_left a = 0"

fun weight :: "('v, 'e) asker \<Rightarrow> nat" where
  "weight (Asking m) = m + 3"
| "weight (Underway AwaitsBaton m) = m + 2"
| "weight (Underway RunsInit m) = m + 1"
| "weight a = 0"

text \<open>What an answer says of the cell or of the task's own initializer.\<close>

fun truthful :: "('v, 'e) result answer \<Rightarrow> 'v once_cell \<Rightarrow> ('v, 'e) asker \<Rightarrow> bool" where
  "truthful ans c (Answered (Returned (Ok v))) \<longleftrightarrow> cell_get c = Some v"
| "truthful ans c (Answered (Returned (Err e))) \<longleftrightarrow> ans = Yields (Err e)"
| "truthful ans c (Answered (Unwound msg)) \<longleftrightarrow> ans = Panics msg"
| "truthful ans c a \<longleftrightarrow> True"

lemma counts_down_total: "\<exists>a y. counts_down ans x = Inr (a, y)"
  by (cases x) simp_all

lemma asker_poll_ok:
  assumes "cell_ok F c" and "F k = future_of a" and "\<not> is_over a" and "own_wakers (cq c)" and "ans \<noteq> NotYet"
  obtains p m c' where "asker_poll k ans a c = Inr (p, m, c')" and "polled F k p c'"
    and "went k ans (yields_left a) c (p, m, c')"
    and "weight (after p m) < weight a \<or> after p m = a \<and> cq c' = cq c \<and> p = Suspended AwaitsBaton"
proof (cases a)
  case (Asking x)
  with assms(2) have F: "F k = None" by simp
  obtain p m c' where r: "get_or_try_init_start k (counts_down ans) k x c = Inr (p, m, c')" "went k ans x c (p, m, c')"
    by (rule start_went [OF assms(1) F assms(4,5)])
  moreover have "polled F k p c'"
    using start_ok [where f = "counts_down ans" and x = x and cx = k, OF assms(1) F counts_down_total] r(1) by auto
  moreover have "weight (after p m) < weight a"
  proof (cases p)
    case (Suspended s)
    with r(2) Asking show ?thesis by (cases s) (auto simp: went_def)
  qed (simp add: Asking)
  ultimately show thesis using that Asking by simp
next
  case (Underway s x)
  with assms(2) have F: "F k = Some s" by simp
  obtain p m c' where r: "get_or_try_init_resume s k (counts_down ans) k x c = Inr (p, m, c')" "went k ans x c (p, m, c')"
    "p = Suspended AwaitsBaton \<Longrightarrow> s = AwaitsBaton \<and> cq c' = cq c"
    by (rule resume_went [OF assms(1) F assms(4,5)]) (rule that)
  moreover have "polled F k p c'"
    using resume_ok [where f = "counts_down ans" and x = x and cx = k, OF assms(1) F counts_down_total] r(1) by auto
  moreover have "weight (after p m) < weight a \<or> after p m = a \<and> cq c' = cq c \<and> p = Suspended AwaitsBaton"
  proof (cases p)
    case (Suspended t)
    with r(2,3) Underway show ?thesis by (cases t; cases s) (auto simp: went_def)
  next
    case (Finished out)
    with Underway show ?thesis by (cases s) simp_all
  qed
  ultimately show thesis using that Underway by simp
qed (use assms(3) in simp_all)

section \<open>The invariant\<close>

definition futures_of :: "('v, 'e) lobby \<Rightarrow> futures" where
  "futures_of S k = (if k \<in> guests S then future_of (asker S k) else None)"

definition lobby_holds :: "(nat \<Rightarrow> ('v, 'e) result answer) \<Rightarrow> ('v, 'e) lobby \<Rightarrow> bool" where
  "lobby_holds plan S \<longleftrightarrow>
     cell_ok (futures_of S) (the_cell S) \<and> own_wakers (cq (the_cell S)) \<and> finite (guests S) \<and>
     (\<forall>k\<in>guests S. is_over (asker S k) \<or> k \<in> awake S \<or> k \<in> fst ` set (parked (cq (the_cell S)))) \<and>
     (\<forall>k\<in>guests S. truthful (plan k) (the_cell S) (asker S k) \<and> plan k \<noteq> NotYet) \<and>
     (\<forall>v. cell_get (the_cell S) = Some v \<longrightarrow> (\<exists>k\<in>guests S. plan k = Yields (Ok v)))"

lemma lobby_holdsD:
  assumes "lobby_holds plan S"
  shows "cell_ok (futures_of S) (the_cell S)" "own_wakers (cq (the_cell S))" "finite (guests S)"
    "\<And>k. k \<in> guests S \<Longrightarrow> is_over (asker S k) \<or> k \<in> awake S \<or> k \<in> fst ` set (parked (cq (the_cell S)))"
    "\<And>k. k \<in> guests S \<Longrightarrow> truthful (plan k) (the_cell S) (asker S k)" "\<And>k. k \<in> guests S \<Longrightarrow> plan k \<noteq> NotYet"
    "\<And>v. cell_get (the_cell S) = Some v \<Longrightarrow> \<exists>k\<in>guests S. plan k = Yields (Ok v)"
  using assms unfolding lobby_holds_def by blast+

definition lobby_work :: "('v, 'e) lobby \<Rightarrow> nat" where
  "lobby_work S = Suc (card (guests S)) * (\<Sum>k\<in>guests S. weight (asker S k)) + card (awake S \<inter> guests S)"

definition lobby_done :: "('v, 'e) lobby \<Rightarrow> bool" where
  "lobby_done S \<longleftrightarrow> (\<forall>k\<in>guests S. is_over (asker S k))"

lemma truthful_kept:
  assumes "truthful ans c a" and "\<And>v. cell_get c = Some v \<Longrightarrow> cell_get c' = Some v"
  shows "truthful ans c' a"
  using assms by (cases "(ans, c, a)" rule: truthful.cases) auto

text \<open>Task \<open>k\<close> was polled or dropped.\<close>

lemma lobby_after:
  assumes S: "lobby_holds plan S" and k: "k \<in> guests S"
    and c: "cell_ok ((futures_of S)(k := future_of a)) c" "own_wakers (cq c)" "rouses k (cq (the_cell S)) (cq c)"
    and t: "truthful (plan k) c a" "is_over a \<or> k \<in> ws \<or> k \<in> fst ` set (parked (cq c))"
    and v: "\<And>v. cell_get (the_cell S) = Some v \<Longrightarrow> cell_get c = Some v"
      "\<And>v. cell_get c = Some v \<Longrightarrow> cell_get (the_cell S) = Some v \<or> plan k = Yields (Ok v)"
    and w: "\<And>l. l \<noteq> k \<Longrightarrow> l \<in> awake S \<or> l \<in> new_calls (the_cell S) c \<Longrightarrow> l \<in> ws"
    and T: "T = S\<lparr>the_cell := c, asker := (asker S)(k := a), awake := ws\<rparr>"
  shows "lobby_holds plan T"
proof -
  note h = lobby_holdsD [OF S]
  have q: "woken (cell_waiters d) = q_woken (cq d)" for d :: "'v once_cell" by (simp add: wl_abs_def)
  have f: "futures_of T = (futures_of S)(k := future_of a)" using k by (auto simp: futures_of_def T)
  have "is_over (asker T l) \<or> l \<in> ws \<or> l \<in> fst ` set (parked (cq c))" if l: "l \<in> guests S" for l
  proof (cases "l = k")
    case True
    with t(2) show ?thesis by (simp add: T)
  next
    case False
    show ?thesis
    proof (cases "l \<in> fst ` set (parked (cq (the_cell S)))")
      case True
      then obtain i x where e: "(l, i, x) \<in> set (parked (cq (the_cell S)))" by auto
      with h(2) have x: "x = l" by (auto simp: own_wakers_def)
      obtain calls where r: "q_woken (cq c) = q_woken (cq (the_cell S)) @ calls"
        "(l, i, x) \<in> set (parked (cq c)) \<or> x \<in> set calls"
        using c(3) e False unfolding rouses_def by blast
      then have "new_calls (the_cell S) c = set calls" by (simp add: new_calls_def q)
      with r(2) w [OF False] x show ?thesis by force
    next
      case f: False
      with h(4) [OF l] False w [OF False] show ?thesis by (auto simp: T)
    qed
  qed
  moreover have "truthful (plan l) c (asker T l)" if "l \<in> guests S" for l
    using that t(1) truthful_kept [OF h(5) [OF that] v(1)] by (cases "l = k") (simp_all add: T)
  moreover have "\<exists>k\<in>guests S. plan k = Yields (Ok v)" if "cell_get c = Some v" for v
    using v(2) [OF that] h(7) k by blast
  ultimately show ?thesis
    unfolding lobby_holds_def f using c(1,2) h(3,6) by (simp add: T)
qed

lemma lighter:
  assumes "finite (guests S)" and "k \<in> guests S" and "weight a < weight (asker S k)"
    and "T = S\<lparr>the_cell := c, asker := (asker S)(k := a), awake := ws\<rparr>"
  shows "lobby_work T < lobby_work S"
proof -
  have "Suc (\<Sum>l\<in>guests S. weight (asker T l)) \<le> (\<Sum>l\<in>guests S. weight (asker S l))"
    using assms(3) sum_fun_upd [OF assms(1,2), of weight "asker S" a] by (simp add: assms(4))
  from mult_le_mono2 [OF this, of "Suc (card (guests S))"] card_mono [OF assms(1), of "awake T \<inter> guests S"]
  have "Suc (card (guests S)) * (\<Sum>l\<in>guests S. weight (asker T l)) + card (awake T \<inter> guests S) <
      Suc (card (guests S)) * (\<Sum>l\<in>guests S. weight (asker S l))"
    by simp
  moreover have "guests T = guests S" by (simp add: assms(4))
  ultimately show ?thesis unfolding lobby_work_def by simp
qed

text \<open>A poll that finds its future still waiting leaves one task less to run.\<close>

lemma idle_lighter:
  assumes "lobby_holds plan S" and "k \<in> guests S" "k \<in> awake S" and "cq c = cq (the_cell S)"
    and T: "T = S\<lparr>the_cell := c, asker := (asker S)(k := asker S k), awake := awake S - {k} \<union> new_calls (the_cell S) c\<rparr>"
  shows "lobby_work T < lobby_work S"
proof -
  have "asker T = asker S" "new_calls (the_cell S) c = {}" using assms(4) by (auto simp: T new_calls_def wl_abs_def)
  moreover from this(2) have "awake T \<inter> guests S = awake S \<inter> guests S - {k}" by (auto simp: T)
  moreover have "card (awake S \<inter> guests S - {k}) < card (awake S \<inter> guests S)"
    using assms(2,3) lobby_holdsD(3) [OF assms(1)] by (intro card_Diff1_less) simp_all
  ultimately show ?thesis by (simp add: lobby_work_def T)
qed

lemma run_asker_ok:
  assumes "lobby_holds plan S" and "runnable k S"
  shows "\<exists>T. run_asker plan k S = Inr T \<and> lobby_holds plan T \<and> lobby_work T < lobby_work S"
proof -
  note h = lobby_holdsD [OF assms(1)]
  from assms(2) have k: "k \<in> guests S" "k \<in> awake S" "\<not> is_over (asker S k)" by (simp_all add: runnable_def)
  have F: "futures_of S k = future_of (asker S k)" using k(1) by (simp add: futures_of_def)
  obtain p m c where r: "asker_poll k (plan k) (asker S k) (the_cell S) = Inr (p, m, c)"
    and p: "polled (futures_of S) k p c" and g: "went k (plan k) (yields_left (asker S k)) (the_cell S) (p, m, c)"
    and less: "weight (after p m) < weight (asker S k) \<or>
      after p m = asker S k \<and> cq c = cq (the_cell S) \<and> p = Suspended AwaitsBaton"
    by (rule asker_poll_ok [OF h(1) F k(3) h(2) h(6) [OF k(1)]])
  have w: "rouses k (cq (the_cell S)) (cq c)" "own_wakers (cq c)"
    "p = Suspended AwaitsBaton \<Longrightarrow> k \<in> fst ` set (parked (cq c))"
    "\<And>v. cell_get (the_cell S) = Some v \<Longrightarrow> cell_get c = Some v"
    "\<And>v. cell_get c = Some v \<Longrightarrow> cell_get (the_cell S) = Some v \<or> plan k = Yields (Ok v)"
    "\<And>e. p = Finished (Returned (Err e)) \<Longrightarrow> plan k = Yields (Err e)"
    "\<And>msg. p = Finished (Unwound msg) \<Longrightarrow> plan k = Panics msg"
    using g by (simp_all add: went_def)
  let ?ws = "awake S - {k} \<union> (if goes_on p then {k} else {}) \<union> new_calls (the_cell S) c"
  obtain T where T: "T = S\<lparr>the_cell := c, asker := (asker S)(k := after p m), awake := ?ws\<rparr>" by blast
  have run: "run_asker plan k S = Inr T" using r by (simp add: run_asker_def T)
  have "lobby_holds plan T"
  proof (rule lobby_after [OF assms(1) k(1) _ w(2,1) _ _ w(4,5) _ T])
    show "cell_ok ((futures_of S)(k := future_of (after p m))) c" using p by (cases p) (simp_all add: polled_def)
    show "truthful (plan k) c (after p m)"
    proof (cases p)
      case (Finished out)
      with p w(6,7) show ?thesis by (cases "(plan k, c, Answered out)" rule: truthful.cases) (auto simp: polled_def)
    qed simp
    show "is_over (after p m) \<or> k \<in> ?ws \<or> k \<in> fst ` set (parked (cq c))"
    proof (cases p)
      case (Suspended s)
      with w(3) show ?thesis by (cases s) simp_all
    qed simp
  qed auto
  moreover have "lobby_work T < lobby_work S"
  proof (cases "weight (after p m) < weight (asker S k)")
    case True
    then show ?thesis by (rule lighter [OF h(3) k(1) _ T])
  next
    case False
    with less have s: "after p m = asker S k" "cq c = cq (the_cell S)" "p = Suspended AwaitsBaton" by blast+
    show ?thesis by (rule idle_lighter [OF assms(1) k(1,2) s(2)]) (simp only: T s(1), simp add: s(3))
  qed
  ultimately show ?thesis using run by blast
qed

lemma abort_asker_ok:
  assumes "lobby_holds plan S" and "k \<in> guests S" and "\<not> is_over (asker S k)"
  shows "\<exists>T. abort_asker k S = Inr T \<and> lobby_holds plan T \<and> lobby_work T < lobby_work S"
proof -
  note h = lobby_holdsD [OF assms(1)]
  have F: "futures_of S k = future_of (asker S k)" using assms(2) by (simp add: futures_of_def)
  have "\<exists>c. asker_drop k (asker S k) (the_cell S) = Inr c \<and> cell_ok ((futures_of S)(k := None)) c \<and>
      cell_get c = cell_get (the_cell S) \<and> rouses k (cq (the_cell S)) (cq c) \<and> own_wakers (cq c)"
  proof (cases "asker S k")
    case (Asking m)
    with F have "(futures_of S)(k := None) = futures_of S" by (simp add: fun_upd_idem)
    with Asking h(1,2) show ?thesis by (simp add: rouses_refl)
  next
    case (Underway s m)
    with F have "futures_of S k = Some s" by simp
    from drop_ok [OF h(1) this] drop_rouses [OF h(1) this h(2)] Underway show ?thesis by auto
  qed (use assms(3) in simp_all)
  then obtain c where c: "asker_drop k (asker S k) (the_cell S) = Inr c" "cell_ok ((futures_of S)(k := None)) c"
    "cell_get c = cell_get (the_cell S)" "rouses k (cq (the_cell S)) (cq c)" "own_wakers (cq c)"
    by blast
  obtain T where T: "T = S\<lparr>the_cell := c, asker := (asker S)(k := Aborted), awake := awake S \<union> new_calls (the_cell S) c\<rparr>"
    by blast
  have "lobby_holds plan T"
    by (rule lobby_after [OF assms(1,2) _ c(5,4) _ _ _ _ _ T]) (use c(2,3) in auto)
  moreover have "lobby_work T < lobby_work S"
  proof (rule lighter [OF h(3) assms(2) _ T])
    show "weight Aborted < weight (asker S k)"
      using assms(3) by (cases "asker S k" rule: weight.cases) simp_all
  qed
  moreover have "abort_asker k S = Inr T" using c(1) by (simp add: abort_asker_def T)
  ultimately show ?thesis by blast
qed


section \<open>The executor never runs dry\<close>

lemma initializing_runnable:
  assumes "lobby_holds plan S" and "cell_state (the_cell S) = Initializing"
  shows "\<exists>k. runnable k S"
proof -
  note h = lobby_holdsD [OF assms(1)]
  let ?q = "cq (the_cell S)"
  have m: "cell_matches (futures_of S) (the_cell S)" using h(1) by (simp add: cell_ok_def)
  note ok = cell_matchesD [OF m]
  obtain a where a: "has_job (futures_of S) ?q a" using h(1) assms(2) by (auto simp: cell_ok_def)
  have f: "futures_of S a \<noteq> None" and p: "a \<notin> fst ` set (parked ?q)"
  proof -
    have "futures_of S a = Some RunsInit \<and> a \<notin> q_addrs ?q \<or> futures_of S a \<noteq> None \<and> a \<notin> fst ` set (parked ?q)"
    proof (cases "released ?q a")
      case None
      with a ok(3) show ?thesis by (simp add: has_job_def)
    next
      case (Some b)
      then have "a \<in> q_addrs ?q" by (auto simp: q_addrs_def)
      with ok(3) wl.disjoint_law [OF ok(1)] Some show ?thesis by fastforce
    qed
    then show "futures_of S a \<noteq> None" and "a \<notin> fst ` set (parked ?q)" by (auto simp: q_addrs_def)
  qed
  from f have g: "a \<in> guests S" "\<not> is_over (asker S a)"
    by (cases "asker S a"; simp add: futures_of_def split: if_splits)+
  with h(4) [of a] p have "runnable a S" by (simp add: runnable_def)
  then show ?thesis ..
qed

lemma lobby_can_run:
  assumes "lobby_holds plan S" and "\<not> lobby_done S"
  shows "\<exists>k. runnable k S"
proof (cases "cell_state (the_cell S) = Initializing")
  case True
  with initializing_runnable [OF assms(1)] show ?thesis .
next
  case False
  note h = lobby_holdsD [OF assms(1)]
  let ?q = "cq (the_cell S)"
  have m: "cell_matches (futures_of S) (the_cell S)" using h(1) by (simp add: cell_ok_def)
  have "parked ?q = []"
  proof (cases "cell_state (the_cell S)")
    case Uninit
    with h(1) have "futures_of S = Map.empty" by (simp add: cell_ok_def)
    with cell_matchesD(3) [OF m] show ?thesis by (simp add: q_addrs_def)
  qed (use h(1) False in \<open>simp_all add: cell_ok_def\<close>)
  moreover from assms(2) obtain k where "k \<in> guests S" "\<not> is_over (asker S k)" by (auto simp: lobby_done_def)
  ultimately have "runnable k S" using h(4) [of k] by (simp add: runnable_def)
  then show ?thesis ..
qed

lemma lobby_start_holds:
  assumes "lobby_start n delay plan S"
  shows "lobby_holds plan S" and "guests S = {..<n}"
    and "lobby_work S = Suc n * (\<Sum>k<n. delay k + 3) + n"
proof -
  have S: "S = \<lparr>the_cell = once_cell_new, asker = (\<lambda>k. Asking (delay k)), guests = {..<n}, awake = {..<n}\<rparr>"
    and p: "\<forall>k<n. plan k \<noteq> NotYet"
    using assms by (simp_all add: lobby_start_def)
  have f: "futures_of S = Map.empty" by (auto simp: futures_of_def S)
  have q: "cq (the_cell S) = q_new" "wl_inv (cell_waiters (the_cell S))"
    by (simp_all add: S once_cell_new_def new_refines)
  have "cell_ok Map.empty (the_cell S)" "own_wakers (cq (the_cell S))"
    using q by (simp_all add: cell_ok_def cell_matches_def borrowed_abs [symmetric] q_new_def q_addrs_def own_wakers_def S once_cell_new_def)
  with p show "lobby_holds plan S"
    unfolding lobby_holds_def f by (simp add: S once_cell_new_def cell_get_def)
  show "guests S = {..<n}" by (simp add: S)
  show "lobby_work S = Suc n * (\<Sum>k<n. delay k + 3) + n" by (simp add: lobby_work_def S)
qed

interpretation lobby: bounded_runs "lobby_start n delay plan" "lobby_step plan" "lobby_holds plan" lobby_done lobby_work
  for n and delay and plan
proof unfold_locales
  fix S
  assume S: "lobby_holds plan S" "\<not> lobby_done S"
  from lobby_can_run [OF this] obtain k where "runnable k S" ..
  with run_asker_ok [OF S(1) this] show "\<exists>T. lobby_step plan S T" by (auto intro: lobby_step.run_asker)
next
  fix S T
  assume S: "lobby_holds plan S" "lobby_step plan S T"
  from S(2) show "lobby_work T < lobby_work S"
    by (cases rule: lobby_stepE) (use run_asker_ok [OF S(1)] abort_asker_ok [OF S(1)] in force)+
next
  fix S T
  assume S: "lobby_step plan S T" "lobby_holds plan S"
  from S(1) show "lobby_holds plan T"
    by (cases rule: lobby_stepE) (use run_asker_ok [OF S(2)] abort_asker_ok [OF S(2)] in force)+
qed (use lobby_start_holds in blast)


section \<open>Everybody gets an answer\<close>

lemma lobby_step_guests: "lobby_step plan S T \<Longrightarrow> guests T = guests S"
  by (erule lobby_stepE) (auto simp: run_asker_def abort_asker_def and_then_eq_Inr)

lemma lobby_steps_guests: "(lobby_step plan ^^ m) S T \<Longrightarrow> guests T = guests S"
  by (induction m arbitrary: T) (auto dest: lobby_step_guests)

lemma lobby_over:
  assumes "lobby_holds plan S"
  shows "lobby_done S \<and> cell_state (the_cell S) \<noteq> Initializing \<or> (\<exists>k. runnable k S)"
proof (cases "lobby_done S")
  case True
  then have "\<nexists>k. runnable k S" by (auto simp: lobby_done_def runnable_def)
  with initializing_runnable [OF assms] True show ?thesis by blast
qed (use lobby_can_run [OF assms] in blast)

text \<open>C9.
  Any number of tasks that ask one cell for its value, each with an initializer that yields any
  number of times before it succeeds, fails or panics, always finish.  However the executor chooses
  among the tasks that are awake, and whichever tasks it aborts at whatever time, no call faults, no
  run has more than \<open>(n + 1) * (\<Sum>k<n. delay k + 3) + n\<close> steps, and as long as a task is waiting one is
  awake: the job of an initializer that failed or was aborted is always passed on to a task that was
  woken for it.  Every task that is answered with a value is answered with the one in the cell, which
  is what one of the initializers made; an error or a panic is always the task's own.  When all tasks
  are over, nobody has left the cell in its initializing state.
\<close>

theorem once_cell_every_schedule_answers:
  assumes "lobby_start n delay plan S" and "(lobby_step plan ^^ m) S T"
  shows "m \<le> (n + 1) * (\<Sum>k<n. delay k + 3) + n \<and>
     (\<forall>k. runnable k T \<longrightarrow> (\<exists>U. run_asker plan k T = Inr U)) \<and>
     (\<forall>k<n. \<not> is_over (asker T k) \<longrightarrow> (\<exists>U. abort_asker k T = Inr U)) \<and>
     (\<forall>k<n. truthful (plan k) (the_cell T) (asker T k)) \<and>
     (\<forall>v. cell_get (the_cell T) = Some v \<longrightarrow> (\<exists>k<n. plan k = Yields (Ok v))) \<and>
     ((\<forall>k<n. is_over (asker T k)) \<and> cell_state (the_cell T) \<noteq> Initializing \<or> (\<exists>k. runnable k T))"
proof -
  have r: "lobby_holds plan T" "m \<le> lobby_work S" using lobby.run_continues [OF assms(2,1)] by blast+
  note b = lobby_start_holds [OF assms(1)] and h = lobby_holdsD [OF r(1)]
  have c: "guests T = {..<n}" using lobby_steps_guests [OF assms(2)] b(2) by simp
  have "\<exists>U. run_asker plan k T = Inr U" if "runnable k T" for k using run_asker_ok [OF r(1) that] by blast
  moreover have "\<exists>U. abort_asker k T = Inr U" if "k < n" "\<not> is_over (asker T k)" for k
    using abort_asker_ok [OF r(1) _ that(2)] that(1) c by blast
  ultimately show ?thesis
    using r(2) b(3) h(5,7) lobby_over [OF r(1)] by (auto simp: c lobby_done_def)
qed

datatype choice = Poll nat | Abort nat

fun run_lobby :: "(nat \<Rightarrow> ('v, 'e) result answer) \<Rightarrow> choice list \<Rightarrow> ('v, 'e) lobby \<Rightarrow> ('v, 'e) lobby res" where
  "run_lobby plan [] S = Inr S"
| "run_lobby plan (Poll k # cs) S =
     (if runnable k S then and_then (run_asker plan k S) (run_lobby plan cs) else Inl (Panic ''asleep''))"
| "run_lobby plan (Abort k # cs) S =
     (if k \<in> guests S \<and> \<not> is_over (asker S k) then and_then (abort_asker k S) (run_lobby plan cs)
      else Inl (Panic ''over''))"

lemma run_lobby_steps: "run_lobby plan cs S = Inr T \<Longrightarrow> (lobby_step plan ^^ length cs) S T"
proof (induction plan cs S rule: run_lobby.induct)
  case (2 plan k cs S)
  then obtain U where u: "runnable k S" "run_asker plan k S = Inr U" "run_lobby plan cs U = Inr T"
    by (auto simp: and_then_eq_Inr split: if_splits)
  with "2.IH" [of U] have "lobby_step plan S U" "(lobby_step plan ^^ length cs) U T" by (auto intro: run_asker)
  then show ?case unfolding list.size(4) add_Suc_right by (simp only: add_0_right relpowp_Suc_I2)
next
  case (3 plan k cs S)
  then obtain U where u: "k \<in> guests S" "\<not> is_over (asker S k)" "abort_asker k S = Inr U" "run_lobby plan cs U = Inr T"
    by (auto simp: and_then_eq_Inr split: if_splits)
  with "3.IH" [of U] have "lobby_step plan S U" "(lobby_step plan ^^ length cs) U T" by (auto intro: abort_asker)
  then show ?case unfolding list.size(4) add_Suc_right by (simp only: add_0_right relpowp_Suc_I2)
qed simp

text \<open>Four tasks: the first fails, the second is aborted with the job, the third makes the value.\<close>

definition four_askers :: "(nat, string) lobby" where
  "four_askers = \<lparr>the_cell = once_cell_new, asker = (\<lambda>k. Asking 1), guests = {..<4}, awake = {..<4}\<rparr>"

definition mixed :: "nat \<Rightarrow> (nat, string) result answer" where
  "mixed k = (if k = 0 then Yields (Err ''bad'') else Yields (Ok k))"

theorem once_cell_every_schedule_answers_witness:
  "\<exists>T. run_lobby mixed [Poll 0, Poll 1, Poll 2, Poll 3, Poll 0, Poll 1, Abort 1, Poll 2, Poll 2, Poll 3] four_askers = Inr T \<and>
     asker T 0 = Answered (Returned (Err ''bad'')) \<and> asker T 3 = Answered (Returned (Ok 2)) \<and>
     (\<forall>k<4. is_over (asker T k)) \<and> cell_get (the_cell T) = Some 2"
proof -
  let ?cs = "[Poll 0, Poll 1, Poll 2, Poll 3, Poll 0, Poll 1, Abort 1, Poll 2, Poll 2, Poll 3]"
  have "passes (run_lobby mixed ?cs four_askers) (\<lambda>T. asker T 0 = Answered (Returned (Err ''bad'')) \<and>
      asker T 3 = Answered (Returned (Ok 2)) \<and> \<not> runnable 0 T \<and> \<not> runnable 1 T \<and> \<not> runnable 2 T \<and> \<not> runnable 3 T \<and>
      guests T = {..<4})"
    by code_simp
  then obtain T where T: "run_lobby mixed ?cs four_askers = Inr T" "asker T 0 = Answered (Returned (Err ''bad''))"
    "asker T 3 = Answered (Returned (Ok 2))" "\<not> runnable 0 T" "\<not> runnable 1 T" "\<not> runnable 2 T" "\<not> runnable 3 T"
    "guests T = {..<4}"
    by (elim passesE conjE) (rule that)
  have "\<not> runnable k T" for k
  proof
    assume r: "runnable k T"
    then have "k < 4" using T(8) by (auto simp: runnable_def)
    then have "k = 0 \<or> k = 1 \<or> k = 2 \<or> k = 3" by auto
    with r T(4-7) show False by auto
  qed
  moreover have "lobby_start 4 (\<lambda>k. 1) mixed four_askers" by (simp add: lobby_start_def four_askers_def mixed_def)
  ultimately have e: "\<forall>k<4. is_over (asker T k)" "\<forall>k<4. truthful (mixed k) (the_cell T) (asker T k)"
    using once_cell_every_schedule_answers [OF _ run_lobby_steps [OF T(1)], of 4 "\<lambda>k. 1"] by blast+
  have "truthful (mixed 3) (the_cell T) (asker T 3)" using e(2) by (elim allE [of _ 3]) simp
  with T(3) have "cell_get (the_cell T) = Some 2" by simp
  with T(1-3) e(1) show ?thesis by blast
qed

end
