(* ===== verification/Bi_Rc.thy ===== *)
theory Bi_Rc
  imports Unsync_Prelude
begin

text \<open>
  \<open>src/bi_rc.rs\<close>: the allocation that the two ends of a channel share.  Both handles point to one
  heap cell; the cell is \<open>None\<close> once it has been freed, and any access then is a dangling one.
  The locale \<open>shared_cell\<close> is what the channels rely on.
\<close>

record 't bi_inner =
  bi_value :: 't
  bi_count :: usize

type_synonym 't bi_rc = "'t bi_inner option"

definition bi_rc_new :: "'t \<Rightarrow> 't bi_rc" where
  "bi_rc_new v = Some \<lparr>bi_value = v, bi_count = 2\<rparr>"

text \<open>
  \<open>get_mut_unchecked\<close> hands out a reference to the value; \<open>bi_rc_get\<close> reads through it and
  \<open>bi_rc_put\<close> writes through it.
\<close>

definition bi_rc_get :: "'t bi_rc \<Rightarrow> ('t \<times> bool) res" where
  "bi_rc_get rc = (case rc of None \<Rightarrow> Inl Dangling | Some i \<Rightarrow> Inr (bi_value i, bi_count i = 2))"

definition bi_rc_put :: "'t \<Rightarrow> 't bi_rc \<Rightarrow> 't bi_rc res" where
  "bi_rc_put v rc = (case rc of None \<Rightarrow> Inl Dangling | Some i \<Rightarrow> Inr (Some (i\<lparr>bi_value := v\<rparr>)))"

definition bi_rc_drop :: "'t bi_rc \<Rightarrow> 't bi_rc res" where
  "bi_rc_drop rc =
     (case rc of
        None \<Rightarrow> Inl Dangling
      | Some i \<Rightarrow>
          let count = bi_count i - 1 in
          Inr (if count = 0 then None else Some (i\<lparr>bi_count := count\<rparr>)))"

section \<open>The contract\<close>

text \<open>
  \<open>owned n v rc\<close>: \<open>n\<close> handles are alive and, if any is, the cell holds \<open>v\<close>.  The flag that comes
  with a read tells whether both are; the last release frees the cell.
\<close>

definition bi_owned :: "nat \<Rightarrow> 't \<Rightarrow> 't bi_rc \<Rightarrow> bool" where
  "bi_owned n v rc \<longleftrightarrow>
     (case rc of None \<Rightarrow> n = 0 | Some i \<Rightarrow> 0 < n \<and> n \<le> 2 \<and> bi_value i = v \<and> unat (bi_count i) = n)"

locale shared_cell =
  fixes make :: "'t \<Rightarrow> 'rc"
    and get :: "'rc \<Rightarrow> ('t \<times> bool) res"
    and put :: "'t \<Rightarrow> 'rc \<Rightarrow> 'rc res"
    and release :: "'rc \<Rightarrow> 'rc res"
    and owned :: "nat \<Rightarrow> 't \<Rightarrow> 'rc \<Rightarrow> bool"
  assumes make_law: "owned 2 v (make v)"
    and get_law: "owned n v rc \<Longrightarrow> 0 < n \<Longrightarrow> get rc = Inr (v, n = 2)"
    and put_law: "owned n v rc \<Longrightarrow> 0 < n \<Longrightarrow> \<exists>rc'. put w rc = Inr rc' \<and> owned n w rc'"
    and release_law: "owned n v rc \<Longrightarrow> 0 < n \<Longrightarrow> \<exists>rc'. release rc = Inr rc' \<and> owned (n - 1) v rc'"
    and freed_law: "owned 0 v rc \<Longrightarrow> get rc = Inl Dangling \<and> put w rc = Inl Dangling \<and> release rc = Inl Dangling"
begin

text \<open>The life of a cell: both handles see it whole, the survivor sees that it is alone, then it is freed.\<close>

lemma life:
  "get (make v) = Inr (v, True) \<and>
   (\<exists>rc1. release (make v) = Inr rc1 \<and> get rc1 = Inr (v, False) \<and>
      (\<exists>rc2. release rc1 = Inr rc2 \<and> release rc2 = Inl Dangling))"
proof -
  from release_law [OF make_law [of v]] obtain rc1 where
    1: "release (make v) = Inr rc1" "owned 1 v rc1" by auto
  from release_law [OF 1(2)] obtain rc2 where 2: "release rc1 = Inr rc2" "owned 0 v rc2" by auto
  from get_law [OF make_law [of v]] get_law [OF 1(2)] freed_law [OF 2(2)] 1(1) 2(1)
  show ?thesis by simp
qed

text \<open>Reading, writing back and looking again, the pattern of every channel operation.\<close>

lemma update:
  assumes "owned n v rc" and "0 < n"
  shows "\<exists>rc'. put w rc = Inr rc' \<and> owned n w rc' \<and> get rc' = Inr (w, n = 2)"
proof -
  from put_law [OF assms] obtain rc' where "put w rc = Inr rc'" "owned n w rc'" by blast
  with get_law [OF this(2) assms(2)] show ?thesis by blast
qed

end

lemma unat_eq_2: "(x :: usize) = 2 \<longleftrightarrow> unat x = 2"
  by (simp add: word_unat_eq_iff)

lemma bi_rc_drop_owned:
  assumes "bi_owned n v rc" and "0 < n"
  shows "\<exists>rc'. bi_rc_drop rc = Inr rc' \<and> bi_owned (n - 1) v rc'"
proof -
  from assms obtain i where i: "rc = Some i" "bi_value i = v" "unat (bi_count i) = n" "n \<le> 2"
    by (auto simp: bi_owned_def split: option.splits)
  then have "unat (bi_count i - 1) = n - 1"
    using assms(2) unat_sub_no_wrap [of 1 "bi_count i"] by (simp add: usize_le_iff)
  with i assms(2) show ?thesis
    by (auto simp: bi_rc_drop_def bi_owned_def Let_def word_unat_eq_iff)
qed

interpretation rc: shared_cell bi_rc_new bi_rc_get bi_rc_put bi_rc_drop bi_owned
proof unfold_locales
  show "\<exists>rc'. bi_rc_drop rc = Inr rc' \<and> bi_owned (n - 1) v rc'" if "bi_owned n v rc" "0 < n"
    for n rc and v :: 'a
    using that by (rule bi_rc_drop_owned)
qed (auto simp: bi_owned_def bi_rc_new_def bi_rc_get_def bi_rc_put_def bi_rc_drop_def unat_eq_2
    split: option.splits)

text \<open>
  The shared allocation lives exactly as long as its two handles.  Both see the value and that the
  other end is there; after one is dropped the other sees the same value and that it is alone;
  dropping it too frees the cell, and only a third drop, which ownership rules out, would
  touch freed memory.
\<close>

theorem bi_rc_freed_once:
  "bi_rc_get (bi_rc_new v) = Inr (v, True) \<and>
   (\<exists>rc1. bi_rc_drop (bi_rc_new v) = Inr rc1 \<and> bi_rc_get rc1 = Inr (v, False) \<and>
      (\<exists>rc2. bi_rc_drop rc1 = Inr rc2 \<and> rc2 = None))"
proof -
  from rc.life [of v] obtain rc1 rc2 where
    "bi_rc_get (bi_rc_new v) = Inr (v, True)" "bi_rc_drop (bi_rc_new v) = Inr rc1"
    "bi_rc_get rc1 = Inr (v, False)" "bi_rc_drop rc1 = Inr rc2" "bi_rc_drop rc2 = Inl Dangling"
    by blast
  moreover from this(5) have "rc2 = None" by (cases rc2) (auto simp: bi_rc_drop_def Let_def)
  ultimately show ?thesis by blast
qed

end
