(* ===== verification/Vec_Deque.thy ===== *)
theory Vec_Deque
  imports Unsync_Prelude
begin

text \<open>
  What the channels use of \<open>VecDeque\<close>: its elements from front to back and its capacity.  A
  request for \<open>n\<close> elements of space gives \<open>alloc n\<close>, and the standard library only promises
  \<open>n \<le> alloc n\<close>; for an element type of size zero it is \<open>usize::MAX\<close>, whatever was asked for.
\<close>

record 'a vec_deque =
  elems :: "'a list"
  capacity :: nat

definition vd_with_capacity :: "(nat \<Rightarrow> nat) \<Rightarrow> nat \<Rightarrow> 'a vec_deque" where
  "vd_with_capacity alloc n = \<lparr>elems = [], capacity = alloc n\<rparr>"

definition vd_new :: "(nat \<Rightarrow> nat) \<Rightarrow> 'a vec_deque" where
  "vd_new alloc = vd_with_capacity alloc 0"

definition vd_len :: "'a vec_deque \<Rightarrow> nat" where
  "vd_len d = length (elems d)"

text \<open>A full deque at least doubles its space before it takes another element.\<close>

definition vd_push_back :: "'a \<Rightarrow> 'a vec_deque \<Rightarrow> 'a vec_deque" where
  "vd_push_back x d =
     \<lparr>elems = elems d @ [x],
      capacity = (if vd_len d = capacity d then max (2 * capacity d) (vd_len d + 1) else capacity d)\<rparr>"

definition vd_pop_front :: "'a vec_deque \<Rightarrow> 'a option \<times> 'a vec_deque" where
  "vd_pop_front d = (case elems d of [] \<Rightarrow> (None, d) | x # xs \<Rightarrow> (Some x, d\<lparr>elems := xs\<rparr>))"

text \<open>The two allocators of interest: exact for a sized element type, and that of a zero-sized one.\<close>

definition alloc_exact :: "nat \<Rightarrow> nat" where
  "alloc_exact n = n"

definition alloc_zst :: "nat \<Rightarrow> nat" where
  "alloc_zst n = 2 ^ 64 - 1"

lemma elems_push [simp]: "elems (vd_push_back x d) = elems d @ [x]"
  by (simp add: vd_push_back_def)

lemma capacity_push: "vd_len d < capacity d \<Longrightarrow> capacity (vd_push_back x d) = capacity d"
  by (simp add: vd_push_back_def)

lemma len_push [simp]: "vd_len (vd_push_back x d) = Suc (vd_len d)"
  by (simp add: vd_len_def)

lemma vd_new_simps [simp]: "elems (vd_with_capacity alloc n) = []" "capacity (vd_with_capacity alloc n) = alloc n"
  by (simp_all add: vd_with_capacity_def)

end
