(* ===== verification/Spsc.thy ===== *)
theory Spsc
  imports Bi_Rc Vec_Deque
begin

text \<open>
  \<open>src/spsc.rs\<close>: the bounded and the unbounded single-producer single-consumer channel over the
  shared cell.  \<open>sp_woken\<close> is the trace of wake-ups.  A suspended \<open>Send\<close> future is the value it
  still holds; a \<open>Recv\<close> future has no state.
\<close>

datatype 't send_error = SendError (unsent: 't)

fun display_send_error :: "'t send_error \<Rightarrow> string" where
  "display_send_error (SendError v) = ''channel disconnected''"

text \<open>The derived \<open>PartialOrd\<close> and \<open>Ord\<close> compare what is inside.\<close>

instantiation send_error :: (linorder) linorder
begin

definition less_eq_send_error :: "'a send_error \<Rightarrow> 'a send_error \<Rightarrow> bool" where
  "less_eq_send_error x y \<longleftrightarrow> unsent x \<le> unsent y"

definition less_send_error :: "'a send_error \<Rightarrow> 'a send_error \<Rightarrow> bool" where
  "less_send_error x y \<longleftrightarrow> unsent x < unsent y"

instance
  by standard (auto simp: less_eq_send_error_def less_send_error_def intro: send_error.expand)

end

record 't shared =
  tx :: "waker option"
  rx :: "waker option"
  buf :: "'t vec_deque"
  unbounded :: bool

definition at_capacity :: "'t shared \<Rightarrow> bool" where
  "at_capacity sh \<longleftrightarrow> \<not> unbounded sh \<and> capacity (buf sh) = vd_len (buf sh)"

record 't spsc =
  sp_rc :: "'t shared bi_rc"
  sp_woken :: "waker list"

definition channel :: "(nat \<Rightarrow> nat) \<Rightarrow> usize \<Rightarrow> 't spsc res" where
  "channel alloc cap =
     (if \<not> 0 < cap then Inl (Panic ''capacity cannot be 0'')
      else Inr \<lparr>sp_rc = bi_rc_new \<lparr>tx = None, rx = None, buf = vd_with_capacity alloc (unat cap),
                                  unbounded = False\<rparr>, sp_woken = []\<rparr>)"

definition unbounded_channel :: "(nat \<Rightarrow> nat) \<Rightarrow> 't spsc" where
  "unbounded_channel alloc =
     \<lparr>sp_rc = bi_rc_new \<lparr>tx = None, rx = None, buf = vd_new alloc, unbounded = True\<rparr>, sp_woken = []\<rparr>"

section \<open>Sending\<close>

text \<open>\<open>wake_by_ref\<close> of a waker that may be there.\<close>

definition wake_by_ref :: "waker option \<Rightarrow> 't spsc \<Rightarrow> 't spsc" where
  "wake_by_ref w ch = ch\<lparr>sp_woken := sp_woken ch @ (case w of None \<Rightarrow> [] | Some k \<Rightarrow> [k])\<rparr>"

definition try_send :: "'t \<Rightarrow> 't spsc \<Rightarrow> ((unit, 't send_error) result \<times> 't spsc) res" where
  "try_send v ch =
     and_then (bi_rc_get (sp_rc ch)) (\<lambda>(inner, both_present).
     if \<not> both_present \<or> at_capacity inner then Inr (Err (SendError v), ch)
     else
       and_then (bi_rc_put (inner\<lparr>buf := vd_push_back v (buf inner)\<rparr>) (sp_rc ch)) (\<lambda>rc.
       Inr (Ok (), wake_by_ref (rx inner) (ch\<lparr>sp_rc := rc\<rparr>))))"

text \<open>Registering interest: the waker is only replaced when it would not wake the same task.\<close>

definition refresh :: "waker option \<Rightarrow> waker \<Rightarrow> waker option" where
  "refresh w cx = (case w of Some k \<Rightarrow> if will_wake k cx then Some k else Some cx | None \<Rightarrow> Some cx)"

definition expect_value :: "'t option \<Rightarrow> 't res" where
  "expect_value v = (case v of None \<Rightarrow> Inl (Panic ''future already completed'') | Some x \<Rightarrow> Inr x)"

definition send_poll ::
  "waker \<Rightarrow> 't option \<Rightarrow> 't spsc \<Rightarrow> ((unit, 't send_error) result poll \<times> 't option \<times> 't spsc) res" where
  "send_poll cx value ch =
     and_then (bi_rc_get (sp_rc ch)) (\<lambda>(inner, both_present).
     if \<not> both_present then
       and_then (bi_rc_put (inner\<lparr>tx := None\<rparr>) (sp_rc ch)) (\<lambda>rc.
       and_then (expect_value value) (\<lambda>v.
       Inr (Ready (Err (SendError v)), None, ch\<lparr>sp_rc := rc\<rparr>)))
     else if at_capacity inner then
       and_then (bi_rc_put (inner\<lparr>tx := refresh (tx inner) cx\<rparr>) (sp_rc ch)) (\<lambda>rc.
       Inr (Pending, value, ch\<lparr>sp_rc := rc\<rparr>))
     else
       and_then (expect_value value) (\<lambda>v.
       and_then (bi_rc_put (inner\<lparr>buf := vd_push_back v (buf inner)\<rparr>) (sp_rc ch)) (\<lambda>rc.
       Inr (Ready (Ok ()), None, wake_by_ref (rx inner) (ch\<lparr>sp_rc := rc\<rparr>)))))"

definition send_start ::
  "'t \<Rightarrow> waker \<Rightarrow> 't spsc \<Rightarrow> ((unit, 't send_error) result poll \<times> 't option \<times> 't spsc) res" where
  "send_start v cx ch = send_poll cx (Some v) ch"

section \<open>Receiving\<close>

definition recv_poll :: "waker \<Rightarrow> 't spsc \<Rightarrow> ('t option poll \<times> 't spsc) res" where
  "recv_poll cx ch =
     and_then (bi_rc_get (sp_rc ch)) (\<lambda>(inner, both_present).
     case vd_pop_front (buf inner) of
       (Some v, b) \<Rightarrow>
         and_then (bi_rc_put (inner\<lparr>buf := b\<rparr>) (sp_rc ch)) (\<lambda>rc.
         Inr (Ready (Some v), wake_by_ref (tx inner) (ch\<lparr>sp_rc := rc\<rparr>)))
     | (None, b) \<Rightarrow>
         if \<not> both_present then
           and_then (bi_rc_put (inner\<lparr>rx := None\<rparr>) (sp_rc ch)) (\<lambda>rc.
           Inr (Ready None, ch\<lparr>sp_rc := rc\<rparr>))
         else
           and_then (bi_rc_put (inner\<lparr>rx := refresh (rx inner) cx\<rparr>) (sp_rc ch)) (\<lambda>rc.
           Inr (Pending, wake_by_ref (tx inner) (ch\<lparr>sp_rc := rc\<rparr>))))"

section \<open>Dropping an end\<close>

text \<open>The destructor wakes the other end; then the handle that the end holds is released.\<close>

definition sender_drop :: "'t spsc \<Rightarrow> 't spsc res" where
  "sender_drop ch =
     and_then (bi_rc_get (sp_rc ch)) (\<lambda>(inner, _).
     and_then (bi_rc_put (inner\<lparr>rx := None\<rparr>) (sp_rc ch)) (\<lambda>rc.
     let ch = wake_by_ref (rx inner) (ch\<lparr>sp_rc := rc\<rparr>) in
     and_then (bi_rc_drop (sp_rc ch)) (\<lambda>rc. Inr (ch\<lparr>sp_rc := rc\<rparr>))))"

definition receiver_drop :: "'t spsc \<Rightarrow> 't spsc res" where
  "receiver_drop ch =
     and_then (bi_rc_get (sp_rc ch)) (\<lambda>(inner, _).
     and_then (bi_rc_put (inner\<lparr>tx := None\<rparr>) (sp_rc ch)) (\<lambda>rc.
     let ch = wake_by_ref (tx inner) (ch\<lparr>sp_rc := rc\<rparr>) in
     and_then (bi_rc_drop (sp_rc ch)) (\<lambda>rc. Inr (ch\<lparr>sp_rc := rc\<rparr>))))"

section \<open>Exact results\<close>

lemma refresh_eq [simp]: "refresh w cx = Some cx"
  by (simp add: refresh_def will_wake_def split: option.split)

lemma wake_by_ref_simps [simp]:
  "sp_rc (wake_by_ref w ch) = sp_rc ch"
  "sp_woken (wake_by_ref w ch) = sp_woken ch @ (case w of None \<Rightarrow> [] | Some k \<Rightarrow> [k])"
  "(wake_by_ref w ch)\<lparr>sp_rc := rc\<rparr> = wake_by_ref w (ch\<lparr>sp_rc := rc\<rparr>)"
  by (simp_all add: wake_by_ref_def)

lemma try_send_eq:
  assumes "bi_owned n sh (sp_rc ch)" and "0 < n"
  shows "n \<noteq> 2 \<or> at_capacity sh \<Longrightarrow> try_send v ch = Inr (Err (SendError v), ch)"
    and "n = 2 \<Longrightarrow> \<not> at_capacity sh \<Longrightarrow> \<exists>rc. try_send v ch = Inr (Ok (), wake_by_ref (rx sh) (ch\<lparr>sp_rc := rc\<rparr>)) \<and>
       bi_owned n (sh\<lparr>buf := vd_push_back v (buf sh)\<rparr>) rc"
  using rc.get_law [OF assms] rc.put_law [OF assms, of "sh\<lparr>buf := vd_push_back v (buf sh)\<rparr>"]
  by (auto simp: try_send_def)

lemma send_poll_eq:
  assumes "bi_owned n sh (sp_rc ch)" and "0 < n"
  shows "n \<noteq> 2 \<Longrightarrow> \<exists>rc. send_poll cx (Some v) ch =
        Inr (Ready (Err (SendError v)), None, ch\<lparr>sp_rc := rc\<rparr>) \<and> bi_owned n (sh\<lparr>tx := None\<rparr>) rc"
    and "n = 2 \<Longrightarrow> at_capacity sh \<Longrightarrow> \<exists>rc. send_poll cx (Some v) ch =
        Inr (Pending, Some v, ch\<lparr>sp_rc := rc\<rparr>) \<and> bi_owned n (sh\<lparr>tx := Some cx\<rparr>) rc"
    and "n = 2 \<Longrightarrow> \<not> at_capacity sh \<Longrightarrow> \<exists>rc. send_poll cx (Some v) ch =
        Inr (Ready (Ok ()), None, wake_by_ref (rx sh) (ch\<lparr>sp_rc := rc\<rparr>)) \<and>
        bi_owned n (sh\<lparr>buf := vd_push_back v (buf sh)\<rparr>) rc"
  using rc.get_law [OF assms] rc.put_law [OF assms, of "sh\<lparr>buf := vd_push_back v (buf sh)\<rparr>"]
    rc.put_law [OF assms, of "sh\<lparr>tx := None\<rparr>"] rc.put_law [OF assms, of "sh\<lparr>tx := Some cx\<rparr>"]
  by (auto simp: send_poll_def expect_value_def)

lemma recv_poll_eq:
  assumes "bi_owned n sh (sp_rc ch)" and "0 < n"
  shows "elems (buf sh) = v # vs \<Longrightarrow> \<exists>rc. recv_poll cx ch =
        Inr (Ready (Some v), wake_by_ref (tx sh) (ch\<lparr>sp_rc := rc\<rparr>)) \<and>
        bi_owned n (sh\<lparr>buf := (buf sh)\<lparr>elems := vs\<rparr>\<rparr>) rc"
    and "elems (buf sh) = [] \<Longrightarrow> n \<noteq> 2 \<Longrightarrow> \<exists>rc. recv_poll cx ch =
        Inr (Ready None, ch\<lparr>sp_rc := rc\<rparr>) \<and> bi_owned n (sh\<lparr>rx := None\<rparr>) rc"
    and "elems (buf sh) = [] \<Longrightarrow> n = 2 \<Longrightarrow> \<exists>rc. recv_poll cx ch =
        Inr (Pending, wake_by_ref (tx sh) (ch\<lparr>sp_rc := rc\<rparr>)) \<and> bi_owned n (sh\<lparr>rx := Some cx\<rparr>) rc"
  using rc.get_law [OF assms] rc.put_law [OF assms, of "sh\<lparr>buf := (buf sh)\<lparr>elems := vs\<rparr>\<rparr>"]
    rc.put_law [OF assms, of "sh\<lparr>rx := None\<rparr>"] rc.put_law [OF assms, of "sh\<lparr>rx := Some cx\<rparr>"]
  by (auto simp: recv_poll_def vd_pop_front_def)

lemma sender_drop_eq:
  assumes "bi_owned n sh (sp_rc ch)" and "0 < n"
  shows "\<exists>rc. sender_drop ch = Inr (wake_by_ref (rx sh) (ch\<lparr>sp_rc := rc\<rparr>)) \<and>
     bi_owned (n - 1) (sh\<lparr>rx := None\<rparr>) rc"
proof -
  from rc.put_law [OF assms, of "sh\<lparr>rx := None\<rparr>"] obtain rc where
    1: "bi_rc_put (sh\<lparr>rx := None\<rparr>) (sp_rc ch) = Inr rc" "bi_owned n (sh\<lparr>rx := None\<rparr>) rc"
    by blast
  from rc.release_law [OF 1(2) assms(2)] rc.get_law [OF assms] 1(1) show ?thesis
    by (auto simp: sender_drop_def)
qed

lemma receiver_drop_eq:
  assumes "bi_owned n sh (sp_rc ch)" and "0 < n"
  shows "\<exists>rc. receiver_drop ch = Inr (wake_by_ref (tx sh) (ch\<lparr>sp_rc := rc\<rparr>)) \<and>
     bi_owned (n - 1) (sh\<lparr>tx := None\<rparr>) rc"
proof -
  from rc.put_law [OF assms, of "sh\<lparr>tx := None\<rparr>"] obtain rc where
    1: "bi_rc_put (sh\<lparr>tx := None\<rparr>) (sp_rc ch) = Inr rc" "bi_owned n (sh\<lparr>tx := None\<rparr>) rc"
    by blast
  from rc.release_law [OF 1(2) assms(2)] rc.get_law [OF assms] 1(1) show ?thesis
    by (auto simp: receiver_drop_def)
qed

text \<open>A task that receives in a loop goes round once for each message, so what is buffered bounds its loop.\<close>

definition backlog :: "'t spsc \<Rightarrow> nat" where
  "backlog ch = (case sp_rc ch of None \<Rightarrow> 0 | Some i \<Rightarrow> vd_len (buf (bi_value i)))"

lemma recv_poll_backlog:
  assumes "recv_poll cx ch = Inr (Ready (Some v), ch')"
  shows "backlog ch' < backlog ch"
  using assms
  by (auto simp: recv_poll_def bi_rc_get_def bi_rc_put_def vd_pop_front_def and_then_eq_Inr backlog_def
      vd_len_def split: option.splits list.splits if_splits prod.splits)

end
