(* ===== verification/Spsc_System.thy ===== *)
theory Spsc_System
  imports Spsc
begin

text \<open>
  The channel with its two ends: who is alive, the value of a suspended \<open>send\<close>, the messages
  accepted and received so far, the results of the sends that ended, the space that was allocated
  for a bounded channel, and the waker of each side that was told to wait and has not been woken
  since.
\<close>

section \<open>The system\<close>

record 't spsc_sys =
  chan :: "'t spsc"
  bound :: "nat option"
  tx_alive :: bool
  rx_alive :: bool
  sending :: "'t option"
  accepted :: "'t list"
  received :: "'t list"
  results :: "(unit, 't send_error) result list"
  rx_asleep :: "waker option"
  tx_asleep :: "waker option"

datatype 't spsc_op =
    TrySend 't
  | StartSend 't waker
  | PollSend waker
  | CancelSend
  | DropSender
  | PollRecv waker
  | CancelRecv
  | DropReceiver

text \<open>A suspended \<open>send\<close> borrows the sender, so nothing else can be done with it.\<close>

fun spsc_enabled :: "'t spsc_op \<Rightarrow> 't spsc_sys \<Rightarrow> bool" where
  "spsc_enabled (TrySend v) S \<longleftrightarrow> tx_alive S \<and> Option.is_none (sending S)"
| "spsc_enabled (StartSend v cx) S \<longleftrightarrow> tx_alive S \<and> Option.is_none (sending S)"
| "spsc_enabled (PollSend cx) S \<longleftrightarrow> tx_alive S \<and> \<not> Option.is_none (sending S)"
| "spsc_enabled CancelSend S \<longleftrightarrow> tx_alive S \<and> \<not> Option.is_none (sending S)"
| "spsc_enabled DropSender S \<longleftrightarrow> tx_alive S \<and> Option.is_none (sending S)"
| "spsc_enabled (PollRecv cx) S \<longleftrightarrow> rx_alive S"
| "spsc_enabled CancelRecv S \<longleftrightarrow> rx_alive S"
| "spsc_enabled DropReceiver S \<longleftrightarrow> rx_alive S"

definition rouse :: "'t spsc \<Rightarrow> 't spsc_sys \<Rightarrow> 't spsc_sys" where
  "rouse ch S =
     (let calls = drop (length (sp_woken (chan S))) (sp_woken ch) in
      S\<lparr>chan := ch, rx_asleep := roused calls (rx_asleep S), tx_asleep := roused calls (tx_asleep S)\<rparr>)"

definition end_send :: "'t \<Rightarrow> (unit, 't send_error) result \<Rightarrow> 't spsc_sys \<Rightarrow> 't spsc_sys" where
  "end_send v r S =
     S\<lparr>sending := None, tx_asleep := None, results := results S @ [r],
       accepted := accepted S @ (case r of Ok _ \<Rightarrow> [v] | Err _ \<Rightarrow> [])\<rparr>"

definition after_send ::
  "'t \<Rightarrow> waker \<Rightarrow> (unit, 't send_error) result poll \<Rightarrow> 't option \<Rightarrow> 't spsc_sys \<Rightarrow> 't spsc_sys" where
  "after_send v cx r value S =
     (case r of
        Ready x \<Rightarrow> end_send v x S
      | Pending \<Rightarrow> S\<lparr>sending := value, tx_asleep := Some cx\<rparr>)"

fun spsc_exec :: "'t spsc_op \<Rightarrow> 't spsc_sys \<Rightarrow> 't spsc_sys res" where
  "spsc_exec (TrySend v) S =
     and_then (try_send v (chan S)) (\<lambda>(r, ch). Inr (end_send v r (rouse ch S)))"
| "spsc_exec (StartSend v cx) S =
     and_then (send_start v cx (chan S)) (\<lambda>(r, value, ch). Inr (after_send v cx r value (rouse ch S)))"
| "spsc_exec (PollSend cx) S =
     and_then (send_poll cx (sending S) (chan S)) (\<lambda>(r, value, ch).
     Inr (after_send (the (sending S)) cx r value (rouse ch S)))"
| "spsc_exec CancelSend S = Inr (S\<lparr>sending := None, tx_asleep := None\<rparr>)"
| "spsc_exec DropSender S =
     and_then (sender_drop (chan S)) (\<lambda>ch. Inr ((rouse ch S)\<lparr>tx_alive := False, tx_asleep := None\<rparr>))"
| "spsc_exec (PollRecv cx) S =
     and_then (recv_poll cx (chan S)) (\<lambda>(r, ch).
     Inr (case r of
         Pending \<Rightarrow> (rouse ch S)\<lparr>rx_asleep := Some cx\<rparr>
       | Ready x \<Rightarrow> (rouse ch S)\<lparr>rx_asleep := None,
           received := received S @ (case x of None \<Rightarrow> [] | Some v \<Rightarrow> [v])\<rparr>))"
| "spsc_exec CancelRecv S = Inr (S\<lparr>rx_asleep := None\<rparr>)"
| "spsc_exec DropReceiver S =
     and_then (receiver_drop (chan S)) (\<lambda>ch. Inr ((rouse ch S)\<lparr>rx_alive := False, rx_asleep := None\<rparr>))"

definition spsc_sys_of :: "nat option \<Rightarrow> 't spsc \<Rightarrow> 't spsc_sys" where
  "spsc_sys_of b ch = \<lparr>chan = ch, bound = b, tx_alive = True, rx_alive = True, sending = None, accepted = [],
     received = [], results = [], rx_asleep = None, tx_asleep = None\<rparr>"

text \<open>
  The start states: a channel made by either constructor, with any allocator that keeps the
  promise of the standard library.
\<close>

definition spsc_start :: "'t spsc_sys \<Rightarrow> bool" where
  "spsc_start S \<longleftrightarrow> (\<exists>alloc. (\<forall>n. n \<le> alloc n) \<and>
     (S = spsc_sys_of None (unbounded_channel alloc) \<or>
      (\<exists>cap ch. channel alloc cap = Inr ch \<and> S = spsc_sys_of (Some (alloc (unat cap))) ch)))"

inductive spsc_step :: "'t spsc_sys \<Rightarrow> 't spsc_sys \<Rightarrow> bool" where
  spsc_call: "spsc_enabled op S \<Longrightarrow> spsc_exec op S = Inr S' \<Longrightarrow> spsc_step S S'"

inductive_cases spsc_stepE: "spsc_step S S'"

section \<open>The invariant\<close>

definition alive :: "'t spsc_sys \<Rightarrow> nat" where
  "alive S = of_bool (tx_alive S) + of_bool (rx_alive S)"

definition fits :: "nat option \<Rightarrow> 't shared \<Rightarrow> bool" where
  "fits b sh \<longleftrightarrow>
     (case b of
        None \<Rightarrow> unbounded sh
      | Some c \<Rightarrow> \<not> unbounded sh \<and> capacity (buf sh) = c \<and> 0 < c \<and> vd_len (buf sh) \<le> c)"

definition spsc_holds :: "'t spsc_sys \<Rightarrow> 't shared \<Rightarrow> bool" where
  "spsc_holds S sh \<longleftrightarrow>
     bi_owned (alive S) sh (sp_rc (chan S)) \<and>
     accepted S = received S @ elems (buf sh) \<and>
     fits (bound S) sh \<and>
     (sending S \<noteq> None \<longrightarrow> tx_alive S) \<and>
     (rx_asleep S \<noteq> None \<longrightarrow>
        rx_alive S \<and> tx_alive S \<and> elems (buf sh) = [] \<and> rx sh = rx_asleep S) \<and>
     (tx_asleep S \<noteq> None \<longrightarrow>
        rx_alive S \<and> sending S \<noteq> None \<and> at_capacity sh \<and> tx sh = tx_asleep S)"

definition spsc_inv :: "'t spsc_sys \<Rightarrow> bool" where
  "spsc_inv S \<longleftrightarrow> (\<exists>sh. spsc_holds S sh)"

lemma fits_push:
  "\<not> at_capacity sh \<Longrightarrow> fits b sh \<Longrightarrow> fits b (sh\<lparr>buf := vd_push_back v (buf sh)\<rparr>)"
  using capacity_push [of "buf sh" v] by (auto simp: at_capacity_def fits_def split: option.splits)

lemma fits_pop: "elems (buf sh) = v # vs \<Longrightarrow> fits b sh \<Longrightarrow> fits b (sh\<lparr>buf := (buf sh)\<lparr>elems := vs\<rparr>\<rparr>)"
  by (auto simp: fits_def vd_len_def split: option.splits)

lemma fits_frame [simp]: "fits b (sh\<lparr>tx := w\<rparr>) = fits b sh" "fits b (sh\<lparr>rx := w\<rparr>) = fits b sh"
  by (simp_all add: fits_def split: option.split)

lemma rouse_simps [simp]:
  "chan (rouse ch S) = ch" "tx_alive (rouse ch S) = tx_alive S" "rx_alive (rouse ch S) = rx_alive S"
  "sending (rouse ch S) = sending S" "accepted (rouse ch S) = accepted S"
  "received (rouse ch S) = received S" "bound (rouse ch S) = bound S" "results (rouse ch S) = results S"
  by (simp_all add: rouse_def Let_def)

lemma rouse_asleep:
  "sp_woken ch = sp_woken (chan S) @ ks \<Longrightarrow> rx_asleep (rouse ch S) = roused ks (rx_asleep S)"
  "sp_woken ch = sp_woken (chan S) @ ks \<Longrightarrow> tx_asleep (rouse ch S) = roused ks (tx_asleep S)"
  by (simp_all add: rouse_def Let_def)

lemma spsc_holdsD:
  assumes "spsc_holds S sh"
  shows "bi_owned (alive S) sh (sp_rc (chan S))" "accepted S = received S @ elems (buf sh)"
    "fits (bound S) sh"
    "sending S \<noteq> None \<Longrightarrow> tx_alive S"
    "rx_asleep S = None \<or> rx_alive S \<and> tx_alive S \<and> elems (buf sh) = [] \<and> rx sh = rx_asleep S"
    "tx_asleep S = None \<or> rx_alive S \<and> sending S \<noteq> None \<and> at_capacity sh \<and> tx sh = tx_asleep S"
  using assms by (auto simp: spsc_holds_def)

text \<open>The registered wakers are those that sleep, so calling them leaves nobody asleep.\<close>

lemma rouse_rx_asleep:
  assumes "spsc_holds S sh"
  shows "rx_asleep (rouse (wake_by_ref (rx sh) ((chan S)\<lparr>sp_rc := rc\<rparr>)) S) = None"
proof -
  have "rx_asleep (rouse (wake_by_ref (rx sh) ((chan S)\<lparr>sp_rc := rc\<rparr>)) S) =
      roused (case rx sh of None \<Rightarrow> [] | Some k \<Rightarrow> [k]) (rx_asleep S)"
    by (rule rouse_asleep(1)) simp
  with spsc_holdsD(5) [OF assms] show ?thesis by (cases "rx_asleep S") auto
qed

lemma rouse_tx_asleep:
  assumes "spsc_holds S sh"
  shows "tx_asleep (rouse (wake_by_ref (tx sh) ((chan S)\<lparr>sp_rc := rc\<rparr>)) S) = None"
proof -
  have "tx_asleep (rouse (wake_by_ref (tx sh) ((chan S)\<lparr>sp_rc := rc\<rparr>)) S) =
      roused (case tx sh of None \<Rightarrow> [] | Some k \<Rightarrow> [k]) (tx_asleep S)"
    by (rule rouse_asleep(2)) simp
  with spsc_holdsD(6) [OF assms] show ?thesis by (cases "tx_asleep S") auto
qed

text \<open>One lemma for both ways to send: the value is buffered, refused, or waits.\<close>

lemma push_holds:
  assumes "spsc_holds S sh" and "\<not> at_capacity sh" and "rx_alive S" "tx_alive S"
    and "bi_owned (alive S) (sh\<lparr>buf := vd_push_back v (buf sh)\<rparr>) rc"
  shows "spsc_inv (end_send v (Ok ()) (rouse (wake_by_ref (rx sh) ((chan S)\<lparr>sp_rc := rc\<rparr>)) S))"
proof -
  let ?S = "rouse (wake_by_ref (rx sh) ((chan S)\<lparr>sp_rc := rc\<rparr>)) S"
  have "rx_asleep ?S = None" by (rule rouse_rx_asleep [OF assms(1)])
  moreover have "fits (bound S) (sh\<lparr>buf := vd_push_back v (buf sh)\<rparr>)"
    using fits_push [OF assms(2)] assms(1) by (auto simp: spsc_holds_def)
  ultimately have "spsc_holds (end_send v (Ok ()) ?S) (sh\<lparr>buf := vd_push_back v (buf sh)\<rparr>)"
    using assms by (simp add: spsc_holds_def end_send_def alive_def)
  then show ?thesis by (auto simp: spsc_inv_def)
qed

lemma spsc_holdsI:
  assumes "bi_owned (alive S) sh (sp_rc (chan S))" "accepted S = received S @ elems (buf sh)"
    "fits (bound S) sh"
    "sending S \<noteq> None \<longrightarrow> tx_alive S"
    "rx_asleep S = None \<or> rx_alive S \<and> tx_alive S \<and> elems (buf sh) = [] \<and> rx sh = rx_asleep S"
    "tx_asleep S = None \<or> rx_alive S \<and> sending S \<noteq> None \<and> at_capacity sh \<and> tx sh = tx_asleep S"
  shows "spsc_inv S"
  using assms by (auto simp: spsc_inv_def spsc_holds_def)

lemma at_capacity_frame [simp]:
  "at_capacity (sh\<lparr>tx := w\<rparr>) = at_capacity sh" "at_capacity (sh\<lparr>rx := w\<rparr>) = at_capacity sh"
  by (simp_all add: at_capacity_def)

lemma rouse_quiet: "sp_woken ch = sp_woken (chan S) \<Longrightarrow> rouse ch S = S\<lparr>chan := ch\<rparr>"
  by (cases S) (simp add: rouse_def roused_def split: option.split)

text \<open>A poll of a \<open>send\<close>, the first or a later one.\<close>

lemma poll_send_ok:
  assumes "spsc_holds S sh" and "tx_alive S"
  shows "\<exists>r value ch. send_poll cx (Some v) (chan S) = Inr (r, value, ch) \<and>
     spsc_inv (after_send v cx r value (rouse ch S))"
proof -
  note h = spsc_holdsD [OF assms(1)]
  have n: "0 < alive S" "alive S = 2 \<longleftrightarrow> rx_alive S" using assms(2) by (auto simp: alive_def)
  consider (gone) "\<not> rx_alive S" | (full) "rx_alive S" "at_capacity sh" | (room) "rx_alive S" "\<not> at_capacity sh"
    by blast
  then show ?thesis
  proof cases
    case gone
    with send_poll_eq(1) [OF h(1) n(1), of cx v] n(2) obtain rc where
      r: "send_poll cx (Some v) (chan S) = Inr (Ready (Err (SendError v)), None, (chan S)\<lparr>sp_rc := rc\<rparr>)"
      "bi_owned (alive S) (sh\<lparr>tx := None\<rparr>) rc"
      by blast
    have "rx_asleep S = None" using h(5) gone by simp
    then have "spsc_inv (end_send v (Err (SendError v)) (S\<lparr>chan := (chan S)\<lparr>sp_rc := rc\<rparr>\<rparr>))"
      using r(2) h(2,3) by (intro spsc_holdsI [where sh = "sh\<lparr>tx := None\<rparr>"]) (simp_all add: end_send_def alive_def)
    with r(1) show ?thesis by (simp add: rouse_quiet after_send_def)
  next
    case full
    with send_poll_eq(2) [OF h(1) n(1), of cx v] n(2) obtain rc where
      r: "send_poll cx (Some v) (chan S) = Inr (Pending, Some v, (chan S)\<lparr>sp_rc := rc\<rparr>)"
      "bi_owned (alive S) (sh\<lparr>tx := Some cx\<rparr>) rc"
      by blast
    have "spsc_inv (S\<lparr>chan := (chan S)\<lparr>sp_rc := rc\<rparr>, sending := Some v, tx_asleep := Some cx\<rparr>)"
      using r(2) h(2,3,5) full assms(2)
      by (intro spsc_holdsI [where sh = "sh\<lparr>tx := Some cx\<rparr>"]) (simp_all add: alive_def)
    with r(1) show ?thesis by (simp add: rouse_quiet after_send_def)
  next
    case room
    with send_poll_eq(3) [OF h(1) n(1), of cx v] n(2) obtain rc where
      r: "send_poll cx (Some v) (chan S) = Inr (Ready (Ok ()), None, wake_by_ref (rx sh) ((chan S)\<lparr>sp_rc := rc\<rparr>))"
      "bi_owned (alive S) (sh\<lparr>buf := vd_push_back v (buf sh)\<rparr>) rc"
      by blast
    with push_holds [OF assms(1) room(2,1) assms(2) r(2)] show ?thesis by (simp add: after_send_def)
  qed
qed

lemma try_send_ok:
  assumes "spsc_holds S sh" and "tx_alive S" "sending S = None"
  shows "\<exists>r ch. try_send v (chan S) = Inr (r, ch) \<and> spsc_inv (end_send v r (rouse ch S))"
proof -
  note h = spsc_holdsD [OF assms(1)]
  have n: "0 < alive S" "alive S = 2 \<longleftrightarrow> rx_alive S" using assms(2) by (auto simp: alive_def)
  show ?thesis
  proof (cases "rx_alive S \<and> \<not> at_capacity sh")
    case True
    with try_send_eq(2) [OF h(1) n(1), of v] n(2) obtain rc where
      r: "try_send v (chan S) = Inr (Ok (), wake_by_ref (rx sh) ((chan S)\<lparr>sp_rc := rc\<rparr>))"
      "bi_owned (alive S) (sh\<lparr>buf := vd_push_back v (buf sh)\<rparr>) rc"
      by blast
    with push_holds [OF assms(1) _ _ assms(2) r(2)] True show ?thesis by simp
  next
    case False
    with try_send_eq(1) [OF h(1) n(1), of v] n(2)
    have r: "try_send v (chan S) = Inr (Err (SendError v), chan S)" by blast
    have "spsc_inv (end_send v (Err (SendError v)) S)"
      using h by (intro spsc_holdsI [where sh = sh]) (simp_all add: end_send_def alive_def)
    with r show ?thesis by (simp add: rouse_quiet)
  qed
qed

lemma poll_recv_pops:
  assumes "spsc_holds S sh" and "rx_alive S" and "elems (buf sh) = v # vs"
  shows "\<exists>S'. spsc_exec (PollRecv cx) S = Inr S' \<and> spsc_inv S' \<and>
     received S' = received S @ take 1 (elems (buf sh))"
proof -
  note h = spsc_holdsD [OF assms(1)]
  have n: "0 < alive S" "alive S = 2 \<longleftrightarrow> tx_alive S" using assms(2) by (auto simp: alive_def)
  from recv_poll_eq(1) [OF h(1) n(1) assms(3), of cx] obtain rc where
    r: "recv_poll cx (chan S) = Inr (Ready (Some v), wake_by_ref (tx sh) ((chan S)\<lparr>sp_rc := rc\<rparr>))"
    "bi_owned (alive S) (sh\<lparr>buf := (buf sh)\<lparr>elems := vs\<rparr>\<rparr>) rc"
    by blast
  let ?S' = "(rouse (wake_by_ref (tx sh) ((chan S)\<lparr>sp_rc := rc\<rparr>)) S)\<lparr>rx_asleep := None, received := received S @ [v]\<rparr>"
  have "spsc_inv ?S'"
    using r(2) h(2,4) fits_pop [OF assms(3) h(3)] assms(2,3) rouse_tx_asleep [OF assms(1)]
    by (intro spsc_holdsI [where sh = "sh\<lparr>buf := (buf sh)\<lparr>elems := vs\<rparr>\<rparr>"])
      (auto simp: alive_def)
  with r(1) assms(3) show ?thesis by (auto simp: vd_len_def)
qed

lemma poll_recv_ends:
  assumes "spsc_holds S sh" and "rx_alive S" and "elems (buf sh) = []" and "\<not> tx_alive S"
  shows "\<exists>S'. spsc_exec (PollRecv cx) S = Inr S' \<and> spsc_inv S' \<and>
     received S' = received S @ take 1 (elems (buf sh))"
proof -
  note h = spsc_holdsD [OF assms(1)]
  have n: "0 < alive S" "alive S = 2 \<longleftrightarrow> tx_alive S" using assms(2) by (auto simp: alive_def)
  from recv_poll_eq(2) [OF h(1) n(1) assms(3), of cx] n(2) assms(4) obtain rc where
    r: "recv_poll cx (chan S) = Inr (Ready None, (chan S)\<lparr>sp_rc := rc\<rparr>)"
    "bi_owned (alive S) (sh\<lparr>rx := None\<rparr>) rc"
    by blast
  have "tx_asleep S = None" using h(4,6) assms(4) by auto
  then have "spsc_inv (S\<lparr>chan := (chan S)\<lparr>sp_rc := rc\<rparr>, rx_asleep := None, received := received S\<rparr>)"
    using r(2) h(2-4)
    by (intro spsc_holdsI [where sh = "sh\<lparr>rx := None\<rparr>"]) (auto simp: alive_def)
  with r(1) assms(3) show ?thesis by (simp add: rouse_quiet)
qed

lemma poll_recv_waits:
  assumes "spsc_holds S sh" and "rx_alive S" and "elems (buf sh) = []" and "tx_alive S"
  shows "\<exists>S'. spsc_exec (PollRecv cx) S = Inr S' \<and> spsc_inv S' \<and>
     received S' = received S @ take 1 (elems (buf sh))"
proof -
  note h = spsc_holdsD [OF assms(1)]
  have n: "0 < alive S" "alive S = 2 \<longleftrightarrow> tx_alive S" using assms(2) by (auto simp: alive_def)
  from recv_poll_eq(3) [OF h(1) n(1) assms(3), of cx] n(2) assms(4) obtain rc where
    r: "recv_poll cx (chan S) = Inr (Pending, wake_by_ref (tx sh) ((chan S)\<lparr>sp_rc := rc\<rparr>))"
    "bi_owned (alive S) (sh\<lparr>rx := Some cx\<rparr>) rc"
    by blast
  have "spsc_inv ((rouse (wake_by_ref (tx sh) ((chan S)\<lparr>sp_rc := rc\<rparr>)) S)\<lparr>rx_asleep := Some cx\<rparr>)"
    using r(2) h(2-4) assms(2-4) rouse_tx_asleep [OF assms(1)]
    by (intro spsc_holdsI [where sh = "sh\<lparr>rx := Some cx\<rparr>"]) (auto simp: alive_def)
  with r(1) assms(3) show ?thesis by simp
qed

lemma poll_recv_ok:
  assumes "spsc_holds S sh" and "rx_alive S"
  shows "\<exists>S'. spsc_exec (PollRecv cx) S = Inr S' \<and> spsc_inv S' \<and>
     received S' = received S @ take 1 (elems (buf sh))"
  using poll_recv_pops [OF assms] poll_recv_ends [OF assms] poll_recv_waits [OF assms]
  by (cases "elems (buf sh)"; cases "tx_alive S") blast+

lemma drop_sender_ok:
  assumes "spsc_holds S sh" and "tx_alive S" "sending S = None"
  shows "\<exists>S'. spsc_exec DropSender S = Inr S' \<and> spsc_inv S'"
proof -
  note h = spsc_holdsD [OF assms(1)]
  have "0 < alive S" using assms(2) by (simp add: alive_def)
  from sender_drop_eq [OF h(1) this] obtain rc where
    r: "sender_drop (chan S) = Inr (wake_by_ref (rx sh) ((chan S)\<lparr>sp_rc := rc\<rparr>))"
    "bi_owned (alive S - 1) (sh\<lparr>rx := None\<rparr>) rc"
    by blast
  let ?S = "rouse (wake_by_ref (rx sh) ((chan S)\<lparr>sp_rc := rc\<rparr>)) S"
  have "rx_asleep ?S = None" by (rule rouse_rx_asleep [OF assms(1)])
  then have "spsc_inv (?S\<lparr>tx_alive := False, tx_asleep := None\<rparr>)"
    using r(2) h(2,3) assms(2,3)
    by (intro spsc_holdsI [where sh = "sh\<lparr>rx := None\<rparr>"]) (simp_all add: alive_def)
  with r(1) show ?thesis by simp
qed

lemma drop_receiver_ok:
  assumes "spsc_holds S sh" and "rx_alive S"
  shows "\<exists>S'. spsc_exec DropReceiver S = Inr S' \<and> spsc_inv S'"
proof -
  note h = spsc_holdsD [OF assms(1)]
  have "0 < alive S" using assms(2) by (simp add: alive_def)
  from receiver_drop_eq [OF h(1) this] obtain rc where
    r: "receiver_drop (chan S) = Inr (wake_by_ref (tx sh) ((chan S)\<lparr>sp_rc := rc\<rparr>))"
    "bi_owned (alive S - 1) (sh\<lparr>tx := None\<rparr>) rc"
    by blast
  let ?S = "rouse (wake_by_ref (tx sh) ((chan S)\<lparr>sp_rc := rc\<rparr>)) S"
  have "tx_asleep ?S = None" by (rule rouse_tx_asleep [OF assms(1)])
  then have "spsc_inv (?S\<lparr>rx_alive := False, rx_asleep := None\<rparr>)"
    using r(2) h(2-4) assms(2)
    by (intro spsc_holdsI [where sh = "sh\<lparr>tx := None\<rparr>"]) (auto simp: alive_def)
  with r(1) show ?thesis by simp
qed

lemma spsc_exec_ok:
  assumes "spsc_inv S" and "spsc_enabled op S"
  shows "\<exists>S'. spsc_exec op S = Inr S' \<and> spsc_inv S'"
proof -
  from assms(1) obtain sh where sh: "spsc_holds S sh" by (auto simp: spsc_inv_def)
  note h = spsc_holdsD [OF sh]
  show ?thesis
  proof (cases op)
    case (TrySend v)
    with assms(2) try_send_ok [OF sh, of v] show ?thesis by (auto simp: Option.is_none_def)
  next
    case (StartSend v cx)
    with assms(2) poll_send_ok [OF sh, of cx v] show ?thesis by (auto simp: send_start_def)
  next
    case (PollSend cx)
    then obtain v where "sending S = Some v" "tx_alive S" using assms(2) by (auto simp: Option.is_none_def)
    with PollSend poll_send_ok [OF sh, of cx v] show ?thesis by auto
  next
    case CancelSend
    have "spsc_inv (S\<lparr>sending := None, tx_asleep := None\<rparr>)"
      using h by (intro spsc_holdsI [where sh = sh]) (simp_all add: alive_def)
    with CancelSend show ?thesis by simp
  next
    case DropSender
    with assms(2) drop_sender_ok [OF sh] show ?thesis by (simp add: Option.is_none_def del: spsc_exec.simps)
  next
    case (PollRecv cx)
    with assms(2) poll_recv_ok [OF sh, of cx] show ?thesis by auto
  next
    case CancelRecv
    have "spsc_inv (S\<lparr>rx_asleep := None\<rparr>)"
      using h by (intro spsc_holdsI [where sh = sh]) (simp_all add: alive_def)
    with CancelRecv show ?thesis by simp
  next
    case DropReceiver
    with assms(2) drop_receiver_ok [OF sh] show ?thesis by simp
  qed
qed

lemma spsc_new_inv:
  assumes "elems (buf sh) = []" and "fits b sh"
  shows "spsc_inv (spsc_sys_of b \<lparr>sp_rc = bi_rc_new sh, sp_woken = []\<rparr>)"
  using assms rc.make_law [of sh]
  by (intro spsc_holdsI [where sh = sh]) (simp_all add: spsc_sys_of_def alive_def numeral_2_eq_2)

lemma spsc_start_inv:
  assumes "spsc_start S"
  shows "spsc_inv S"
proof -
  from assms obtain alloc where a: "\<And>n. n \<le> alloc n"
    and c: "S = spsc_sys_of None (unbounded_channel alloc) \<or>
      (\<exists>cap ch. channel alloc cap = Inr ch \<and> S = spsc_sys_of (Some (alloc (unat cap))) ch)"
    by (auto simp: spsc_start_def)
  from c show ?thesis
  proof
    assume "S = spsc_sys_of None (unbounded_channel alloc)"
    then show ?thesis by (simp add: unbounded_channel_def vd_new_def spsc_new_inv fits_def)
  next
    assume "\<exists>cap ch. channel alloc cap = Inr ch \<and> S = spsc_sys_of (Some (alloc (unat cap))) ch"
    then obtain cap ch where c: "channel alloc cap = Inr ch" "S = spsc_sys_of (Some (alloc (unat cap))) ch"
      by blast
    then have "0 < cap" by (auto simp: channel_def split: if_splits)
    then have "0 < unat cap" by (simp add: word_less_nat_alt)
    with a [of "unat cap"] have "0 < alloc (unat cap)" by simp
    with c \<open>0 < cap\<close> show ?thesis
      by (auto simp: channel_def fits_def vd_len_def intro!: spsc_new_inv)
  qed
qed

interpretation spsc_all: inductive_invariant spsc_start spsc_step spsc_inv
proof unfold_locales
  show "spsc_inv T" if "spsc_step S T" "spsc_inv S" for S T :: "'a spsc_sys"
    using that(1) by (rule spsc_stepE) (use spsc_exec_ok [OF that(2)] in fastforce)
qed (rule spsc_start_inv)

section \<open>Properties\<close>

text \<open>C33.
  No call on a channel faults, whatever the order of sends, polls, cancellations and drops: the
  shared allocation is never used after it was freed, a \<open>send\<close> never completes twice, and the
  allocation is freed exactly when both ends are gone.
\<close>

theorem spsc_memory_safe:
  assumes "reachable spsc_start spsc_step S"
  shows "(sp_rc (chan S) = None \<longleftrightarrow> \<not> tx_alive S \<and> \<not> rx_alive S) \<and>
     (spsc_enabled op S \<longrightarrow> (\<exists>S'. spsc_exec op S = Inr S'))"
proof -
  from spsc_all.inv_reachable [OF assms] obtain sh where
    "bi_owned (alive S) sh (sp_rc (chan S))" by (auto simp: spsc_inv_def spsc_holds_def)
  then have "sp_rc (chan S) = None \<longleftrightarrow> alive S = 0"
    by (auto simp: bi_owned_def split: option.splits)
  with spsc_exec_ok [OF spsc_all.inv_reachable [OF assms]] show ?thesis by (auto simp: alive_def)
qed

text \<open>C5.
  First in, first out, nothing lost and nothing made up: what was received is a prefix of what was
  accepted, a poll of the receiver delivers the next message in line if there is one, also after the
  sender is gone, and the messages in between never exceed the space allocated for a bounded
  channel.
\<close>

theorem spsc_fifo:
  assumes "reachable spsc_start spsc_step S"
  shows "\<exists>buffered. accepted S = received S @ buffered \<and>
     (\<forall>c. bound S = Some c \<longrightarrow> length buffered \<le> c) \<and>
     (rx_alive S \<longrightarrow> (\<exists>S'. spsc_exec (PollRecv cx) S = Inr S' \<and>
        received S' = received S @ take 1 buffered))"
proof -
  from spsc_all.inv_reachable [OF assms] obtain sh where h: "spsc_holds S sh"
    by (auto simp: spsc_inv_def)
  with poll_recv_ok [OF h] spsc_holdsD(2,3) [OF h] show ?thesis
    by (intro exI [of _ "elems (buf sh)"]) (auto simp: fits_def vd_len_def)
qed

text \<open>
  What a send does.  When the receiver is gone it fails and gives the value back; when the channel
  is full \<open>try_send\<close> fails in the same way and \<open>send\<close> waits with the value; otherwise the value
  is accepted at once.
\<close>

theorem spsc_send_results:
  assumes "reachable spsc_start spsc_step S" and "tx_alive S" and "sending S = None"
    and "full \<longleftrightarrow> bound S = Some (length (accepted S) - length (received S))"
  shows "\<exists>S1 S2. spsc_exec (TrySend v) S = Inr S1 \<and> spsc_exec (StartSend v cx) S = Inr S2 \<and>
     (if \<not> rx_alive S then
        results S1 = results S @ [Err (SendError v)] \<and> accepted S1 = accepted S \<and>
        results S2 = results S @ [Err (SendError v)] \<and> accepted S2 = accepted S \<and> sending S2 = None
      else if full then
        results S1 = results S @ [Err (SendError v)] \<and> accepted S1 = accepted S \<and>
        results S2 = results S \<and> accepted S2 = accepted S \<and> sending S2 = Some v \<and> tx_asleep S2 = Some cx
      else
        results S1 = results S @ [Ok ()] \<and> accepted S1 = accepted S @ [v] \<and>
        results S2 = results S @ [Ok ()] \<and> accepted S2 = accepted S @ [v] \<and> sending S2 = None)"
proof -
  from spsc_all.inv_reachable [OF assms(1)] obtain sh where sh: "spsc_holds S sh"
    by (auto simp: spsc_inv_def)
  note h = spsc_holdsD [OF sh]
  have n: "0 < alive S" "alive S = 2 \<longleftrightarrow> rx_alive S" using assms(2) by (auto simp: alive_def)
  have f: "full \<longleftrightarrow> at_capacity sh"
    using assms(4) h(2,3) by (cases "bound S") (auto simp: fits_def at_capacity_def vd_len_def)
  show ?thesis
    using try_send_eq [OF h(1) n(1), of v] send_poll_eq [OF h(1) n(1), of cx v] n(2) assms(3)
    unfolding f
    by (cases "rx_alive S"; cases "at_capacity sh")
      (auto simp: send_start_def after_send_def end_send_def rouse_quiet)
qed

text \<open>C21.
  No lost wake-up and no deadlock.  A receiver that was told to wait and has not been woken since
  has a live sender and nothing to receive; a sender that waits has a live receiver and a full
  channel; so both never wait at once.
\<close>

theorem spsc_no_lost_wakeup:
  assumes "reachable spsc_start spsc_step S"
  shows "(rx_asleep S \<noteq> None \<longrightarrow> tx_alive S \<and> accepted S = received S) \<and>
     (tx_asleep S \<noteq> None \<longrightarrow> rx_alive S \<and> sending S \<noteq> None \<and>
        (\<exists>c. bound S = Some c \<and> length (accepted S) = length (received S) + c)) \<and>
     (rx_asleep S = None \<or> tx_asleep S = None)"
proof -
  from spsc_all.inv_reachable [OF assms] obtain sh where sh: "spsc_holds S sh"
    by (auto simp: spsc_inv_def)
  note h = spsc_holdsD [OF sh]
  have c: "\<exists>c. bound S = Some c \<and> length (elems (buf sh)) = c \<and> 0 < c" if "at_capacity sh"
    using that h(3) by (auto simp: fits_def at_capacity_def vd_len_def split: option.splits)
  show ?thesis
  proof (intro conjI impI)
    assume "tx_asleep S \<noteq> None"
    then have t: "rx_alive S" "sending S \<noteq> None" "at_capacity sh" using h(6) by auto
    then show "rx_alive S" "sending S \<noteq> None" by simp_all
    from c [OF t(3)] h(2) show "\<exists>c. bound S = Some c \<and> length (accepted S) = length (received S) + c"
      by auto
  next
    show "rx_asleep S = None \<or> tx_asleep S = None" using h(5,6) c by force
  qed (use h(2,5) in auto)
qed

end
