(* ===== verification/Spsc_Tests.thy ===== *)
theory Spsc_Tests
  imports Spsc_System
begin

text \<open>
  Witnesses of the channel's properties at concrete runs, the tests of the crate and an example run on the model,
  and what the capacity of a channel of zero-sized messages is.
\<close>

definition spsc_script ::
  "usize \<Rightarrow> ('t spsc_op \<times> ('t spsc_sys \<Rightarrow> bool)) list \<Rightarrow> 't spsc_sys res" where
  "spsc_script cap calls =
     and_then (channel alloc_exact cap) (\<lambda>ch.
     run_script spsc_enabled spsc_exec calls (spsc_sys_of (Some (alloc_exact (unat cap))) ch))"

lemma spsc_script_reachable:
  assumes "spsc_script cap calls = Inr S"
  shows "reachable spsc_start spsc_step S"
proof -
  from assms obtain ch where c: "channel alloc_exact cap = Inr ch"
    "run_script spsc_enabled spsc_exec calls (spsc_sys_of (Some (alloc_exact (unat cap))) ch) = Inr S"
    by (auto simp: spsc_script_def and_then_eq_Inr)
  have "\<forall>n. n \<le> alloc_exact n" by (simp add: alloc_exact_def)
  with c(1) have "spsc_start (spsc_sys_of (Some (alloc_exact (unat cap))) ch)"
    unfolding spsc_start_def by blast
  with run_script_reachable [OF c(2)] show ?thesis by (blast intro: reach_start spsc_call)
qed

theorem spsc_memory_safe_witness:
  "\<exists>S S' :: int spsc_sys. reachable spsc_start spsc_step S \<and> \<not> tx_alive S \<and>
     sp_rc (chan S) \<noteq> None \<and> spsc_exec DropReceiver S = Inr S'"
proof -
  let ?c = "[(TrySend (4 :: int), any), (DropSender, any)]"
  have "passes (spsc_script 1 ?c) (\<lambda>S. \<not> tx_alive S \<and> rx_alive S)" by code_simp
  then obtain S where S: "spsc_script 1 ?c = Inr S" "\<not> tx_alive S" "rx_alive S" by (auto elim: passesE)
  from spsc_memory_safe [OF spsc_script_reachable [OF S(1)], of DropReceiver]
    spsc_script_reachable [OF S(1)] S(2,3)
  show ?thesis by auto
qed

theorem spsc_fifo_witness:
  "\<exists>S S' :: int spsc_sys. reachable spsc_start spsc_step S \<and> received S = [7] \<and>
     spsc_exec (PollRecv 0) S = Inr S' \<and> received S' = [7, 8]"
proof -
  let ?c = "[(TrySend (7 :: int), any), (TrySend 8, any), (PollRecv 0, any), (DropSender, any)]"
  have "passes (spsc_script 2 ?c) (\<lambda>S. rx_alive S \<and> received S = [7] \<and> accepted S = [7, 8])" by code_simp
  then obtain S where S: "spsc_script 2 ?c = Inr S" "rx_alive S" "received S = [7]" "accepted S = [7, 8]"
    by (auto elim: passesE)
  from spsc_fifo [OF spsc_script_reachable [OF S(1)], of 0] spsc_script_reachable [OF S(1)] S(2-4)
  show ?thesis by auto
qed

theorem spsc_send_results_witness:
  "\<exists>S S1 S2 :: int spsc_sys. reachable spsc_start spsc_step S \<and>
     spsc_exec (TrySend 8) S = Inr S1 \<and> results S1 = [Ok (), Err (SendError 8)] \<and>
     spsc_exec (StartSend 8 3) S = Inr S2 \<and> sending S2 = Some 8 \<and> tx_asleep S2 = Some 3"
proof -
  let ?c = "[(TrySend (7 :: int), any)]"
  have "passes (spsc_script 1 ?c) (\<lambda>S. tx_alive S \<and> rx_alive S \<and> sending S = None \<and>
      bound S = Some 1 \<and> accepted S = [7] \<and> received S = [] \<and> results S = [Ok ()])"
    by code_simp
  then obtain S where S: "spsc_script 1 ?c = Inr S" "tx_alive S" "rx_alive S" "sending S = None"
    "bound S = Some 1" "accepted S = [7]" "received S = []" "results S = [Ok ()]"
    by (auto elim: passesE)
  have "True \<longleftrightarrow> bound S = Some (length (accepted S) - length (received S))" using S by simp
  from spsc_send_results [OF spsc_script_reachable [OF S(1)] S(2,4) this, of 8 3]
    spsc_script_reachable [OF S(1)] S(3,8)
  show ?thesis by auto
qed

theorem spsc_no_lost_wakeup_witness:
  "\<exists>S :: int spsc_sys. reachable spsc_start spsc_step S \<and> tx_asleep S = Some 3 \<and>
     rx_alive S \<and> rx_asleep S = None"
proof -
  let ?c = "[(TrySend (7 :: int), any), (StartSend 8 3, any)]"
  have "passes (spsc_script 1 ?c) (\<lambda>S. tx_asleep S = Some 3)" by code_simp
  then obtain S where S: "spsc_script 1 ?c = Inr S" "tx_asleep S = Some 3" by (rule passesE)
  from spsc_no_lost_wakeup [OF spsc_script_reachable [OF S(1)]] spsc_script_reachable [OF S(1)] S(2)
  show ?thesis by auto
qed

section \<open>The tests of the crate\<close>

text \<open>A \<open>Flag\<close> waker is set once it was called.\<close>

definition flag :: "waker \<Rightarrow> 't spsc_sys \<Rightarrow> bool" where
  "flag k S \<longleftrightarrow> k \<in> set (sp_woken (chan S))"

definition recv_updates_changed_waker :: "int spsc_sys res" where
  "recv_updates_changed_waker = spsc_script 1
     [(PollRecv 1, \<lambda>S. rx_asleep S = Some 1),
      (PollRecv 2, \<lambda>S. rx_asleep S = Some 2),
      (TrySend 1, flag 2)]"

definition recv_wakes_blocked_sender_on_pop :: "int spsc_sys res" where
  "recv_wakes_blocked_sender_on_pop = spsc_script 1
     [(TrySend 1, \<lambda>S. results S = [Ok ()]),
      (StartSend 2 5, \<lambda>S. sending S = Some 2),
      (PollRecv 0, \<lambda>S. received S = [1] \<and> flag 5 S)]"

definition test_try_send :: "int spsc_sys res" where
  "test_try_send = spsc_script 3
     [(TrySend 1, \<lambda>S. last (results S) = Ok ()),
      (TrySend 2, \<lambda>S. last (results S) = Ok ()),
      (TrySend 3, \<lambda>S. last (results S) = Ok ()),
      (TrySend 4, \<lambda>S. last (results S) = Err (SendError 4)),
      (PollRecv 0, \<lambda>S. received S = [1]),
      (TrySend 5, \<lambda>S. last (results S) = Ok ()),
      (TrySend 6, \<lambda>S. last (results S) = Err (SendError 6)),
      (DropSender, any),
      (PollRecv 0, any), (PollRecv 0, any), (PollRecv 0, any),
      (PollRecv 0, \<lambda>S. received S = [1, 2, 3, 5])]"

text \<open>The example in the documentation of \<open>try_send\<close>.\<close>

definition try_send_example :: "int spsc_sys res" where
  "try_send_example = spsc_script 3
     [(TrySend 1, \<lambda>S. last (results S) = Ok ()),
      (TrySend 2, \<lambda>S. last (results S) = Ok ()),
      (TrySend 3, \<lambda>S. last (results S) = Ok ()),
      (TrySend 4, \<lambda>S. last (results S) \<noteq> Ok ()),
      (PollRecv 0, \<lambda>S. received S = [1]),
      (TrySend 5, \<lambda>S. last (results S) = Ok ()),
      (TrySend 6, \<lambda>S. last (results S) \<noteq> Ok ()),
      (DropSender, any),
      (PollRecv 0, any), (PollRecv 0, any), (PollRecv 0, any),
      (PollRecv 0, \<lambda>S. tl (received S) = [2, 3, 5] \<and> Option.is_none (rx_asleep S))]"

lemma spsc_tests_pass:
  "\<not> isl recv_updates_changed_waker"
  "\<not> isl recv_wakes_blocked_sender_on_pop"
  "\<not> isl test_try_send"
  "\<not> isl try_send_example"
  by code_simp+

section \<open>Zero-sized messages\<close>

text \<open>Trying to send each value in turn, giving up at the first that is refused.\<close>

fun try_send_all :: "'t list \<Rightarrow> 't spsc \<Rightarrow> 't spsc res" where
  "try_send_all [] ch = Inr ch"
| "try_send_all (v # vs) ch =
     and_then (try_send v ch) (\<lambda>(r, ch).
     case r of Ok _ \<Rightarrow> try_send_all vs ch | Err _ \<Rightarrow> Inl (Panic ''refused''))"

lemma try_send_all_room:
  assumes "bi_owned 2 sh (sp_rc ch)" and "unbounded sh \<or> vd_len (buf sh) + length vs \<le> capacity (buf sh)"
  shows "\<exists>ch'. try_send_all vs ch = Inr ch'"
  using assms
proof (induction vs arbitrary: sh ch)
  case (Cons v vs)
  then have room: "\<not> at_capacity sh" by (auto simp: at_capacity_def)
  let ?sh = "sh\<lparr>buf := vd_push_back v (buf sh)\<rparr>"
  from try_send_eq(2) [OF Cons.prems(1) _ _ room, of v] obtain rc where
    t: "try_send v ch = Inr (Ok (), wake_by_ref (rx sh) (ch\<lparr>sp_rc := rc\<rparr>))" "bi_owned 2 ?sh rc"
    by auto
  have "unbounded ?sh \<or> vd_len (buf ?sh) + length vs \<le> capacity (buf ?sh)"
    using Cons.prems(2) capacity_push [of "buf sh" v] by auto
  with Cons.IH [of ?sh "wake_by_ref (rx sh) (ch\<lparr>sp_rc := rc\<rparr>)"] t show ?case by simp
qed simp

text \<open>C36.
  The capacity of a channel is that of its buffer, which for a zero-sized message type does not
  depend on the capacity asked for: up to \<open>usize::MAX\<close> messages are accepted without blocking,
  whatever \<open>capacity\<close> was given.
\<close>

theorem spsc_zero_sized_not_bounded:
  assumes "channel alloc_zst cap = Inr ch" and "length vs \<le> 2 ^ 64 - 1"
  shows "\<exists>ch'. try_send_all vs ch = Inr ch'"
proof -
  let ?sh = "\<lparr>tx = None, rx = None, buf = vd_with_capacity alloc_zst (unat cap), unbounded = False\<rparr>"
  from assms(1) have "sp_rc ch = bi_rc_new ?sh" by (auto simp: channel_def split: if_splits)
  then have "bi_owned 2 ?sh (sp_rc ch)" by (simp add: rc.make_law)
  from try_send_all_room [OF this] assms(2) show ?thesis
    by (simp add: vd_with_capacity_def vd_len_def alloc_zst_def)
qed

theorem spsc_zero_sized_not_bounded_witness:
  "\<exists>ch ch'. channel alloc_zst 1 = Inr ch \<and> try_send_all [(), (), ()] ch = Inr ch'"
proof -
  obtain ch :: "unit spsc" where c: "channel alloc_zst 1 = Inr ch" by (simp add: channel_def)
  from spsc_zero_sized_not_bounded [OF c, of "[(), (), ()]"] c show ?thesis by auto
qed

end
