(* ===== verification/Spsc_Refinement.thy ===== *)
theory Spsc_Refinement
  imports Spsc_System Call_Refinement
begin

text \<open>
  The single-producer channel against its abstract specification: a conduit is a list of messages
  with a limit, two ends that are open or closed, the message of a sender that waits, and who waits.
  It has no shared cell, no reference count and no registered wakers.  Any sequence of calls gives
  the same replies on the channel and on the conduit, and leaves the same side asleep.
\<close>

section \<open>The specification\<close>

record 't conduit =
  room :: "nat option"
  items :: "'t list"
  open_in :: bool
  open_out :: bool
  on_offer :: "'t option"
  tx_waits :: "waker option"
  rx_waits :: "waker option"

datatype 't spsc_reply =
    Sent "(unit, 't send_error) result poll"
  | Took "'t option poll"
  | Quiet

definition conduit_new :: "nat option \<Rightarrow> 't conduit" where
  "conduit_new r = \<lparr>room = r, items = [], open_in = True, open_out = True, on_offer = None,
     tx_waits = None, rx_waits = None\<rparr>"

definition is_full :: "'t conduit \<Rightarrow> bool" where
  "is_full C \<longleftrightarrow> room C = Some (length (items C))"

text \<open>A message that goes in ends the wait of both sides.\<close>

definition c_put :: "'t \<Rightarrow> 't conduit \<Rightarrow> 't conduit" where
  "c_put v C = C\<lparr>items := items C @ [v], on_offer := None, tx_waits := None, rx_waits := None\<rparr>"

definition c_offer :: "'t \<Rightarrow> waker \<Rightarrow> 't conduit \<Rightarrow> 't spsc_reply \<times> 't conduit" where
  "c_offer v k C =
     (if \<not> open_out C then (Sent (Ready (Err (SendError v))), C\<lparr>on_offer := None, tx_waits := None\<rparr>)
      else if is_full C then (Sent Pending, C\<lparr>on_offer := Some v, tx_waits := Some k\<rparr>)
      else (Sent (Ready (Ok ())), c_put v C))"

definition c_take :: "waker \<Rightarrow> 't conduit \<Rightarrow> 't spsc_reply \<times> 't conduit" where
  "c_take k C =
     (case items C of
        v # vs \<Rightarrow> (Took (Ready (Some v)), C\<lparr>items := vs, tx_waits := None, rx_waits := None\<rparr>)
      | [] \<Rightarrow>
          if open_in C then (Took Pending, C\<lparr>tx_waits := None, rx_waits := Some k\<rparr>)
          else (Took (Ready None), C\<lparr>rx_waits := None\<rparr>))"

text \<open>Closing an end ends every wait; what is left in the conduit goes with the second end.\<close>

definition c_close :: "'t conduit \<Rightarrow> 't conduit" where
  "c_close C = C\<lparr>items := (if open_in C \<and> open_out C then items C else []), tx_waits := None, rx_waits := None\<rparr>"

text \<open>\<open>None\<close>: ownership does not allow the call.\<close>

fun c_call :: "'t spsc_op \<Rightarrow> 't conduit \<Rightarrow> ('t spsc_reply \<times> 't conduit) option" where
  "c_call (TrySend v) C =
     (if \<not> open_in C \<or> \<not> Option.is_none (on_offer C) then None
      else if \<not> open_out C \<or> is_full C then Some (Sent (Ready (Err (SendError v))), C)
      else Some (Sent (Ready (Ok ())), c_put v C))"
| "c_call (StartSend v k) C =
     (if \<not> open_in C \<or> \<not> Option.is_none (on_offer C) then None else Some (c_offer v k C))"
| "c_call (PollSend k) C = (if open_in C then map_option (\<lambda>v. c_offer v k C) (on_offer C) else None)"
| "c_call CancelSend C =
     (if \<not> open_in C \<or> Option.is_none (on_offer C) then None
      else Some (Quiet, C\<lparr>on_offer := None, tx_waits := None\<rparr>))"
| "c_call DropSender C =
     (if \<not> open_in C \<or> \<not> Option.is_none (on_offer C) then None
      else Some (Quiet, (c_close C)\<lparr>open_in := False\<rparr>))"
| "c_call (PollRecv k) C = (if open_out C then Some (c_take k C) else None)"
| "c_call CancelRecv C = (if open_out C then Some (Quiet, C\<lparr>rx_waits := None\<rparr>) else None)"
| "c_call DropReceiver C = (if open_out C then Some (Quiet, (c_close C)\<lparr>open_out := False\<rparr>) else None)"

abbreviation c_run :: "'t spsc_op list \<Rightarrow> 't conduit \<Rightarrow> ('t spsc_reply list \<times> 't conduit) option" where
  "c_run \<equiv> run_calls c_call"

text \<open>The same for the code: what a call gives back to its caller, and the system after it.\<close>

fun spsc_result :: "'t spsc_op \<Rightarrow> 't spsc_sys \<Rightarrow> 't spsc_reply res" where
  "spsc_result (TrySend v) S = and_then (try_send v (chan S)) (\<lambda>(r, _). Inr (Sent (Ready r)))"
| "spsc_result (StartSend v cx) S = and_then (send_start v cx (chan S)) (\<lambda>(r, _, _). Inr (Sent r))"
| "spsc_result (PollSend cx) S = and_then (send_poll cx (sending S) (chan S)) (\<lambda>(r, _, _). Inr (Sent r))"
| "spsc_result (PollRecv cx) S = and_then (recv_poll cx (chan S)) (\<lambda>(r, _). Inr (Took r))"
| "spsc_result CancelSend S = Inr Quiet"
| "spsc_result CancelRecv S = Inr Quiet"
| "spsc_result DropSender S = Inr Quiet"
| "spsc_result DropReceiver S = Inr Quiet"

definition spsc_reply :: "'t spsc_op \<Rightarrow> 't spsc_sys \<Rightarrow> ('t spsc_reply \<times> 't spsc_sys) option" where
  "spsc_reply =
     answer spsc_enabled (\<lambda>op S. and_then (spsc_result op S) (\<lambda>r. and_then (spsc_exec op S) (\<lambda>S. Inr (r, S))))"

abbreviation spsc_run :: "'t spsc_op list \<Rightarrow> 't spsc_sys \<Rightarrow> ('t spsc_reply list \<times> 't spsc_sys) option" where
  "spsc_run \<equiv> run_calls spsc_reply"

lemma spsc_reply_eq:
  "spsc_reply op S =
     (if spsc_enabled op S then
        (case and_then (spsc_result op S) (\<lambda>r. and_then (spsc_exec op S) (\<lambda>S. Inr (r, S))) of
           Inl _ \<Rightarrow> None | Inr rS \<Rightarrow> Some rS)
      else None)"
  by (simp add: spsc_reply_def answer_def)

text \<open>What the channel holds is read from the shared cell, and there is nothing when that is freed.\<close>

definition buffered :: "'t spsc \<Rightarrow> 't list" where
  "buffered ch = (case sp_rc ch of None \<Rightarrow> [] | Some i \<Rightarrow> elems (buf (bi_value i)))"

definition conduit_of :: "'t spsc_sys \<Rightarrow> 't conduit" where
  "conduit_of S = \<lparr>room = bound S, items = buffered (chan S), open_in = tx_alive S, open_out = rx_alive S,
     on_offer = sending S, tx_waits = tx_asleep S, rx_waits = rx_asleep S\<rparr>"

section \<open>Each call\<close>

definition conducts :: "'t spsc_op \<Rightarrow> 't spsc_sys \<Rightarrow> bool" where
  "conducts op S \<longleftrightarrow> map_option (\<lambda>(r, S). (r, conduit_of S)) (spsc_reply op S) = c_call op (conduit_of S)"

lemma conduit_of_simps [simp]:
  "room (conduit_of S) = bound S" "items (conduit_of S) = buffered (chan S)" "open_in (conduit_of S) = tx_alive S"
  "open_out (conduit_of S) = rx_alive S" "on_offer (conduit_of S) = sending S"
  "tx_waits (conduit_of S) = tx_asleep S" "rx_waits (conduit_of S) = rx_asleep S"
  by (simp_all add: conduit_of_def)

lemma buffered_owned:
  "bi_owned n sh (sp_rc ch) \<Longrightarrow> buffered ch = (if n = 0 then [] else elems (buf sh))"
  by (auto simp: bi_owned_def buffered_def split: option.splits)

lemma conducts_disabled: "\<not> spsc_enabled op S \<Longrightarrow> conducts op S"
  by (cases op) (auto simp: conducts_def spsc_reply_eq Option.is_none_def)

lemma holds_full:
  assumes "spsc_holds S sh" and "0 < alive S"
  shows "buffered (chan S) = elems (buf sh)" and "is_full (conduit_of S) \<longleftrightarrow> at_capacity sh"
proof -
  show b: "buffered (chan S) = elems (buf sh)"
    using buffered_owned [OF spsc_holdsD(1) [OF assms(1)]] assms(2) by simp
  with spsc_holdsD(3) [OF assms(1)] show "is_full (conduit_of S) \<longleftrightarrow> at_capacity sh"
    by (cases "bound S") (auto simp: is_full_def fits_def at_capacity_def vd_len_def)
qed

text \<open>A send that goes through, by either way to send.\<close>

lemma put_conduit:
  assumes "spsc_holds S sh" and "0 < alive S"
    and "bi_owned (alive S) (sh\<lparr>buf := vd_push_back v (buf sh)\<rparr>) rc"
  shows "conduit_of (end_send v (Ok ()) (rouse (wake_by_ref (rx sh) ((chan S)\<lparr>sp_rc := rc\<rparr>)) S)) =
    c_put v (conduit_of S)"
proof -
  have "buffered (wake_by_ref (rx sh) ((chan S)\<lparr>sp_rc := rc\<rparr>)) = elems (buf sh) @ [v]"
    using buffered_owned [of "alive S" _ "wake_by_ref (rx sh) ((chan S)\<lparr>sp_rc := rc\<rparr>)"] assms(2,3) by fastforce
  with holds_full(1) [OF assms(1,2)] rouse_rx_asleep [OF assms(1)] show ?thesis
    by (simp add: conduit_of_def c_put_def end_send_def)
qed

lemma offer_conduit:
  assumes "spsc_holds S sh" and "tx_alive S"
  shows "\<exists>r value ch. send_poll cx (Some v) (chan S) = Inr (r, value, ch) \<and>
     c_offer v cx (conduit_of S) = (Sent r, conduit_of (after_send v cx r value (rouse ch S)))"
proof -
  note h = spsc_holdsD [OF assms(1)]
  have n: "0 < alive S" "alive S = 2 \<longleftrightarrow> rx_alive S" using assms(2) by (auto simp: alive_def)
  note full = holds_full [OF assms(1) n(1)]
  have b: "buffered ((chan S)\<lparr>sp_rc := rc\<rparr>) = elems (buf sh')" if "bi_owned (alive S) sh' rc" for sh' rc
    using buffered_owned [of "alive S" sh' "(chan S)\<lparr>sp_rc := rc\<rparr>"] that n(1) by simp
  consider (gone) "\<not> rx_alive S" | (full) "rx_alive S" "at_capacity sh" | (room) "rx_alive S" "\<not> at_capacity sh"
    by blast
  then show ?thesis
  proof cases
    case gone
    with send_poll_eq(1) [OF h(1) n(1), of cx v] n(2) obtain rc where
      r: "send_poll cx (Some v) (chan S) = Inr (Ready (Err (SendError v)), None, (chan S)\<lparr>sp_rc := rc\<rparr>)"
      "bi_owned (alive S) (sh\<lparr>tx := None\<rparr>) rc"
      by blast
    with gone full(1) b [OF r(2)] show ?thesis
      by (simp add: rouse_quiet after_send_def end_send_def c_offer_def conduit_of_def)
  next
    case full
    with send_poll_eq(2) [OF h(1) n(1), of cx v] n(2) obtain rc where
      r: "send_poll cx (Some v) (chan S) = Inr (Pending, Some v, (chan S)\<lparr>sp_rc := rc\<rparr>)"
      "bi_owned (alive S) (sh\<lparr>tx := Some cx\<rparr>) rc"
      by blast
    with full holds_full [OF assms(1) n(1)] b [OF r(2)] show ?thesis
      by (simp add: rouse_quiet after_send_def c_offer_def)
  next
    case room
    with send_poll_eq(3) [OF h(1) n(1), of cx v] n(2) obtain rc where
      r: "send_poll cx (Some v) (chan S) = Inr (Ready (Ok ()), None, wake_by_ref (rx sh) ((chan S)\<lparr>sp_rc := rc\<rparr>))"
      "bi_owned (alive S) (sh\<lparr>buf := vd_push_back v (buf sh)\<rparr>) rc"
      by blast
    with room full(2) put_conduit [OF assms(1) n(1) r(2)] show ?thesis
      by (simp add: after_send_def c_offer_def)
  qed
qed

lemma sends_conduct:
  assumes "spsc_holds S sh" and "tx_alive S"
  shows "sending S = None \<Longrightarrow> conducts (StartSend v cx) S" and "sending S = Some v \<Longrightarrow> conducts (PollSend cx) S"
  using offer_conduit [OF assms, of cx v] assms(2)
  by (auto simp: conducts_def spsc_reply_eq send_start_def)

lemma try_send_conducts:
  assumes "spsc_holds S sh" and "tx_alive S" and "sending S = None"
  shows "conducts (TrySend v) S"
proof -
  note h = spsc_holdsD [OF assms(1)]
  have n: "0 < alive S" "alive S = 2 \<longleftrightarrow> rx_alive S" using assms(2) by (auto simp: alive_def)
  note full = holds_full [OF assms(1) n(1)]
  show ?thesis
  proof (cases "rx_alive S \<and> \<not> at_capacity sh")
    case True
    with try_send_eq(2) [OF h(1) n(1), of v] n(2) obtain rc where
      r: "try_send v (chan S) = Inr (Ok (), wake_by_ref (rx sh) ((chan S)\<lparr>sp_rc := rc\<rparr>))"
      "bi_owned (alive S) (sh\<lparr>buf := vd_push_back v (buf sh)\<rparr>) rc"
      by blast
    with True assms(2,3) full put_conduit [OF assms(1) n(1) r(2)] show ?thesis
      by (simp add: conducts_def spsc_reply_eq)
  next
    case False
    with try_send_eq(1) [OF h(1) n(1), of v] n(2)
    have r: "try_send v (chan S) = Inr (Err (SendError v), chan S)" by blast
    have "tx_asleep S = None" using h(6) assms(3) by auto
    then have "conduit_of (end_send v (Err (SendError v)) S) = conduit_of S"
      using assms(3) by (simp add: conduit_of_def end_send_def)
    with r False assms(2,3) full show ?thesis
      by (auto simp: conducts_def spsc_reply_eq rouse_quiet)
  qed
qed

lemma recv_conducts:
  assumes "spsc_holds S sh" and "rx_alive S"
  shows "conducts (PollRecv cx) S"
proof -
  note h = spsc_holdsD [OF assms(1)]
  have n: "0 < alive S" "alive S = 2 \<longleftrightarrow> tx_alive S" using assms(2) by (auto simp: alive_def)
  note held = holds_full(1) [OF assms(1) n(1)]
  have b: "buffered (wake_by_ref w ((chan S)\<lparr>sp_rc := rc\<rparr>)) = elems (buf sh')" "buffered ((chan S)\<lparr>sp_rc := rc\<rparr>) = elems (buf sh')"
    if "bi_owned (alive S) sh' rc" for w sh' rc
    using buffered_owned [of "alive S" sh' "(chan S)\<lparr>sp_rc := rc\<rparr>"]
      buffered_owned [of "alive S" sh' "wake_by_ref w ((chan S)\<lparr>sp_rc := rc\<rparr>)"] that n(1) by simp_all
  note quiet = rouse_tx_asleep [OF assms(1)]
  show ?thesis
  proof (cases "elems (buf sh)")
    case (Cons v vs)
    with recv_poll_eq(1) [OF h(1) n(1) Cons, of cx] assms(2) held quiet b(1) show ?thesis
      by (auto simp: conducts_def spsc_reply_eq c_take_def)
  next
    case Nil
    show ?thesis
    proof (cases "tx_alive S")
      case True
      with recv_poll_eq(3) [OF h(1) n(1) Nil, of cx] n(2) assms(2) held quiet b(1) Nil show ?thesis
        by (auto simp: conducts_def spsc_reply_eq c_take_def)
    next
      case False
      with recv_poll_eq(2) [OF h(1) n(1) Nil, of cx] n(2) assms(2) held b(2) Nil show ?thesis
        by (auto simp: conducts_def spsc_reply_eq c_take_def rouse_quiet)
    qed
  qed
qed

lemma drop_sender_conducts:
  assumes "spsc_holds S sh" and "tx_alive S" and "sending S = None"
  shows "conducts DropSender S"
proof -
  note h = spsc_holdsD [OF assms(1)]
  have n: "0 < alive S" "alive S - 1 = of_bool (rx_alive S)" using assms(2) by (auto simp: alive_def)
  from sender_drop_eq [OF h(1) n(1)] n(2) obtain rc where
    r: "sender_drop (chan S) = Inr (wake_by_ref (rx sh) ((chan S)\<lparr>sp_rc := rc\<rparr>))"
    "bi_owned (of_bool (rx_alive S)) (sh\<lparr>rx := None\<rparr>) rc"
    by auto
  have "buffered (wake_by_ref (rx sh) ((chan S)\<lparr>sp_rc := rc\<rparr>)) = (if rx_alive S then elems (buf sh) else [])"
    using buffered_owned [of "of_bool (rx_alive S)" "sh\<lparr>rx := None\<rparr>" "wake_by_ref (rx sh) ((chan S)\<lparr>sp_rc := rc\<rparr>)"] r(2)
    by simp
  with r(1) assms(2,3) holds_full(1) [OF assms(1) n(1)] rouse_rx_asleep [OF assms(1)] show ?thesis
    by (simp add: conducts_def spsc_reply_eq) (simp add: conduit_of_def c_close_def)
qed

lemma drop_receiver_conducts:
  assumes "spsc_holds S sh" and "rx_alive S"
  shows "conducts DropReceiver S"
proof -
  note h = spsc_holdsD [OF assms(1)]
  have n: "0 < alive S" "alive S - 1 = of_bool (tx_alive S)" using assms(2) by (auto simp: alive_def)
  from receiver_drop_eq [OF h(1) n(1)] n(2) obtain rc where
    r: "receiver_drop (chan S) = Inr (wake_by_ref (tx sh) ((chan S)\<lparr>sp_rc := rc\<rparr>))"
    "bi_owned (of_bool (tx_alive S)) (sh\<lparr>tx := None\<rparr>) rc"
    by auto
  have "buffered (wake_by_ref (tx sh) ((chan S)\<lparr>sp_rc := rc\<rparr>)) = (if tx_alive S then elems (buf sh) else [])"
    using buffered_owned [of "of_bool (tx_alive S)" "sh\<lparr>tx := None\<rparr>" "wake_by_ref (tx sh) ((chan S)\<lparr>sp_rc := rc\<rparr>)"] r(2)
    by simp
  with r(1) assms(2) holds_full(1) [OF assms(1) n(1)] rouse_tx_asleep [OF assms(1)] show ?thesis
    by (simp add: conducts_def spsc_reply_eq) (simp add: conduit_of_def c_close_def)
qed

lemma call_conducts:
  assumes "spsc_inv S"
  shows "conducts op S"
proof (cases "spsc_enabled op S")
  case True
  from assms obtain sh where sh: "spsc_holds S sh" by (auto simp: spsc_inv_def)
  show ?thesis
  proof (cases op)
    case (PollSend cx)
    with True obtain v where "sending S = Some v" "tx_alive S" by (auto simp: Option.is_none_def)
    with PollSend sends_conduct(2) [OF sh] show ?thesis by simp
  next
    case CancelSend
    with True show ?thesis by (auto simp: conducts_def spsc_reply_eq conduit_of_def)
  next
    case CancelRecv
    with True show ?thesis by (auto simp: conducts_def spsc_reply_eq conduit_of_def)
  qed (use True sends_conduct(1) [OF sh] try_send_conducts [OF sh] recv_conducts [OF sh]
         drop_sender_conducts [OF sh] drop_receiver_conducts [OF sh] in \<open>auto simp: Option.is_none_def\<close>)
qed (rule conducts_disabled)

lemma spsc_reply_inv: "spsc_inv S \<Longrightarrow> spsc_reply op S = Some (r, S') \<Longrightarrow> spsc_inv S'"
  using spsc_exec_ok [of S op] by (auto simp: spsc_reply_eq and_then_eq_Inr split: if_splits sum.splits)

interpretation spsc_calls: call_refinement spsc_reply c_call conduit_of spsc_inv
  by unfold_locales (rule call_conducts [unfolded conducts_def] spsc_reply_inv; assumption)+

lemma conduit_of_start:
  assumes "spsc_start S"
  shows "conduit_of S = conduit_new (bound S)"
  using assms
  by (auto simp: spsc_start_def spsc_sys_of_def conduit_of_def conduit_new_def buffered_def
      channel_def unbounded_channel_def bi_rc_new_def vd_new_def split: if_splits)

text \<open>A run through the specification, by evaluation: a full conduit, a cancelled send, both ends dropped.\<close>

lemma c_run_example:
  "map_option fst (c_run [StartSend 7 1, StartSend 8 1, PollRecv 2, PollSend 1, TrySend 9, PollRecv 2, PollRecv 2,
       DropReceiver, TrySend 5, DropSender] (conduit_new (Some 1) :: nat conduit)) =
     Some [Sent (Ready (Ok ())), Sent Pending, Took (Ready (Some 7)), Sent (Ready (Ok ())),
       Sent (Ready (Err (SendError 9))), Took (Ready (Some 8)), Took Pending, Quiet,
       Sent (Ready (Err (SendError 5))), Quiet]"
  by code_simp

section \<open>Properties\<close>

text \<open>C12.
  The channel is its specification.  For any sequence of calls on a new channel, the code completes
  every call with a reply exactly when the conduit allows the whole sequence, the replies are equal
  one by one, and at the end the two hold the same messages and have the same side asleep.
\<close>

theorem spsc_refines_conduit:
  assumes "spsc_start S"
  shows "map_option (\<lambda>(replies, S). (replies, conduit_of S)) (spsc_run ops S) = c_run ops (conduit_new (bound S))"
  using spsc_calls.runs_refine [OF spsc_start_inv [OF assms], of ops] conduit_of_start [OF assms] by simp

lemma spsc_refines_conduit_witness:
  "map_option (\<lambda>(replies, S). (replies, items (conduit_of S)))
     (spsc_run [TrySend 7, TrySend 8, PollRecv 2, PollRecv 2]
       (spsc_sys_of None (unbounded_channel alloc_exact :: nat spsc))) =
     Some ([Sent (Ready (Ok ())), Sent (Ready (Ok ())), Took (Ready (Some 7)), Took (Ready (Some 8))], [])"
proof -
  have "spsc_start (spsc_sys_of None (unbounded_channel alloc_exact :: nat spsc))"
    unfolding spsc_start_def by (intro exI [of _ alloc_exact]) (simp add: alloc_exact_def)
  from arg_cong [OF spsc_refines_conduit [OF this, of "[TrySend 7, TrySend 8, PollRecv 2, PollRecv 2]"],
      of "map_option (\<lambda>(replies, C). (replies, items C))"]
  show ?thesis
    by (simp add: option.map_comp o_def case_prod_beta del: run_calls.simps)
      (simp add: conduit_new_def spsc_sys_of_def c_put_def c_take_def is_full_def)
qed

end
