(* ===== verification/Spsc_Tasks.thy ===== *)
theory Spsc_Tasks
  imports Spsc_System
begin

text \<open>
  A producing and a consuming task on the executor of the crate's examples: the example of
  \<open>src/lib.rs\<close>, those of \<open>Sender::send\<close> and \<open>Receiver::recv\<close>, and \<open>test_spsc\<close> of
  \<open>tests/spsc.rs\<close>.  A task runs from one suspension to the next; the executor runs any task that
  was woken since it was last run (task 0 produces, task 1 consumes, and each passes its own waker
  to the futures it polls).  \<open>yield_now\<close> wakes the task itself and suspends.
\<close>

section \<open>The tasks\<close>

text \<open>
  \<open>Producing ns\<close>: at the head of the loop, with \<open>ns\<close> still to be sent.  \<open>Sending n value ns\<close>: in
  \<open>tx.send(n).await\<close>, with what the \<open>Send\<close> future still holds.
\<close>

datatype 't producer = Producing "'t list" | Sending 't "'t option" "'t list" | Produced

datatype 't consumer = Consuming "'t list" | Receiving "'t list" | Consumed "'t list"

text \<open>
  The loop of the producer.  \<open>strict\<close> tells \<open>tx.send(n).await?\<close>, which returns at the first error,
  from \<open>let _ = tx.send(n).await\<close>; \<open>yields n\<close> is the condition of the \<open>yield_now\<close> after it.  The end
  of the task drops the sender.  The results are where the task is, whether it woke itself, and
  the channel.
\<close>

fun produce ::
  "bool \<Rightarrow> ('t \<Rightarrow> bool) \<Rightarrow> 't list \<Rightarrow> 't spsc \<Rightarrow> ('t producer \<times> bool \<times> 't spsc) res" where
  "produce strict yields [] ch = and_then (sender_drop ch) (\<lambda>ch. Inr (Produced, False, ch))"
| "produce strict yields (n # ns) ch =
     and_then (send_start n 0 ch) (\<lambda>(r, value, ch).
     case r of
       Pending \<Rightarrow> Inr (Sending n value ns, False, ch)
     | Ready (Err _) \<Rightarrow>
         if strict then and_then (sender_drop ch) (\<lambda>ch. Inr (Produced, False, ch))
         else if yields n then Inr (Producing ns, True, ch)
         else produce strict yields ns ch
     | Ready (Ok _) \<Rightarrow>
         if yields n then Inr (Producing ns, True, ch) else produce strict yields ns ch)"

fun producer_poll ::
  "bool \<Rightarrow> ('t \<Rightarrow> bool) \<Rightarrow> 't producer \<Rightarrow> 't spsc \<Rightarrow> ('t producer \<times> bool \<times> 't spsc) res" where
  "producer_poll strict yields (Producing ns) ch = produce strict yields ns ch"
| "producer_poll strict yields (Sending n value ns) ch =
     and_then (send_poll 0 value ch) (\<lambda>(r, value, ch).
     case r of
       Pending \<Rightarrow> Inr (Sending n value ns, False, ch)
     | Ready (Err _) \<Rightarrow>
         if strict then and_then (sender_drop ch) (\<lambda>ch. Inr (Produced, False, ch))
         else if yields n then Inr (Producing ns, True, ch)
         else produce strict yields ns ch
     | Ready (Ok _) \<Rightarrow>
         if yields n then Inr (Producing ns, True, ch) else produce strict yields ns ch)"
| "producer_poll strict yields Produced ch = Inr (Produced, False, ch)"

function consume ::
  "('t \<Rightarrow> bool) \<Rightarrow> 't list \<Rightarrow> 't spsc \<Rightarrow> ('t consumer \<times> bool \<times> 't spsc) res" where
  "consume yields out ch =
     and_then (recv_poll 1 ch) (\<lambda>(r, ch).
     case r of
       Pending \<Rightarrow> Inr (Receiving out, False, ch)
     | Ready None \<Rightarrow> and_then (receiver_drop ch) (\<lambda>ch. Inr (Consumed out, False, ch))
     | Ready (Some v) \<Rightarrow>
         if yields v then Inr (Consuming (out @ [v]), True, ch) else consume yields (out @ [v]) ch)"
  by pat_completeness auto
termination
  by (relation "measure (\<lambda>(yields, out, ch). backlog ch)") (auto dest: recv_poll_backlog)

declare consume.simps [simp del]

fun consumer_poll ::
  "('t \<Rightarrow> bool) \<Rightarrow> 't consumer \<Rightarrow> 't spsc \<Rightarrow> ('t consumer \<times> bool \<times> 't spsc) res" where
  "consumer_poll yields (Consuming out) ch = consume yields out ch"
| "consumer_poll yields (Receiving out) ch = consume yields out ch"
| "consumer_poll yields (Consumed out) ch = Inr (Consumed out, False, ch)"

section \<open>The executor\<close>

record 't pipeline =
  pipe :: "'t spsc"
  producer :: "'t producer"
  consumer :: "'t consumer"
  awake :: "waker set"

record 't program =
  stops_on_error :: bool
  produce_yields :: "'t \<Rightarrow> bool"
  consume_yields :: "'t \<Rightarrow> bool"

text \<open>The tasks that are awake after task \<open>k\<close> has run, which may have woken itself and others.\<close>

definition awake_after :: "waker \<Rightarrow> bool \<Rightarrow> 't spsc \<Rightarrow> 't spsc \<Rightarrow> waker set \<Rightarrow> waker set" where
  "awake_after k again old new ws =
     ws - {k} \<union> (if again then {k} else {}) \<union> set (drop (length (sp_woken old)) (sp_woken new))"

fun is_produced :: "'t producer \<Rightarrow> bool" where
  "is_produced Produced = True"
| "is_produced _ = False"

fun is_producing :: "'t producer \<Rightarrow> bool" where
  "is_producing (Producing ns) = True"
| "is_producing _ = False"

fun is_consuming :: "'t consumer \<Rightarrow> bool" where
  "is_consuming (Consuming out) = True"
| "is_consuming _ = False"

fun is_consumed :: "'t consumer \<Rightarrow> bool" where
  "is_consumed (Consumed out) = True"
| "is_consumed _ = False"

definition runnable :: "waker \<Rightarrow> 't pipeline \<Rightarrow> bool" where
  "runnable k S \<longleftrightarrow> k \<in> awake S \<and>
     (k = 0 \<and> \<not> is_produced (producer S) \<or> k = 1 \<and> \<not> is_consumed (consumer S))"

definition run_task :: "'t program \<Rightarrow> waker \<Rightarrow> 't pipeline \<Rightarrow> 't pipeline res" where
  "run_task prog k S =
     (if k = 0
      then and_then (producer_poll (stops_on_error prog) (produce_yields prog) (producer S) (pipe S)) (\<lambda>(p, again, ch).
        Inr (S\<lparr>pipe := ch, producer := p, awake := awake_after 0 again (pipe S) ch (awake S)\<rparr>))
      else and_then (consumer_poll (consume_yields prog) (consumer S) (pipe S)) (\<lambda>(c, again, ch).
        Inr (S\<lparr>pipe := ch, consumer := c, awake := awake_after 1 again (pipe S) ch (awake S)\<rparr>)))"

definition spawn :: "'t list \<Rightarrow> 't spsc \<Rightarrow> 't pipeline" where
  "spawn ns ch = \<lparr>pipe = ch, producer = Producing ns, consumer = Consuming [], awake = {0, 1}\<rparr>"

text \<open>The runs that send \<open>ns\<close> over any channel with room for a message.\<close>

definition pipeline_start :: "'t list \<Rightarrow> 't pipeline \<Rightarrow> bool" where
  "pipeline_start ns S \<longleftrightarrow> (\<exists>alloc. (\<forall>n. n \<le> alloc n) \<and>
     (S = spawn ns (unbounded_channel alloc) \<or> (\<exists>cap ch. channel alloc cap = Inr ch \<and> S = spawn ns ch)))"

inductive pipeline_step :: "'t program \<Rightarrow> 't pipeline \<Rightarrow> 't pipeline \<Rightarrow> bool" for prog where
  run: "runnable k S \<Longrightarrow> run_task prog k S = Inr S' \<Longrightarrow> pipeline_step prog S S'"

inductive_cases pipeline_stepE: "pipeline_step prog S S'"

section \<open>What a run of a task does\<close>

fun unsent_by :: "'t producer \<Rightarrow> 't list" where
  "unsent_by (Producing ns) = ns"
| "unsent_by (Sending n value ns) = n # ns"
| "unsent_by Produced = []"

fun collected :: "'t consumer \<Rightarrow> 't list" where
  "collected (Consuming out) = out"
| "collected (Receiving out) = out"
| "collected (Consumed out) = out"

text \<open>How far a task is from its end; what the consumer has to collect is not in its own state.\<close>

fun producer_work :: "'t producer \<Rightarrow> nat" where
  "producer_work (Producing ns) = 2 * length ns + 2"
| "producer_work (Sending n value ns) = 2 * length ns + 3"
| "producer_work Produced = 0"

fun consumer_work :: "nat \<Rightarrow> 't consumer \<Rightarrow> nat" where
  "consumer_work m (Consuming out) = 2 * (m - length out) + 2"
| "consumer_work m (Receiving out) = 2 * (m - length out) + 1"
| "consumer_work m (Consumed out) = 0"

fun well_placed :: "'t producer \<Rightarrow> bool" where
  "well_placed (Sending n value ns) \<longleftrightarrow> value = Some n"
| "well_placed _ \<longleftrightarrow> True"

text \<open>
  The producer, with \<open>ns\<close> left to send, gets to \<open>p\<close>: the messages it got rid of are in the buffer,
  the receiver was woken if there were any or if the sender is gone, and if it waits it does so for
  room with its waker registered.
\<close>

definition sends ::
  "nat option \<Rightarrow> 't shared \<Rightarrow> 't list \<Rightarrow> 't producer \<Rightarrow> bool \<Rightarrow> waker list \<Rightarrow> 't shared \<Rightarrow> bool" where
  "sends b sh ns p again calls sh' \<longleftrightarrow>
     fits b sh' \<and> well_placed p \<and> elems (buf sh') @ unsent_by p = elems (buf sh) @ ns \<and>
     (again \<longleftrightarrow> is_producing p) \<and>
     (\<not> again \<and> \<not> is_produced p \<longrightarrow> at_capacity sh' \<and> tx sh' = Some 0) \<and>
     (tx sh' = tx sh \<or> tx sh' = Some 0) \<and> rx sh' = (if is_produced p then None else rx sh) \<and>
     length (unsent_by p) \<le> length ns \<and> (again \<longrightarrow> length (unsent_by p) < length ns) \<and>
     set calls = (if is_produced p \<or> length (unsent_by p) < length ns then set_option (rx sh) else {})"

lemma sends_push:
  assumes "sends b (sh\<lparr>buf := vd_push_back n (buf sh)\<rparr>) ns p again calls sh'"
  shows "sends b sh (n # ns) p again ((case rx sh of None \<Rightarrow> [] | Some k \<Rightarrow> [k]) @ calls) sh'"
  using assms by (cases "rx sh") (auto simp: sends_def)

lemma sends_yield:
  assumes "fits b sh" and "\<not> at_capacity sh"
  shows "sends b sh (n # ns) (Producing ns) True (case rx sh of None \<Rightarrow> [] | Some k \<Rightarrow> [k])
     (sh\<lparr>buf := vd_push_back n (buf sh)\<rparr>)"
  using fits_push [OF assms(2,1)] by (auto simp: sends_def split: option.split)

lemma sends_finish:
  assumes "fits b sh"
  shows "sends b sh [] Produced False (case rx sh of None \<Rightarrow> [] | Some k \<Rightarrow> [k]) (sh\<lparr>rx := None\<rparr>)"
  using assms by (auto simp: sends_def split: option.split)

lemma sends_wait:
  assumes "fits b sh" and "at_capacity sh"
  shows "sends b sh (n # ns) (Sending n (Some n) ns) False [] (sh\<lparr>tx := Some 0\<rparr>)"
  using assms by (simp add: sends_def at_capacity_def)

text \<open>A run of the producer, as its result.\<close>

definition produces ::
  "nat option \<Rightarrow> 't spsc \<Rightarrow> 't shared \<Rightarrow> 't list \<Rightarrow> ('t producer \<times> bool \<times> 't spsc) res \<Rightarrow> bool" where
  "produces b ch sh ns res \<longleftrightarrow> (\<exists>p again ch' calls sh'.
     res = Inr (p, again, ch') \<and> sp_woken ch' = sp_woken ch @ calls \<and>
     bi_owned (if is_produced p then 1 else 2) sh' (sp_rc ch') \<and> sends b sh ns p again calls sh')"

lemma produces_push:
  assumes "produces b (wake_by_ref (rx sh) (ch\<lparr>sp_rc := rc\<rparr>)) (sh\<lparr>buf := vd_push_back n (buf sh)\<rparr>) ns res"
  shows "produces b ch sh (n # ns) res"
  using assms sends_push unfolding produces_def by fastforce

lemma produce_finishes:
  assumes "bi_owned 2 sh (sp_rc ch)" and "fits b sh"
  shows "produces b ch sh [] (and_then (sender_drop ch) (\<lambda>ch. Inr (Produced, False, ch)))"
proof -
  from sender_drop_eq [OF assms(1)] obtain rc where
    d: "sender_drop ch = Inr (wake_by_ref (rx sh) (ch\<lparr>sp_rc := rc\<rparr>))" "bi_owned 1 (sh\<lparr>rx := None\<rparr>) rc"
    by auto
  with sends_finish [OF assms(2)] show ?thesis by (fastforce simp: produces_def)
qed

lemma send_produces:
  assumes "bi_owned 2 sh (sp_rc ch)" and "fits b sh"
    and "\<And>rc. bi_owned 2 (sh\<lparr>buf := vd_push_back n (buf sh)\<rparr>) rc \<Longrightarrow> fits b (sh\<lparr>buf := vd_push_back n (buf sh)\<rparr>) \<Longrightarrow>
       produces b (wake_by_ref (rx sh) (ch\<lparr>sp_rc := rc\<rparr>)) (sh\<lparr>buf := vd_push_back n (buf sh)\<rparr>) ns
         (produce strict yields ns (wake_by_ref (rx sh) (ch\<lparr>sp_rc := rc\<rparr>)))"
  shows "produces b ch sh (n # ns) (producer_poll strict yields (Sending n (Some n) ns) ch)"
proof (cases "at_capacity sh")
  case True
  from send_poll_eq(2) [OF assms(1) _ _ True, of 0 n] obtain rc where
    r: "send_poll 0 (Some n) ch = Inr (Pending, Some n, ch\<lparr>sp_rc := rc\<rparr>)" "bi_owned 2 (sh\<lparr>tx := Some 0\<rparr>) rc"
    by auto
  with sends_wait [OF assms(2) True, of n ns] show ?thesis by (fastforce simp: produces_def)
next
  case False
  let ?sh = "sh\<lparr>buf := vd_push_back n (buf sh)\<rparr>"
  from send_poll_eq(3) [OF assms(1) _ _ False, of 0 n] obtain rc where
    r: "send_poll 0 (Some n) ch = Inr (Ready (Ok ()), None, wake_by_ref (rx sh) (ch\<lparr>sp_rc := rc\<rparr>))"
    "bi_owned 2 ?sh rc"
    by auto
  note f = fits_push [OF False assms(2), of n]
  show ?thesis
  proof (cases "yields n")
    case True
    with r sends_yield [OF assms(2) False, of n ns] show ?thesis by (fastforce simp: produces_def)
  next
    case False
    with r produces_push [OF assms(3) [OF r(2) f]] show ?thesis by simp
  qed
qed

lemma produce_produces:
  assumes "bi_owned 2 sh (sp_rc ch)" and "fits b sh"
  shows "produces b ch sh ns (produce strict yields ns ch)"
  using assms
proof (induction ns arbitrary: sh ch)
  case Nil
  with produce_finishes show ?case by simp
next
  case (Cons n ns)
  have "produces b ch sh (n # ns) (producer_poll strict yields (Sending n (Some n) ns) ch)"
    by (rule send_produces [OF Cons.prems]) (simp add: Cons.IH)
  then show ?case by (simp add: send_start_def)
qed

lemma poll_produces:
  assumes "bi_owned 2 sh (sp_rc ch)" and "fits b sh" and "well_placed p" and "\<not> is_produced p"
  shows "produces b ch sh (unsent_by p) (producer_poll strict yields p ch)"
proof (cases p)
  case (Producing ns)
  with produce_produces [OF assms(1,2)] show ?thesis by simp
next
  case (Sending n w ns)
  with assms(3) have "p = Sending n (Some n) ns" by simp
  then show ?thesis
    using send_produces [OF assms(1,2) produce_produces] by simp
qed (use assms(4) in simp)

text \<open>
  The consumer, which has collected \<open>out\<close>, gets to \<open>c\<close>: what it collected comes from the front of
  the buffer, the sender was woken, and if it waits the buffer is empty, the sender is there and the
  consumer's waker is registered; it only ends when the sender is gone and the buffer is empty.
\<close>

definition takes ::
  "nat option \<Rightarrow> bool \<Rightarrow> 't shared \<Rightarrow> 't list \<Rightarrow> 't consumer \<Rightarrow> bool \<Rightarrow> waker list \<Rightarrow> 't shared \<Rightarrow> bool" where
  "takes b present sh out c again calls sh' \<longleftrightarrow>
     fits b sh' \<and> collected c @ elems (buf sh') = out @ elems (buf sh) \<and>
     (again \<longleftrightarrow> is_consuming c) \<and>
     (\<not> again \<and> \<not> is_consumed c \<longrightarrow> elems (buf sh') = [] \<and> present \<and> rx sh' = Some 1) \<and>
     (is_consumed c \<longrightarrow> \<not> present \<and> elems (buf sh') = []) \<and>
     tx sh' = (if is_consumed c then None else tx sh) \<and> rx sh' \<in> {None, Some 1, rx sh} \<and>
     set calls = set_option (tx sh) \<and> length out \<le> length (collected c) \<and>
     (again \<longrightarrow> length out < length (collected c))"

definition consumes ::
  "nat option \<Rightarrow> bool \<Rightarrow> 't spsc \<Rightarrow> 't shared \<Rightarrow> 't list \<Rightarrow> ('t consumer \<times> bool \<times> 't spsc) res \<Rightarrow> bool" where
  "consumes b present ch sh out res \<longleftrightarrow> (\<exists>c again ch' calls sh'.
     res = Inr (c, again, ch') \<and> sp_woken ch' = sp_woken ch @ calls \<and>
     bi_owned (of_bool present + of_bool (\<not> is_consumed c)) sh' (sp_rc ch') \<and>
     takes b present sh out c again calls sh')"

lemma takes_pop:
  assumes "takes b present (sh\<lparr>buf := (buf sh)\<lparr>elems := vs\<rparr>\<rparr>) (out @ [v]) c again calls sh'"
    and "elems (buf sh) = v # vs"
  shows "takes b present sh out c again ((case tx sh of None \<Rightarrow> [] | Some k \<Rightarrow> [k]) @ calls) sh'"
proof -
  have "set ((case tx sh of None \<Rightarrow> [] | Some k \<Rightarrow> [k]) @ calls) = set_option (tx sh)"
    using assms(1) by (cases "tx sh") (simp_all add: takes_def)
  with assms show ?thesis unfolding takes_def by (elim conjE, intro conjI) (simp_all, linarith?)
qed

lemma consumesI:
  assumes "res = Inr (c, again, ch')" and "sp_woken ch' = sp_woken ch @ calls"
    and "bi_owned (of_bool present + of_bool (\<not> is_consumed c)) sh' (sp_rc ch')"
    and "takes b present sh out c again calls sh'"
  shows "consumes b present ch sh out res"
  using assms unfolding consumes_def by blast

lemma takes_yield:
  assumes "fits b sh" and "elems (buf sh) = v # vs"
  shows "takes b present sh out (Consuming (out @ [v])) True (case tx sh of None \<Rightarrow> [] | Some k \<Rightarrow> [k])
     (sh\<lparr>buf := (buf sh)\<lparr>elems := vs\<rparr>\<rparr>)"
  using assms fits_pop [OF assms(2,1)] by (auto simp: takes_def split: option.split)

lemma takes_wait:
  assumes "fits b sh" and "elems (buf sh) = []"
  shows "takes b True sh out (Receiving out) False (case tx sh of None \<Rightarrow> [] | Some k \<Rightarrow> [k]) (sh\<lparr>rx := Some 1\<rparr>)"
  using assms by (auto simp: takes_def split: option.split)

lemma takes_end:
  assumes "fits b sh" and "elems (buf sh) = []"
  shows "takes b False sh out (Consumed out) False (case tx sh of None \<Rightarrow> [] | Some k \<Rightarrow> [k])
     (sh\<lparr>rx := None, tx := None\<rparr>)"
  using assms by (auto simp: takes_def split: option.split)

lemma consume_nothing:
  assumes "bi_owned (of_bool present + 1) sh (sp_rc ch)" and "fits b sh" and "elems (buf sh) = []"
  shows "consumes b present ch sh out (consume yields out ch)"
proof -
  show ?thesis
  proof (cases present)
    case True
    with recv_poll_eq(3) [OF assms(1) _ assms(3), of 1] obtain rc where
      r: "recv_poll 1 ch = Inr (Pending, wake_by_ref (tx sh) (ch\<lparr>sp_rc := rc\<rparr>))" "bi_owned 2 (sh\<lparr>rx := Some 1\<rparr>) rc"
      by (auto simp: numeral_2_eq_2)
    show ?thesis
      by (rule consumesI [where sh' = "sh\<lparr>rx := Some 1\<rparr>" and ch' = "wake_by_ref (tx sh) (ch\<lparr>sp_rc := rc\<rparr>)" and calls = "case tx sh of None \<Rightarrow> [] | Some k \<Rightarrow> [k]"])
        (use True r takes_wait [OF assms(2,3), of out] in
          \<open>simp_all add: consume.simps [of yields out ch] numeral_2_eq_2\<close>)
  next
    case False
    with recv_poll_eq(2) [OF assms(1) _ assms(3), of 1] obtain rc where
      r: "recv_poll 1 ch = Inr (Ready None, ch\<lparr>sp_rc := rc\<rparr>)" "bi_owned 1 (sh\<lparr>rx := None\<rparr>) rc"
      by auto
    from receiver_drop_eq [of 1 "sh\<lparr>rx := None\<rparr>" "ch\<lparr>sp_rc := rc\<rparr>"] r(2) obtain rc' where
      d: "receiver_drop (ch\<lparr>sp_rc := rc\<rparr>) = Inr (wake_by_ref (tx sh) (ch\<lparr>sp_rc := rc'\<rparr>))"
      "bi_owned 0 (sh\<lparr>rx := None, tx := None\<rparr>) rc'"
      by auto
    with r(1) False takes_end [OF assms(2,3), of out] show ?thesis
      by (intro consumesI [where sh' = "sh\<lparr>rx := None, tx := None\<rparr>" and ch' = "wake_by_ref (tx sh) (ch\<lparr>sp_rc := rc'\<rparr>)" and
            calls = "case tx sh of None \<Rightarrow> [] | Some k \<Rightarrow> [k]"])
        (simp_all add: consume.simps [of yields out ch])
  qed
qed

lemma consume_consumes:
  assumes "bi_owned (of_bool present + 1) sh (sp_rc ch)" and "fits b sh"
  shows "consumes b present ch sh out (consume yields out ch)"
  using assms
proof (induction "elems (buf sh)" arbitrary: out sh ch)
  case (Cons v vs)
  note e = Cons.hyps(2) [symmetric]
  let ?sh = "sh\<lparr>buf := (buf sh)\<lparr>elems := vs\<rparr>\<rparr>"
  from recv_poll_eq(1) [OF Cons.prems(1) _ e, of 1] obtain rc where
    r: "recv_poll 1 ch = Inr (Ready (Some v), wake_by_ref (tx sh) (ch\<lparr>sp_rc := rc\<rparr>))"
    "bi_owned (of_bool present + 1) ?sh rc"
    by auto
  show ?case
  proof (cases "yields v")
    case True
    with r takes_yield [OF Cons.prems(2) e, of present out] show ?thesis
      by (intro consumesI [where sh' = ?sh and ch' = "wake_by_ref (tx sh) (ch\<lparr>sp_rc := rc\<rparr>)" and calls = "case tx sh of None \<Rightarrow> [] | Some k \<Rightarrow> [k]"])
        (simp_all add: consume.simps [of yields out ch])
  next
    case False
    have "consumes b present (wake_by_ref (tx sh) (ch\<lparr>sp_rc := rc\<rparr>)) ?sh (out @ [v])
        (consume yields (out @ [v]) (wake_by_ref (tx sh) (ch\<lparr>sp_rc := rc\<rparr>)))"
      by (rule Cons.hyps(1)) (use r(2) fits_pop [OF e Cons.prems(2)] in simp_all)
    then have "consumes b present ch sh out (consume yields (out @ [v]) (wake_by_ref (tx sh) (ch\<lparr>sp_rc := rc\<rparr>)))"
      using takes_pop [OF _ e] unfolding consumes_def by fastforce
    with r(1) False show ?thesis by (simp add: consume.simps [of yields out ch])
  qed
next
  case Nil
  with consume_nothing show ?case by metis
qed

lemma poll_consumes:
  assumes "bi_owned (of_bool present + 1) sh (sp_rc ch)" and "fits b sh" and "\<not> is_consumed c"
  shows "consumes b present ch sh (collected c) (consumer_poll yields c ch)"
  using consume_consumes [OF assms(1,2)] assms(3) by (cases c) simp_all

section \<open>The invariant of the executor\<close>

definition pipe_owners :: "'t pipeline \<Rightarrow> nat" where
  "pipe_owners S = of_bool (\<not> is_produced (producer S)) + of_bool (\<not> is_consumed (consumer S))"

text \<open>
  Every message is collected, buffered or unsent, in that order; a task that is not awake waits
  for something that has not happened, and its waker is registered for it.
\<close>

definition pipe_holds :: "nat option \<Rightarrow> 't list \<Rightarrow> 't pipeline \<Rightarrow> 't shared \<Rightarrow> bool" where
  "pipe_holds b ns S sh \<longleftrightarrow>
     bi_owned (pipe_owners S) sh (sp_rc (pipe S)) \<and> fits b sh \<and> well_placed (producer S) \<and>
     collected (consumer S) @ elems (buf sh) @ unsent_by (producer S) = ns \<and>
     tx sh \<in> {None, Some 0} \<and> rx sh \<in> {None, Some 1} \<and>
     (is_consumed (consumer S) \<longrightarrow> is_produced (producer S) \<and> elems (buf sh) = []) \<and>
     (0 \<notin> awake S \<and> \<not> is_produced (producer S) \<longrightarrow> at_capacity sh \<and> tx sh = Some 0) \<and>
     (1 \<notin> awake S \<and> \<not> is_consumed (consumer S) \<longrightarrow>
        elems (buf sh) = [] \<and> \<not> is_produced (producer S) \<and> rx sh = Some 1)"

definition pipe_inv :: "'t list \<Rightarrow> 't pipeline \<Rightarrow> bool" where
  "pipe_inv ns S \<longleftrightarrow> (\<exists>b sh. pipe_holds b ns S sh)"

definition pipe_done :: "'t pipeline \<Rightarrow> bool" where
  "pipe_done S \<longleftrightarrow> is_produced (producer S) \<and> is_consumed (consumer S)"

text \<open>Messages weigh more than wake-ups, and the consumer's wake-up more than the producer's.\<close>

definition pipe_work :: "'t list \<Rightarrow> 't pipeline \<Rightarrow> nat" where
  "pipe_work ns S = 4 * (producer_work (producer S) + consumer_work (length ns) (consumer S)) +
     2 * of_bool (1 \<in> awake S) + of_bool (0 \<in> awake S)"

lemma spawn_holds:
  assumes "sp_rc ch = bi_rc_new sh" and "fits b sh" and "elems (buf sh) = []" and "tx sh = None" and "rx sh = None"
  shows "pipe_inv ns (spawn ns ch)"
proof -
  have "pipe_holds b ns (spawn ns ch) sh"
    using assms rc.make_law [of sh] by (simp add: pipe_holds_def pipe_owners_def spawn_def numeral_2_eq_2)
  then show ?thesis by (auto simp: pipe_inv_def)
qed

lemma pipe_start_inv:
  assumes "pipeline_start ns S"
  shows "pipe_inv ns S"
proof -
  from assms obtain alloc where alloc: "\<And>n. n \<le> alloc n" and
    S: "S = spawn ns (unbounded_channel alloc) \<or> (\<exists>cap ch. channel alloc cap = Inr ch \<and> S = spawn ns ch)"
    by (auto simp: pipeline_start_def)
  from S show ?thesis
  proof (elim disjE exE conjE)
    assume "S = spawn ns (unbounded_channel alloc)"
    then show ?thesis
      using spawn_holds [of "unbounded_channel alloc" "\<lparr>tx = None, rx = None, buf = vd_new alloc, unbounded = True\<rparr>" None ns]
      by (simp add: unbounded_channel_def fits_def vd_new_def)
  next
    fix cap ch assume c: "channel alloc cap = Inr ch" "S = spawn ns ch"
    let ?sh = "\<lparr>tx = None, rx = None, buf = vd_with_capacity alloc (unat cap), unbounded = False\<rparr>"
    from c(1) have "0 < cap" "sp_rc ch = bi_rc_new ?sh" by (auto simp: channel_def split: if_splits)
    moreover from this(1) have "0 < unat cap" by (simp add: word_less_nat_alt)
    then have "0 < alloc (unat cap)" using alloc [of "unat cap"] by linarith
    ultimately show ?thesis
      using spawn_holds [of ch ?sh "Some (alloc (unat cap))" ns] c(2) by (simp add: fits_def vd_len_def)
  qed
qed

lemma producer_work_less:
  assumes "\<not> is_produced p" and "length (unsent_by q) \<le> length (unsent_by p)" and "again \<longleftrightarrow> is_producing q"
    and "again \<longrightarrow> length (unsent_by q) < length (unsent_by p)"
  shows "producer_work q < producer_work p \<or>
     producer_work q = producer_work p \<and> \<not> again \<and> \<not> is_produced q \<and> length (unsent_by q) = length (unsent_by p)"
  using assms by (cases p; cases q) auto

lemma consumer_work_less:
  assumes "\<not> is_consumed c" and "length (collected c) \<le> length (collected d)" and "again \<longleftrightarrow> is_consuming d"
    and "again \<longrightarrow> length (collected c) < length (collected d)" and "length (collected d) \<le> m"
  shows "consumer_work m d < consumer_work m c \<or> consumer_work m d = consumer_work m c \<and> \<not> again"
  using assms by (cases c; cases d) auto

lemma awake_after_eq:
  assumes "sp_woken new = sp_woken old @ calls"
  shows "awake_after k again old new ws = ws - {k} \<union> (if again then {k} else {}) \<union> set calls"
  using assms by (simp add: awake_after_def)

text \<open>A producer that did not wake the consumer, which waits, neither sent a message nor ended.\<close>

lemma sends_leaves_asleep:
  assumes "sends b sh (unsent_by q) p again calls sh'"
    and "elems (buf sh) = []" and "rx sh = Some k" and "k \<notin> set calls"
  shows "elems (buf sh') = [] \<and> \<not> is_produced p \<and> rx sh' = Some k"
proof -
  note e = assms(1) [unfolded sends_def]
  from e have "set calls = (if is_produced p \<or> length (unsent_by p) < length (unsent_by q)
      then set_option (rx sh) else {})" by blast
  with assms(3,4) have "\<not> (is_produced p \<or> length (unsent_by p) < length (unsent_by q))"
    by (auto split: if_splits)
  moreover from e assms(2) have "elems (buf sh') @ unsent_by p = unsent_by q" by simp
  from arg_cong [OF this, of length] have "length (elems (buf sh')) + length (unsent_by p) = length (unsent_by q)"
    by simp
  with calculation have "length (elems (buf sh')) = 0" by linarith
  then have "elems (buf sh') = []" by simp
  moreover have "rx sh' = (if is_produced p then None else rx sh)" using e by blast
  ultimately show ?thesis using assms(3) by simp
qed

lemma producer_runs:
  assumes "pipe_holds b ns S sh" and "runnable 0 S"
  shows "\<exists>S'. run_task prog 0 S = Inr S' \<and> pipe_inv ns S' \<and> pipe_work ns S' < pipe_work ns S"
proof -
  from assms(2) have a: "0 \<in> awake S" "\<not> is_produced (producer S)" by (auto simp: runnable_def)
  have h: "bi_owned 2 sh (sp_rc (pipe S))" "fits b sh" "well_placed (producer S)" "\<not> is_consumed (consumer S)"
    "collected (consumer S) @ elems (buf sh) @ unsent_by (producer S) = ns" "tx sh \<in> {None, Some 0}"
    "rx sh \<in> {None, Some 1}" "1 \<notin> awake S \<longrightarrow> elems (buf sh) = [] \<and> rx sh = Some 1"
    using assms(1) a by (auto simp: pipe_holds_def pipe_owners_def numeral_2_eq_2)
  from poll_produces [OF h(1-3) a(2), of "stops_on_error prog" "produce_yields prog"]
  obtain p again ch calls sh' where
    r: "producer_poll (stops_on_error prog) (produce_yields prog) (producer S) (pipe S) = Inr (p, again, ch)"
    "sp_woken ch = sp_woken (pipe S) @ calls" "bi_owned (if is_produced p then 1 else 2) sh' (sp_rc ch)"
    and e: "sends b sh (unsent_by (producer S)) p again calls sh'"
    by (auto simp: produces_def)
  note e' = e [unfolded sends_def]
  obtain T where T: "T = S\<lparr>pipe := ch, producer := p,
      awake := awake S - {0} \<union> (if again then {0} else {}) \<union> set calls\<rparr>" by blast
  have run: "run_task prog 0 S = Inr T"
    using r(1) by (simp add: run_task_def T awake_after_eq [OF r(2)])
  have c: "set calls \<subseteq> {1}" using e' h(7) by (auto split: if_splits)
  have "elems (buf sh') = [] \<and> \<not> is_produced p \<and> rx sh' = Some 1" if "1 \<notin> awake T"
    using that h(8) by (intro sends_leaves_asleep [OF e]) (auto simp: T)
  moreover have "0 \<notin> awake T \<and> \<not> is_produced p \<longrightarrow> at_capacity sh' \<and> tx sh' = Some 0"
    using e' by (simp add: T)
  moreover have "tx sh' \<in> {None, Some 0}" "rx sh' \<in> {None, Some 1}" using e' h(6,7) by auto
  moreover have "collected (consumer S) @ elems (buf sh') @ unsent_by p = ns" using e' h(5) by simp
  moreover have "fits b sh'" "well_placed p" using e' by blast+
  moreover have "bi_owned (pipe_owners T) sh' (sp_rc ch)" using r(3) h(4)
    by (cases "is_produced p") (simp_all add: pipe_owners_def T numeral_2_eq_2)
  ultimately have "pipe_holds b ns T sh'"
    using h(4) unfolding pipe_holds_def by (simp add: T)
  moreover have "pipe_work ns T < pipe_work ns S"
  proof -
    let ?w = "producer_work p" and ?v = "producer_work (producer S)"
    have "?w < ?v \<or> ?w = ?v \<and> \<not> again \<and> calls = []"
      using producer_work_less [OF a(2), of p again] e' by auto
    then show ?thesis using c a(1) by (auto simp: pipe_work_def T)
  qed
  ultimately show ?thesis using run by (auto simp: pipe_inv_def)
qed

lemma consumer_runs:
  assumes "pipe_holds b ns S sh" and "runnable 1 S"
  shows "\<exists>S'. run_task prog 1 S = Inr S' \<and> pipe_inv ns S' \<and> pipe_work ns S' < pipe_work ns S"
proof -
  from assms(2) have a: "1 \<in> awake S" "\<not> is_consumed (consumer S)" by (auto simp: runnable_def)
  let ?out = "collected (consumer S)" and ?here = "\<not> is_produced (producer S)"
  have h: "bi_owned (of_bool ?here + 1) sh (sp_rc (pipe S))" "fits b sh" "well_placed (producer S)"
    "?out @ elems (buf sh) @ unsent_by (producer S) = ns" "tx sh \<in> {None, Some 0}" "rx sh \<in> {None, Some 1}"
    "0 \<notin> awake S \<longrightarrow> ?here \<longrightarrow> tx sh = Some 0"
    using assms(1) a by (auto simp: pipe_holds_def pipe_owners_def)
  from poll_consumes [OF h(1,2) a(2), of "consume_yields prog"]
  obtain c again ch calls sh' where
    r: "consumer_poll (consume_yields prog) (consumer S) (pipe S) = Inr (c, again, ch)"
    "sp_woken ch = sp_woken (pipe S) @ calls" "bi_owned (of_bool ?here + of_bool (\<not> is_consumed c)) sh' (sp_rc ch)"
    and e: "takes b ?here sh ?out c again calls sh'"
    by (auto simp: consumes_def)
  note e' = e [unfolded takes_def]
  obtain T where T: "T = S\<lparr>pipe := ch, consumer := c,
      awake := awake S - {1} \<union> (if again then {1} else {}) \<union> set calls\<rparr>" by blast
  have run: "run_task prog 1 S = Inr T"
    using r(1) by (simp add: run_task_def T awake_after_eq [OF r(2)])
  have sum: "collected c @ elems (buf sh') @ unsent_by (producer S) = ns"
    using e' h(4) by (metis append.assoc)
  have calls: "set calls = set_option (tx sh)" "set calls \<subseteq> {0}" using e' h(5) by auto
  have "\<not> (0 \<notin> awake T \<and> ?here)" using h(7) calls(1) by (auto simp: T)
  moreover have "1 \<notin> awake T \<longrightarrow> \<not> again" by (simp add: T)
  moreover have "tx sh' \<in> {None, Some 0}" "rx sh' \<in> {None, Some 1}" using e' h(5,6) by auto
  ultimately have "pipe_holds b ns T sh'"
    using r(3) e' h(3) sum by (simp add: pipe_holds_def pipe_owners_def T)
  moreover have "pipe_work ns T < pipe_work ns S"
  proof -
    let ?w = "consumer_work (length ns) c" and ?v = "consumer_work (length ns) (consumer S)"
    have "length (collected c) \<le> length ns" using arg_cong [OF sum, of length] by simp
    with consumer_work_less [OF a(2), of c again "length ns"] e' have "?w < ?v \<or> ?w = ?v \<and> \<not> again" by blast
    then show ?thesis using calls(2) a(1) by (auto simp: pipe_work_def T)
  qed
  ultimately show ?thesis using run by (auto simp: pipe_inv_def)
qed

lemma pipe_can_run:
  assumes "pipe_holds b ns S sh" and "\<not> pipe_done S"
  shows "\<exists>k. runnable k S"
proof -
  have h: "is_consumed (consumer S) \<longrightarrow> is_produced (producer S)"
    "0 \<notin> awake S \<and> \<not> is_produced (producer S) \<longrightarrow> at_capacity sh" "fits b sh"
    "1 \<notin> awake S \<and> \<not> is_consumed (consumer S) \<longrightarrow> elems (buf sh) = [] \<and> \<not> is_produced (producer S)"
    using assms(1) unfolding pipe_holds_def by blast+
  have "at_capacity sh \<longrightarrow> elems (buf sh) \<noteq> []"
    using h(3) by (auto simp: fits_def at_capacity_def vd_len_def split: option.splits)
  with h assms(2) have "runnable 0 S \<or> runnable 1 S" unfolding runnable_def pipe_done_def by blast
  then show ?thesis by blast
qed

lemma run_task_ok:
  assumes "pipe_inv ns S" and "runnable k S"
  shows "\<exists>S'. run_task prog k S = Inr S' \<and> pipe_inv ns S' \<and> pipe_work ns S' < pipe_work ns S"
proof -
  from assms(1) obtain b sh where sh: "pipe_holds b ns S sh" by (auto simp: pipe_inv_def)
  from assms(2) have "k = 0 \<or> k = 1" by (auto simp: runnable_def)
  then show ?thesis using producer_runs [OF sh] consumer_runs [OF sh] assms(2) by blast
qed

lemma pipeline_step_ok:
  assumes "pipeline_step prog S T" and "pipe_inv ns S"
  shows "pipe_inv ns T \<and> pipe_work ns T < pipe_work ns S"
  using assms(1)
proof cases
  case (run k)
  from run_task_ok [OF assms(2) run(1), of prog] run(2) show ?thesis by auto
qed

interpretation pipe: bounded_runs "pipeline_start ns" "pipeline_step prog" "pipe_inv ns" pipe_done "pipe_work ns"
  for ns and prog
proof unfold_locales
  fix S
  assume S: "pipe_inv ns S" "\<not> pipe_done S"
  from S(1) obtain b sh where "pipe_holds b ns S sh" by (auto simp: pipe_inv_def)
  from pipe_can_run [OF this S(2)] obtain k where "runnable k S" by blast
  with run_task_ok [OF S(1) this] show "\<exists>T. pipeline_step prog S T" by (blast intro: run)
qed (use pipe_start_inv pipeline_step_ok in blast)+

section \<open>Every schedule delivers\<close>

lemma pipe_done_collected:
  assumes "pipe_inv ns S" and "pipe_done S"
  shows "consumer S = Consumed ns \<and> sp_rc (pipe S) = None"
proof -
  from assms obtain b sh where "pipe_holds b ns S sh" by (auto simp: pipe_inv_def)
  with assms(2) show ?thesis
    by (cases "consumer S"; cases "producer S")
      (auto simp: pipe_holds_def pipe_done_def pipe_owners_def bi_owned_def split: option.splits)
qed

text \<open>C6.
  The pipeline of the crate's examples and tests always ends and delivers everything.  However the
  executor chooses among the tasks that are awake, no task faults, there is no deadlock, no run has
  more than \<open>16 * n + 19\<close> polls for \<open>n\<close> messages, and a run that cannot go on has collected
  exactly the messages sent, in order, and has freed the channel.
\<close>

theorem spsc_every_schedule_delivers:
  assumes "pipeline_start ns S" and "(pipeline_step prog ^^ m) S T"
  shows "m \<le> 16 * length ns + 19 \<and> (\<forall>k. runnable k T \<longrightarrow> (\<exists>U. run_task prog k T = Inr U)) \<and>
     (consumer T = Consumed ns \<and> producer T = Produced \<and> sp_rc (pipe T) = None \<or> (\<exists>U. pipeline_step prog T U))"
proof -
  have r: "pipe_inv ns T \<and> m \<le> pipe_work ns S \<and> (pipe_done T \<or> (\<exists>U. pipeline_step prog T U))"
    by (rule pipe.run_continues [OF assms(2,1)])
  have "pipe_work ns S = 16 * length ns + 19" using assms(1) by (auto simp: pipeline_start_def spawn_def pipe_work_def)
  moreover have "producer T = Produced" if "pipe_done T"
    using that by (cases "producer T") (auto simp: pipe_done_def)
  ultimately show ?thesis using r run_task_ok [of ns T _ prog] pipe_done_collected [of ns T] by auto
qed

section \<open>Chosen schedules\<close>

fun run_schedule :: "'t program \<Rightarrow> waker list \<Rightarrow> 't pipeline \<Rightarrow> 't pipeline res" where
  "run_schedule prog [] S = Inr S"
| "run_schedule prog (k # ks) S =
     (if runnable k S then and_then (run_task prog k S) (run_schedule prog ks)
      else Inl (Panic ''asleep''))"

lemma run_schedule_steps:
  "run_schedule prog ks S = Inr T \<Longrightarrow> (pipeline_step prog ^^ length ks) S T"
proof (induction ks arbitrary: S)
  case (Cons k ks)
  then obtain U where "runnable k S" "run_task prog k S = Inr U" "run_schedule prog ks U = Inr T"
    by (auto simp: and_then_eq_Inr split: if_splits)
  with Cons.IH [of U] have "pipeline_step prog S U" "(pipeline_step prog ^^ length ks) U T" by (auto intro: run)
  then show ?case unfolding list.size(4) add_Suc_right by (simp only: add_0_right relpowp_Suc_I2)
qed simp

section \<open>The examples and the test\<close>

text \<open>The program, the capacity of the channel and the messages; \<open>test_spsc\<close> takes its size.\<close>

definition lib_example :: "nat program \<times> usize \<times> nat list" where
  "lib_example = (\<lparr>stops_on_error = True, produce_yields = (\<lambda>n. False), consume_yields = (\<lambda>m. False)\<rparr>,
     4, [0..<1000])"

definition send_example :: "nat program \<times> usize \<times> nat list" where
  "send_example = (\<lparr>stops_on_error = False, produce_yields = (\<lambda>n. False), consume_yields = (\<lambda>v. False)\<rparr>,
     1, [0..<10])"

definition recv_example :: "nat program \<times> usize \<times> nat list" where
  "recv_example = (\<lparr>stops_on_error = False, produce_yields = (\<lambda>n. False), consume_yields = (\<lambda>v. False)\<rparr>,
     1, [0..<10])"

definition test_spsc :: "nat \<Rightarrow> nat program \<times> usize \<times> nat list" where
  "test_spsc n = (\<lparr>stops_on_error = False, produce_yields = (\<lambda>m. m mod 5 = 0),
     consume_yields = (\<lambda>v. v mod 3 = 0)\<rparr>, 2, [0..<n])"

text \<open>Every run that cannot go on has collected what the example expects.\<close>

definition collects :: "'t program \<times> usize \<times> 't list \<Rightarrow> bool" where
  "collects example \<longleftrightarrow> (case example of (prog, cap, ns) \<Rightarrow>
     \<forall>alloc ch S. (\<forall>n. n \<le> alloc n) \<longrightarrow> channel alloc cap = Inr ch \<longrightarrow>
       (pipeline_step prog)\<^sup>*\<^sup>* (spawn ns ch) S \<longrightarrow> (\<nexists>T. pipeline_step prog S T) \<longrightarrow> consumer S = Consumed ns)"

lemma always_collects: "collects (prog, cap, ns)"
proof -
  have "consumer S = Consumed ns"
    if s: "\<forall>n. n \<le> alloc n" "channel alloc cap = Inr ch" and r: "(pipeline_step prog)\<^sup>*\<^sup>* (spawn ns ch) S"
      and e: "\<nexists>T. pipeline_step prog S T" for alloc ch S
  proof -
    have "pipe_inv ns (spawn ns ch)" by (rule pipe_start_inv) (use s in \<open>auto simp: pipeline_start_def\<close>)
    from pipe.inv_steps [OF r this] have i: "pipe_inv ns S" .
    with pipe.progress [of ns S prog] e have "pipe_done S" by blast
    with pipe_done_collected [OF i] show ?thesis by blast
  qed
  then show ?thesis unfolding collects_def by blast
qed

lemma examples_collect:
  "collects lib_example" "collects send_example" "collects recv_example" "collects (test_spsc n)"
  by (simp_all add: lib_example_def send_example_def recv_example_def test_spsc_def always_collects)

theorem spsc_every_schedule_delivers_witness:
  "\<exists>ch T. channel alloc_exact 2 = Inr ch \<and>
     run_schedule (fst (test_spsc 4)) [1, 0, 1, 0, 1, 0, 1, 1] (spawn [0, 1, 2, 3] ch) = Inr T \<and>
     consumer T = Consumed [0, 1, 2, 3]"
proof -
  let ?prog = "fst (test_spsc 4)" and ?ks = "[1, 0, 1, 0, 1, 0, 1, 1]"
  obtain ch :: "nat spsc" where c: "channel alloc_exact 2 = Inr ch" by (simp add: channel_def)
  have "passes (and_then (channel alloc_exact 2) (\<lambda>ch. run_schedule ?prog ?ks (spawn [0, 1, 2, 3] ch)))
      (\<lambda>T. \<not> runnable 0 T \<and> \<not> runnable 1 T)" by code_simp
  with c obtain T where T: "run_schedule ?prog ?ks (spawn [0, 1, 2, 3] ch) = Inr T"
    "\<not> runnable 0 T" "\<not> runnable 1 T"
    by (auto elim: passesE)
  have "pipeline_start [0, 1, 2, 3] (spawn [0, 1, 2, 3] ch)"
    using c by (auto simp: pipeline_start_def alloc_exact_def intro!: exI [of _ alloc_exact])
  from spsc_every_schedule_delivers [OF this run_schedule_steps [OF T(1)]] T(2,3)
  have "consumer T = Consumed [0, 1, 2, 3]" by (auto elim!: pipeline_stepE simp: runnable_def)
  with c T(1) show ?thesis by blast
qed

end
