(* ===== verification/Oneshot.thy ===== *)
theory Oneshot
  imports Bi_Rc
begin

text \<open>
  \<open>src/oneshot.rs\<close>: the oneshot channel over the shared cell.  \<open>os_woken\<close> is the trace of the
  calls to \<open>Waker::wake\<close>.  \<open>send\<close> consumes the sender, so it ends with the sender's destructor.
  The system adds who owns an end, what was sent and received, and the waker of a receiver that
  returned \<open>Pending\<close> and has not been woken since.  At the end, the examples of the documentation.
\<close>

section \<open>The channel\<close>

datatype 't send_error = SendError (unsent: 't)

fun display_send_error :: "'t send_error \<Rightarrow> string" where
  "display_send_error (SendError v) = ''channel disconnected''"

text \<open>The derived \<open>PartialOrd\<close> and \<open>Ord\<close> compare what is inside.\<close>

instantiation send_error :: (linorder) linorder
begin

definition less_eq_send_error :: "'a send_error \<Rightarrow> 'a send_error \<Rightarrow> bool" where
  "less_eq_send_error x y \<longleftrightarrow> unsent x \<le> unsent y"

definition less_send_error :: "'a send_error \<Rightarrow> 'a send_error \<Rightarrow> bool" where
  "less_send_error x y \<longleftrightarrow> unsent x < unsent y"

instance
  by standard (auto simp: less_eq_send_error_def less_send_error_def intro: send_error.expand)

end

record 't shared =
  os_waker :: "waker option"
  os_buf :: "'t option"

record 't oneshot =
  os_rc :: "'t shared bi_rc"
  os_woken :: "waker list"

definition channel :: "'t oneshot" where
  "channel = \<lparr>os_rc = bi_rc_new \<lparr>os_waker = None, os_buf = None\<rparr>, os_woken = []\<rparr>"

text \<open>\<open>if let Some(waker) = inner.waker.take() { waker.wake(); }\<close>\<close>

definition take_and_wake :: "'t oneshot \<Rightarrow> 't oneshot res" where
  "take_and_wake ch =
     and_then (bi_rc_get (os_rc ch)) (\<lambda>(sh, _).
     and_then (bi_rc_put (sh\<lparr>os_waker := None\<rparr>) (os_rc ch)) (\<lambda>rc.
     Inr (\<lparr>os_rc = rc,
           os_woken = os_woken ch @ (case os_waker sh of None \<Rightarrow> [] | Some k \<Rightarrow> [k])\<rparr>)))"

definition sender_drop :: "'t oneshot \<Rightarrow> 't oneshot res" where
  "sender_drop ch =
     and_then (take_and_wake ch) (\<lambda>ch.
     and_then (bi_rc_drop (os_rc ch)) (\<lambda>rc. Inr (ch\<lparr>os_rc := rc\<rparr>)))"

definition receiver_drop :: "'t oneshot \<Rightarrow> 't oneshot res" where
  "receiver_drop ch =
     and_then (take_and_wake ch) (\<lambda>ch.
     and_then (bi_rc_drop (os_rc ch)) (\<lambda>rc. Inr (ch\<lparr>os_rc := rc\<rparr>)))"

definition send_body :: "'t \<Rightarrow> 't oneshot \<Rightarrow> ((unit, 't send_error) result \<times> 't oneshot) res" where
  "send_body v ch =
     and_then (bi_rc_get (os_rc ch)) (\<lambda>(sh, both_present).
     if \<not> both_present then Inr (Err (SendError v), ch)
     else
       and_then (bi_rc_put (sh\<lparr>os_buf := Some v\<rparr>) (os_rc ch)) (\<lambda>rc.
       and_then (take_and_wake (ch\<lparr>os_rc := rc\<rparr>)) (\<lambda>ch.
       Inr (Ok (), ch))))"

definition send :: "'t \<Rightarrow> 't oneshot \<Rightarrow> ((unit, 't send_error) result \<times> 't oneshot) res" where
  "send v ch =
     and_then (send_body v ch) (\<lambda>(r, ch).
     and_then (sender_drop ch) (\<lambda>ch. Inr (r, ch)))"

definition receiver_poll :: "waker \<Rightarrow> 't oneshot \<Rightarrow> ('t option poll \<times> 't oneshot) res" where
  "receiver_poll cx ch =
     and_then (bi_rc_get (os_rc ch)) (\<lambda>(sh, both_present).
     case os_buf sh of
       Some v \<Rightarrow>
         and_then (bi_rc_put (sh\<lparr>os_buf := None\<rparr>) (os_rc ch)) (\<lambda>rc.
         Inr (Ready (Some v), ch\<lparr>os_rc := rc\<rparr>))
     | None \<Rightarrow>
         if \<not> both_present then
           and_then (bi_rc_put (sh\<lparr>os_waker := None\<rparr>) (os_rc ch)) (\<lambda>rc.
           Inr (Ready None, ch\<lparr>os_rc := rc\<rparr>))
         else
           and_then (case os_waker sh of
               Some w \<Rightarrow>
                 if will_wake w cx then Inr (os_rc ch)
                 else bi_rc_put (sh\<lparr>os_waker := Some cx\<rparr>) (os_rc ch)
             | None \<Rightarrow> bi_rc_put (sh\<lparr>os_waker := Some cx\<rparr>) (os_rc ch)) (\<lambda>rc.
           Inr (Pending, ch\<lparr>os_rc := rc\<rparr>)))"

section \<open>The two ends as a system\<close>

record 't oneshot_sys =
  chan :: "'t oneshot"
  tx_alive :: bool
  rx_alive :: bool
  sent :: "'t option"
  refused :: "'t option"
  received :: "'t list"
  asleep :: "waker option"

datatype 't oneshot_op = SendValue 't | DropSender | PollReceiver waker | DropReceiver

fun oneshot_enabled :: "'t oneshot_op \<Rightarrow> 't oneshot_sys \<Rightarrow> bool" where
  "oneshot_enabled (SendValue v) S \<longleftrightarrow> tx_alive S"
| "oneshot_enabled DropSender S \<longleftrightarrow> tx_alive S"
| "oneshot_enabled (PollReceiver cx) S \<longleftrightarrow> rx_alive S"
| "oneshot_enabled DropReceiver S \<longleftrightarrow> rx_alive S"

text \<open>A call to the waker of the sleeping receiver wakes it.\<close>

definition rouse :: "'t oneshot \<Rightarrow> 't oneshot_sys \<Rightarrow> 't oneshot_sys" where
  "rouse ch S =
     (let calls = drop (length (os_woken (chan S))) (os_woken ch) in
      S\<lparr>chan := ch,
        asleep := (case asleep S of None \<Rightarrow> None | Some k \<Rightarrow> if k \<in> set calls then None else Some k)\<rparr>)"

fun oneshot_exec :: "'t oneshot_op \<Rightarrow> 't oneshot_sys \<Rightarrow> 't oneshot_sys res" where
  "oneshot_exec (SendValue v) S =
     and_then (send v (chan S)) (\<lambda>(r, ch).
     Inr (case r of
         Ok _ \<Rightarrow> (rouse ch S)\<lparr>tx_alive := False, sent := Some v\<rparr>
       | Err (SendError w) \<Rightarrow> (rouse ch S)\<lparr>tx_alive := False, refused := Some w\<rparr>))"
| "oneshot_exec DropSender S =
     and_then (sender_drop (chan S)) (\<lambda>ch. Inr ((rouse ch S)\<lparr>tx_alive := False\<rparr>))"
| "oneshot_exec (PollReceiver cx) S =
     and_then (receiver_poll cx (chan S)) (\<lambda>(r, ch).
     Inr (case r of
         Pending \<Rightarrow> (rouse ch S)\<lparr>asleep := Some cx\<rparr>
       | Ready x \<Rightarrow> (rouse ch S)\<lparr>asleep := None,
           received := received S @ (case x of None \<Rightarrow> [] | Some v \<Rightarrow> [v])\<rparr>))"
| "oneshot_exec DropReceiver S =
     and_then (receiver_drop (chan S)) (\<lambda>ch. Inr ((rouse ch S)\<lparr>rx_alive := False, asleep := None\<rparr>))"

definition oneshot_new :: "'t oneshot_sys" where
  "oneshot_new = \<lparr>chan = channel, tx_alive = True, rx_alive = True, sent = None, refused = None,
     received = [], asleep = None\<rparr>"

inductive oneshot_step :: "'t oneshot_sys \<Rightarrow> 't oneshot_sys \<Rightarrow> bool" where
  oneshot_call: "oneshot_enabled op S \<Longrightarrow> oneshot_exec op S = Inr S' \<Longrightarrow> oneshot_step S S'"

inductive_cases oneshot_stepE: "oneshot_step S S'"

section \<open>The invariant\<close>

definition alive :: "'t oneshot_sys \<Rightarrow> nat" where
  "alive S = of_bool (tx_alive S) + of_bool (rx_alive S)"

text \<open>
  Until the receiver takes it, the value sent is in the buffer; a sleeping receiver's waker is
  registered, and nothing it waits for has happened.
\<close>

definition oneshot_inv :: "'t oneshot_sys \<Rightarrow> bool" where
  "oneshot_inv S \<longleftrightarrow> (\<exists>sh. bi_owned (alive S) sh (os_rc (chan S)) \<and>
     (tx_alive S \<longrightarrow> sent S = None \<and> refused S = None \<and> os_buf sh = None) \<and>
     received S @ (case os_buf sh of None \<Rightarrow> [] | Some v \<Rightarrow> [v]) =
       (case sent S of None \<Rightarrow> [] | Some v \<Rightarrow> [v]) \<and>
     (sent S = None \<or> refused S = None) \<and>
     (asleep S \<noteq> None \<longrightarrow> rx_alive S \<and> tx_alive S \<and> sent S = None \<and> os_waker sh = asleep S) \<and>
     (os_waker sh \<noteq> None \<longrightarrow> os_waker sh = asleep S))"

lemma take_and_wake_eq:
  assumes "bi_owned n sh (os_rc ch)" and "0 < n"
  shows "\<exists>rc. take_and_wake ch = Inr \<lparr>os_rc = rc,
      os_woken = os_woken ch @ (case os_waker sh of None \<Rightarrow> [] | Some k \<Rightarrow> [k])\<rparr> \<and>
     bi_owned n (sh\<lparr>os_waker := None\<rparr>) rc"
  using rc.get_law [OF assms] rc.put_law [OF assms, of "sh\<lparr>os_waker := None\<rparr>"]
  by (auto simp: take_and_wake_def)

text \<open>Both destructors do the same to the shared state.\<close>

lemma end_drop_eq:
  assumes "bi_owned n sh (os_rc ch)" and "0 < n" and "f = sender_drop \<or> f = receiver_drop"
  shows "\<exists>rc. f ch = Inr \<lparr>os_rc = rc,
      os_woken = os_woken ch @ (case os_waker sh of None \<Rightarrow> [] | Some k \<Rightarrow> [k])\<rparr> \<and>
     bi_owned (n - 1) (sh\<lparr>os_waker := None\<rparr>) rc"
proof -
  from take_and_wake_eq [OF assms(1,2)] obtain rc1 where
    1: "take_and_wake ch = Inr \<lparr>os_rc = rc1,
      os_woken = os_woken ch @ (case os_waker sh of None \<Rightarrow> [] | Some k \<Rightarrow> [k])\<rparr>"
      "bi_owned n (sh\<lparr>os_waker := None\<rparr>) rc1"
    by blast
  from rc.release_law [OF 1(2) assms(2)] 1(1) assms(3) show ?thesis
    by (auto simp: sender_drop_def receiver_drop_def)
qed

lemma send_eq:
  assumes "bi_owned n sh (os_rc ch)" and "0 < n"
  shows "\<exists>rc. send v ch = Inr (if n = 2 then Ok () else Err (SendError v), \<lparr>os_rc = rc,
      os_woken = os_woken ch @ (case os_waker sh of None \<Rightarrow> [] | Some k \<Rightarrow> [k])\<rparr>) \<and>
     bi_owned (n - 1) (sh\<lparr>os_waker := None, os_buf := (if n = 2 then Some v else os_buf sh)\<rparr>) rc"
proof (cases "n = 2")
  case False
  with rc.get_law [OF assms] end_drop_eq [OF assms, of sender_drop] show ?thesis
    by (auto simp: send_def send_body_def)
next
  case True
  from rc.put_law [OF assms, of "sh\<lparr>os_buf := Some v\<rparr>"] obtain rc1 where
    1: "bi_rc_put (sh\<lparr>os_buf := Some v\<rparr>) (os_rc ch) = Inr rc1" "bi_owned n (sh\<lparr>os_buf := Some v\<rparr>) rc1"
    by blast
  from take_and_wake_eq [of n "sh\<lparr>os_buf := Some v\<rparr>" "ch\<lparr>os_rc := rc1\<rparr>"] 1(2) assms(2) obtain rc2 where
    2: "take_and_wake (ch\<lparr>os_rc := rc1\<rparr>) = Inr \<lparr>os_rc = rc2,
      os_woken = os_woken ch @ (case os_waker sh of None \<Rightarrow> [] | Some k \<Rightarrow> [k])\<rparr>"
      "bi_owned n (sh\<lparr>os_buf := Some v, os_waker := None\<rparr>) rc2"
    by auto
  let ?ch = "\<lparr>os_rc = rc2, os_woken = os_woken ch @ (case os_waker sh of None \<Rightarrow> [] | Some k \<Rightarrow> [k])\<rparr>"
  from end_drop_eq [of n "sh\<lparr>os_buf := Some v, os_waker := None\<rparr>" ?ch sender_drop] 2(2) assms(2) obtain rc3 where
    3: "sender_drop ?ch = Inr (?ch\<lparr>os_rc := rc3\<rparr>)"
      "bi_owned (n - 1) (sh\<lparr>os_buf := Some v, os_waker := None\<rparr>) rc3"
    by auto
  have "sh\<lparr>os_buf := Some v, os_waker := None\<rparr> = sh\<lparr>os_waker := None, os_buf := Some v\<rparr>"
    by simp
  with rc.get_law [OF assms] 1(1) 2(1) 3 True show ?thesis
    by (intro exI [of _ rc3]) (auto simp: send_def send_body_def)
qed

lemma receiver_poll_eq:
  assumes "bi_owned n sh (os_rc ch)" and "0 < n"
  shows "\<exists>rc. receiver_poll cx ch = Inr (case os_buf sh of
        Some v \<Rightarrow> Ready (Some v)
      | None \<Rightarrow> if n = 2 then Pending else Ready None, ch\<lparr>os_rc := rc\<rparr>) \<and>
     bi_owned n (case os_buf sh of
        Some v \<Rightarrow> sh\<lparr>os_buf := None\<rparr>
      | None \<Rightarrow> sh\<lparr>os_waker := (if n = 2 then Some cx else None)\<rparr>) rc"
proof (cases "os_buf sh")
  case (Some v)
  with rc.get_law [OF assms] rc.put_law [OF assms, of "sh\<lparr>os_buf := None\<rparr>"] show ?thesis
    by (auto simp: receiver_poll_def)
next
  case None
  show ?thesis
  proof (cases "n = 2 \<and> os_waker sh = Some cx")
    case True
    then have "bi_owned 2 (sh\<lparr>os_waker := Some cx\<rparr>) (os_rc ch)" using assms(1) by (cases sh) simp
    with True None assms rc.get_law [OF assms] show ?thesis
      by (intro exI [of _ "os_rc ch"]) (simp add: receiver_poll_def will_wake_def)
  next
    case False
    with None rc.get_law [OF assms] rc.put_law [OF assms, of "sh\<lparr>os_waker := None\<rparr>"]
      rc.put_law [OF assms, of "sh\<lparr>os_waker := Some cx\<rparr>"]
    show ?thesis by (cases "n = 2"; cases "os_waker sh") (auto simp: receiver_poll_def will_wake_def)
  qed
qed

lemma rouse_eq:
  "rouse \<lparr>os_rc = rc, os_woken = os_woken (chan S) @ ks\<rparr> S =
     S\<lparr>chan := \<lparr>os_rc = rc, os_woken = os_woken (chan S) @ ks\<rparr>,
       asleep := (case asleep S of None \<Rightarrow> None | Some k \<Rightarrow> if k \<in> set ks then None else Some k)\<rparr>"
  by (simp add: rouse_def)

lemma os_rouse_quiet: "rouse ((chan S)\<lparr>os_rc := rc\<rparr>) S = S\<lparr>chan := (chan S)\<lparr>os_rc := rc\<rparr>\<rparr>"
  by (cases S) (simp add: rouse_def split: option.split)

lemma oneshot_invD:
  assumes "oneshot_inv S"
  obtains sh where "bi_owned (alive S) sh (os_rc (chan S))"
    and "tx_alive S \<Longrightarrow> sent S = None \<and> refused S = None \<and> os_buf sh = None"
    and "received S @ (case os_buf sh of None \<Rightarrow> [] | Some v \<Rightarrow> [v]) = (case sent S of None \<Rightarrow> [] | Some v \<Rightarrow> [v])"
    and "sent S = None \<or> refused S = None"
    and "asleep S \<noteq> None \<longrightarrow> rx_alive S \<and> tx_alive S \<and> sent S = None \<and> os_waker sh = asleep S"
    and "os_waker sh \<noteq> None \<longrightarrow> os_waker sh = asleep S"
  using assms that unfolding oneshot_inv_def by blast

lemma oneshot_send_keeps:
  assumes "oneshot_inv S" and t: "tx_alive S"
  shows "\<exists>S'. oneshot_exec (SendValue v) S = Inr S' \<and> oneshot_inv S'"
proof (rule oneshot_invD [OF assms(1)])
  fix sh assume o: "bi_owned (alive S) sh (os_rc (chan S))" and i: "tx_alive S \<Longrightarrow> sent S = None \<and> refused S = None \<and> os_buf sh = None"
    "received S @ (case os_buf sh of None \<Rightarrow> [] | Some v \<Rightarrow> [v]) = (case sent S of None \<Rightarrow> [] | Some v \<Rightarrow> [v])"
    "asleep S \<noteq> None \<longrightarrow> rx_alive S \<and> tx_alive S \<and> sent S = None \<and> os_waker sh = asleep S"
    "os_waker sh \<noteq> None \<longrightarrow> os_waker sh = asleep S"
  from t have n: "0 < alive S" "alive S = 2 \<longleftrightarrow> rx_alive S" by (auto simp: alive_def)
  from send_eq [OF o n(1), of v] obtain rc where
    "send v (chan S) = Inr (if rx_alive S then Ok () else Err (SendError v), \<lparr>os_rc = rc,
      os_woken = os_woken (chan S) @ (case os_waker sh of None \<Rightarrow> [] | Some k \<Rightarrow> [k])\<rparr>)"
    "bi_owned (alive S - 1) (sh\<lparr>os_waker := None, os_buf := (if rx_alive S then Some v else os_buf sh)\<rparr>) rc"
    unfolding n(2) by blast
  with t i show ?thesis
    by (cases "rx_alive S"; cases "asleep S") (auto simp: rouse_eq oneshot_inv_def alive_def intro!: exI)
qed

lemma oneshot_poll_keeps:
  assumes "oneshot_inv S" and t: "rx_alive S"
  shows "\<exists>S'. oneshot_exec (PollReceiver cx) S = Inr S' \<and> oneshot_inv S'"
proof (rule oneshot_invD [OF assms(1)])
  fix sh assume o: "bi_owned (alive S) sh (os_rc (chan S))" and tx: "tx_alive S \<Longrightarrow> sent S = None \<and> refused S = None \<and> os_buf sh = None"
    and b: "received S @ (case os_buf sh of None \<Rightarrow> [] | Some v \<Rightarrow> [v]) = (case sent S of None \<Rightarrow> [] | Some v \<Rightarrow> [v])"
      "sent S = None \<or> refused S = None"
    and a: "asleep S \<noteq> None \<longrightarrow> rx_alive S \<and> tx_alive S \<and> sent S = None \<and> os_waker sh = asleep S"
      "os_waker sh \<noteq> None \<longrightarrow> os_waker sh = asleep S"
  from t have n: "0 < alive S" "alive S = 2 \<longleftrightarrow> tx_alive S" by (auto simp: alive_def)
  from receiver_poll_eq [OF o n(1), of cx] obtain rc where
    r: "receiver_poll cx (chan S) = Inr (case os_buf sh of
        Some v \<Rightarrow> Ready (Some v)
      | None \<Rightarrow> if tx_alive S then Pending else Ready None, (chan S)\<lparr>os_rc := rc\<rparr>)"
    "bi_owned (alive S) (case os_buf sh of
        Some v \<Rightarrow> sh\<lparr>os_buf := None\<rparr>
      | None \<Rightarrow> sh\<lparr>os_waker := (if tx_alive S then Some cx else None)\<rparr>) rc"
    unfolding n(2) by blast
  show ?thesis
  proof (cases "os_buf sh")
    case None
    with t r tx b a show ?thesis
      by (cases "tx_alive S") (auto simp: os_rouse_quiet oneshot_inv_def alive_def intro!: exI)
  next
    case (Some v)
    with tx have "\<not> tx_alive S" by auto
    moreover from this a have w: "asleep S = None" "os_waker sh = None" by auto
    ultimately show ?thesis
      using t r b Some unfolding oneshot_inv_def
      by (auto simp: os_rouse_quiet alive_def intro!: exI [of _ "sh\<lparr>os_buf := None\<rparr>"] split: option.splits)
  qed
qed

lemma oneshot_drop_keeps:
  assumes "oneshot_inv S"
  shows "tx_alive S \<Longrightarrow> \<exists>S'. oneshot_exec DropSender S = Inr S' \<and> oneshot_inv S'"
    and "rx_alive S \<Longrightarrow> \<exists>S'. oneshot_exec DropReceiver S = Inr S' \<and> oneshot_inv S'"
proof -
  from assms obtain sh where o: "bi_owned (alive S) sh (os_rc (chan S))" and i:
    "tx_alive S \<Longrightarrow> sent S = None \<and> refused S = None \<and> os_buf sh = None"
    "received S @ (case os_buf sh of None \<Rightarrow> [] | Some v \<Rightarrow> [v]) = (case sent S of None \<Rightarrow> [] | Some v \<Rightarrow> [v])"
    "sent S = None \<or> refused S = None"
    "asleep S \<noteq> None \<longrightarrow> rx_alive S \<and> tx_alive S \<and> sent S = None \<and> os_waker sh = asleep S"
    "os_waker sh \<noteq> None \<longrightarrow> os_waker sh = asleep S"
    by (rule oneshot_invD) (rule that)
  have d: thesis
    if "0 < alive S" "d = sender_drop \<or> d = receiver_drop" and "\<And>rc. d (chan S) = Inr \<lparr>os_rc = rc,
        os_woken = os_woken (chan S) @ (case os_waker sh of None \<Rightarrow> [] | Some k \<Rightarrow> [k])\<rparr> \<Longrightarrow>
      bi_owned (alive S - 1) (sh\<lparr>os_waker := None\<rparr>) rc \<Longrightarrow> thesis" for d thesis
    using end_drop_eq [OF o that(1,2)] that(3) by blast
  show "\<exists>S'. oneshot_exec DropSender S = Inr S' \<and> oneshot_inv S'" if t: "tx_alive S"
  proof (rule d [of sender_drop])
    fix rc assume "sender_drop (chan S) = Inr \<lparr>os_rc = rc,
        os_woken = os_woken (chan S) @ (case os_waker sh of None \<Rightarrow> [] | Some k \<Rightarrow> [k])\<rparr>"
      "bi_owned (alive S - 1) (sh\<lparr>os_waker := None\<rparr>) rc"
    with t i show ?thesis
      by (cases "asleep S") (auto simp: rouse_eq oneshot_inv_def alive_def intro!: exI)
  qed (use t in \<open>simp_all add: alive_def\<close>)
  show "\<exists>S'. oneshot_exec DropReceiver S = Inr S' \<and> oneshot_inv S'" if t: "rx_alive S"
  proof (rule d [of receiver_drop])
    fix rc assume "receiver_drop (chan S) = Inr \<lparr>os_rc = rc,
        os_woken = os_woken (chan S) @ (case os_waker sh of None \<Rightarrow> [] | Some k \<Rightarrow> [k])\<rparr>"
      "bi_owned (alive S - 1) (sh\<lparr>os_waker := None\<rparr>) rc"
    with t i show ?thesis
      by (auto simp: rouse_eq oneshot_inv_def alive_def intro!: exI)
  qed (use t in \<open>simp_all add: alive_def\<close>)
qed

lemma oneshot_exec_ok:
  assumes "oneshot_inv S" and "oneshot_enabled op S"
  shows "\<exists>S'. oneshot_exec op S = Inr S' \<and> oneshot_inv S'"
  using assms(2) oneshot_send_keeps [OF assms(1)] oneshot_poll_keeps [OF assms(1)] oneshot_drop_keeps [OF assms(1)] by (cases op) simp_all

lemma oneshot_new_inv: "oneshot_inv oneshot_new"
  using rc.make_law [of "\<lparr>os_waker = None, os_buf = None\<rparr>"]
  unfolding oneshot_inv_def
  by (intro exI [of _ "\<lparr>os_waker = None, os_buf = None\<rparr>"])
    (simp add: oneshot_new_def channel_def alive_def numeral_2_eq_2)

interpretation oneshot_all: inductive_invariant "\<lambda>S. S = oneshot_new" oneshot_step oneshot_inv
proof unfold_locales
  show "oneshot_inv T" if "oneshot_step S T" "oneshot_inv S" for S T :: "'a oneshot_sys"
    using that(1) by (rule oneshot_stepE) (use oneshot_exec_ok [OF that(2)] in fastforce)
qed (simp add: oneshot_new_inv)

section \<open>Properties\<close>

abbreviation oneshot_reachable :: "'t oneshot_sys \<Rightarrow> bool" where
  "oneshot_reachable \<equiv> reachable (\<lambda>S. S = oneshot_new) oneshot_step"

lemma bi_owned_None: "bi_owned n v rc \<Longrightarrow> rc = None \<longleftrightarrow> n = 0"
  by (auto simp: bi_owned_def split: option.splits)

text \<open>C35.
  No call on a oneshot channel faults, whatever the order of sends, polls and drops, and the shared
  allocation is freed exactly when both ends are gone.
\<close>

theorem oneshot_memory_safe:
  assumes "oneshot_reachable S"
  shows "(os_rc (chan S) = None \<longleftrightarrow> \<not> tx_alive S \<and> \<not> rx_alive S) \<and>
     (oneshot_enabled op S \<longrightarrow> (\<exists>S'. oneshot_exec op S = Inr S'))"
  using oneshot_all.inv_reachable [OF assms] oneshot_exec_ok [of S op]
  by (auto simp: oneshot_inv_def alive_def dest: bi_owned_None)

text \<open>
  A oneshot channel delivers exactly what was sent, once.  \<open>send\<close> succeeds exactly when the
  receiver is alive, and otherwise gives the value back; only the value sent is ever received, and
  at most once; and until it has been received, the receiver's next poll is ready with it, also
  after the sender is gone.
\<close>

theorem oneshot_delivers_once:
  assumes "oneshot_reachable S"
  shows "(tx_alive S \<longrightarrow> (\<exists>S'. oneshot_exec (SendValue v) S = Inr S' \<and>
       sent S' = (if rx_alive S then Some v else None) \<and>
       refused S' = (if rx_alive S then None else Some v))) \<and>
     (received S = [] \<or> (\<exists>w. sent S = Some w \<and> received S = [w])) \<and>
     (rx_alive S \<and> sent S = Some w \<and> received S = [] \<longrightarrow>
       (\<exists>S'. oneshot_exec (PollReceiver cx) S = Inr S' \<and> received S' = [w]))"
proof -
  from oneshot_all.inv_reachable [OF assms] obtain sh where
    o: "bi_owned (alive S) sh (os_rc (chan S))"
    and tx: "tx_alive S \<Longrightarrow> sent S = None \<and> refused S = None"
    and b: "received S @ (case os_buf sh of None \<Rightarrow> [] | Some v \<Rightarrow> [v]) =
       (case sent S of None \<Rightarrow> [] | Some v \<Rightarrow> [v])"
    by (auto simp: oneshot_inv_def)
  have "received S = [] \<or> (\<exists>w. sent S = Some w \<and> received S = [w])"
    using b by (cases "received S") (auto split: option.splits)
  moreover have "\<exists>S'. oneshot_exec (SendValue v) S = Inr S' \<and>
       sent S' = (if rx_alive S then Some v else None) \<and>
       refused S' = (if rx_alive S then None else Some v)" if t: "tx_alive S"
  proof -
    from t have n: "0 < alive S" "alive S = 2 \<longleftrightarrow> rx_alive S" by (auto simp: alive_def)
    from send_eq [OF o n(1), of v] n(2) tx [OF t] show ?thesis
      by (cases "rx_alive S") (auto simp: rouse_eq)
  qed
  moreover have "\<exists>S'. oneshot_exec (PollReceiver cx) S = Inr S' \<and> received S' = [w]"
    if r: "rx_alive S" "sent S = Some w" "received S = []"
  proof -
    from r have "os_buf sh = Some w" using b by (auto split: option.splits)
    moreover have "0 < alive S" using r(1) by (simp add: alive_def)
    ultimately show ?thesis using receiver_poll_eq [OF o, of cx] r(3) by (auto simp: os_rouse_quiet)
  qed
  ultimately show ?thesis by blast
qed

text \<open>C23.
  A receiver that was told to wait and has not been woken since waits for something that has not
  happened: the sender is still there and has sent nothing.  So sending and dropping the sender
  wake a waiting receiver, through the waker of its latest poll.
\<close>

theorem oneshot_no_lost_wakeup:
  assumes "oneshot_reachable S" and "asleep S = Some k"
  shows "tx_alive S \<and> rx_alive S \<and> sent S = None"
  using oneshot_all.inv_reachable [OF assms(1)] assms(2) by (auto simp: oneshot_inv_def)

section \<open>Scripts and witnesses\<close>

abbreviation oneshot_script ::
  "('t oneshot_op \<times> ('t oneshot_sys \<Rightarrow> bool)) list \<Rightarrow> 't oneshot_sys res" where
  "oneshot_script calls \<equiv> run_script oneshot_enabled oneshot_exec calls oneshot_new"

lemma oneshot_script_reachable:
  assumes "oneshot_script calls = Inr S"
  shows "oneshot_reachable S"
  by (rule run_script_reachable [OF assms]; blast intro: reach_start oneshot_call)

theorem oneshot_memory_safe_witness:
  "\<exists>S S' :: int oneshot_sys. oneshot_reachable S \<and> os_rc (chan S) \<noteq> None \<and>
     oneshot_exec (PollReceiver 3) S = Inr S'"
proof -
  have "passes (oneshot_script [(SendValue (4 :: int), any)]) rx_alive" by code_simp
  then obtain S where S: "oneshot_script [(SendValue (4 :: int), any)] = Inr S" "rx_alive S"
    by (rule passesE)
  from oneshot_memory_safe [OF oneshot_script_reachable [OF S(1)], of "PollReceiver 3"]
    oneshot_script_reachable [OF S(1)] S(2)
  show ?thesis by auto
qed

theorem oneshot_delivers_once_witness:
  "\<exists>S S' :: int oneshot_sys. oneshot_reachable S \<and> \<not> tx_alive S \<and>
     oneshot_exec (PollReceiver 3) S = Inr S' \<and> received S' = [4]"
proof -
  let ?c = "[(PollReceiver 2, any), (SendValue (4 :: int), any)]"
  have "passes (oneshot_script ?c)
      (\<lambda>S. rx_alive S \<and> \<not> tx_alive S \<and> sent S = Some 4 \<and> received S = [])"
    by code_simp
  then obtain S where S: "oneshot_script ?c = Inr S" "rx_alive S" "\<not> tx_alive S" "sent S = Some 4"
    "received S = []"
    by (auto elim: passesE)
  from oneshot_delivers_once [OF oneshot_script_reachable [OF S(1)], of 0 4 3]
    oneshot_script_reachable [OF S(1)] S(2-5)
  show ?thesis by auto
qed

theorem oneshot_no_lost_wakeup_witness:
  "\<exists>S :: int oneshot_sys. oneshot_reachable S \<and> asleep S = Some 2 \<and> tx_alive S \<and> sent S = None"
proof -
  have "passes (oneshot_script [(PollReceiver 2, any :: int oneshot_sys \<Rightarrow> bool)]) (\<lambda>S. asleep S = Some 2)"
    by code_simp
  then obtain S where S: "oneshot_script [(PollReceiver 2, any :: int oneshot_sys \<Rightarrow> bool)] = Inr S"
    "asleep S = Some 2"
    by (rule passesE)
  from oneshot_no_lost_wakeup [OF oneshot_script_reachable [OF S(1)] S(2)]
    oneshot_script_reachable [OF S(1)] S(2)
  show ?thesis by auto
qed

section \<open>The examples of the documentation\<close>

text \<open>A receiver that is awaited is dropped when it has returned.\<close>

definition send_error_example :: "int oneshot_sys res" where
  "send_error_example = oneshot_script [(DropReceiver, any), (SendValue 1, \<lambda>S. refused S = Some 1)]"

definition receiver_example :: "int oneshot_sys res" where
  "receiver_example = oneshot_script
     [(SendValue 1, \<lambda>S. sent S = Some 1),
      (PollReceiver 0, \<lambda>S. received S = [1] \<and> asleep S = None),
      (DropReceiver, any)]"

definition channel_example :: "int oneshot_sys res" where
  "channel_example = oneshot_script
     [(SendValue 1, \<lambda>S. sent S = Some 1),
      (PollReceiver 0, \<lambda>S. received S = [1] \<and> asleep S = None),
      (DropReceiver, any)]"

definition send_refused_example :: "int oneshot_sys res" where
  "send_refused_example = oneshot_script [(DropReceiver, any), (SendValue 1, \<lambda>S. refused S = Some 1)]"

definition send_ok_example :: "int oneshot_sys res" where
  "send_ok_example = oneshot_script
     [(SendValue 1, \<lambda>S. sent S = Some 1),
      (PollReceiver 0, \<lambda>S. received S = [1] \<and> asleep S = None),
      (DropReceiver, any)]"

lemma oneshot_examples_pass:
  "\<not> isl send_error_example"
  "\<not> isl receiver_example"
  "\<not> isl channel_example"
  "\<not> isl send_refused_example"
  "\<not> isl send_ok_example"
  by code_simp+

end
