(* ===== verification/Oneshot_Refinement.thy ===== *)
theory Oneshot_Refinement
  imports Oneshot Call_Refinement
begin

text \<open>
  The oneshot channel against its abstract specification: a parcel has at most one content, two ends
  that are open or closed, and possibly someone who waits for it.  Any sequence of calls gives the
  same replies on the channel and on the parcel.
\<close>

section \<open>The specification\<close>

record 't parcel =
  content :: "'t option"
  post_open :: bool
  door_open :: bool
  door_waits :: "waker option"

datatype 't oneshot_reply =
    Posted "(unit, 't send_error) result"
  | Collected "'t option poll"
  | Closed

definition parcel_new :: "'t parcel" where
  "parcel_new = \<lparr>content = None, post_open = True, door_open = True, door_waits = None\<rparr>"

definition p_collect :: "waker \<Rightarrow> 't parcel \<Rightarrow> 't oneshot_reply \<times> 't parcel" where
  "p_collect k P =
     (case content P of
        Some v \<Rightarrow> (Collected (Ready (Some v)), P\<lparr>content := None, door_waits := None\<rparr>)
      | None \<Rightarrow>
          if post_open P then (Collected Pending, P\<lparr>door_waits := Some k\<rparr>)
          else (Collected (Ready None), P\<lparr>door_waits := None\<rparr>))"

text \<open>Sending uses up the sender, whether or not the value is accepted.\<close>

fun p_call :: "'t oneshot_op \<Rightarrow> 't parcel \<Rightarrow> ('t oneshot_reply \<times> 't parcel) option" where
  "p_call (SendValue v) P =
     (if \<not> post_open P then None
      else if door_open P then
        Some (Posted (Ok ()), P\<lparr>content := Some v, post_open := False, door_waits := None\<rparr>)
      else Some (Posted (Err (SendError v)), P\<lparr>post_open := False\<rparr>))"
| "p_call DropSender P =
     (if post_open P then Some (Closed, P\<lparr>post_open := False, door_waits := None\<rparr>) else None)"
| "p_call (PollReceiver k) P = (if door_open P then Some (p_collect k P) else None)"
| "p_call DropReceiver P =
     (if door_open P then Some (Closed, P\<lparr>content := None, door_open := False, door_waits := None\<rparr>) else None)"

text \<open>What a call on the channel gives back to its caller, and the system after it.\<close>

fun oneshot_result :: "'t oneshot_op \<Rightarrow> 't oneshot_sys \<Rightarrow> 't oneshot_reply res" where
  "oneshot_result (SendValue v) S = and_then (send v (chan S)) (\<lambda>(r, _). Inr (Posted r))"
| "oneshot_result (PollReceiver cx) S = and_then (receiver_poll cx (chan S)) (\<lambda>(r, _). Inr (Collected r))"
| "oneshot_result DropSender S = Inr Closed"
| "oneshot_result DropReceiver S = Inr Closed"

definition oneshot_reply :: "'t oneshot_op \<Rightarrow> 't oneshot_sys \<Rightarrow> ('t oneshot_reply \<times> 't oneshot_sys) option" where
  "oneshot_reply =
     answer oneshot_enabled
       (\<lambda>op S. and_then (oneshot_result op S) (\<lambda>r. and_then (oneshot_exec op S) (\<lambda>S. Inr (r, S))))"

text \<open>The content is read from the shared cell.\<close>

definition inside :: "'t oneshot \<Rightarrow> 't option" where
  "inside ch = (case os_rc ch of None \<Rightarrow> None | Some i \<Rightarrow> os_buf (bi_value i))"

definition parcel_of :: "'t oneshot_sys \<Rightarrow> 't parcel" where
  "parcel_of S = \<lparr>content = inside (chan S), post_open = tx_alive S, door_open = rx_alive S, door_waits = asleep S\<rparr>"

section \<open>Each call\<close>

definition delivers :: "'t oneshot_op \<Rightarrow> 't oneshot_sys \<Rightarrow> bool" where
  "delivers op S \<longleftrightarrow> map_option (\<lambda>(r, S). (r, parcel_of S)) (oneshot_reply op S) = p_call op (parcel_of S)"

lemma delivers_disabled: "\<not> oneshot_enabled op S \<Longrightarrow> delivers op S"
  by (cases op) (auto simp: delivers_def oneshot_reply_def parcel_of_def)

lemma delivers_enabled:
  assumes "oneshot_enabled op S" and "oneshot_result op S = Inr r" and "oneshot_exec op S = Inr T"
    and "p_call op (parcel_of S) = Some (r, parcel_of T)"
  shows "delivers op S"
  using assms by (simp add: delivers_def oneshot_reply_def)

lemma inside_owned: "bi_owned n sh (os_rc ch) \<Longrightarrow> inside ch = (if n = 0 then None else os_buf sh)"
  by (auto simp: bi_owned_def inside_def split: option.splits)

text \<open>A sleeping receiver is the one that is registered, so a call of the registered waker leaves nobody asleep.\<close>

lemma called_wakes:
  assumes "asleep S \<noteq> None \<longrightarrow> os_waker sh = asleep S"
    and "T = rouse \<lparr>os_rc = rc, os_woken = os_woken (chan S) @ (case os_waker sh of None \<Rightarrow> [] | Some k \<Rightarrow> [k])\<rparr> S"
  shows "asleep T = None"
  using assms by (cases "asleep S") (auto simp: rouse_eq)

lemma rouse_frame [simp]:
  "chan (rouse ch S) = ch" "tx_alive (rouse ch S) = tx_alive S" "rx_alive (rouse ch S) = rx_alive S"
  by (simp_all add: rouse_def Let_def)

lemma send_delivers:
  assumes "oneshot_inv S" and t: "tx_alive S"
  shows "delivers (SendValue v) S"
proof (rule oneshot_invD [OF assms(1)])
  fix sh assume o: "bi_owned (alive S) sh (os_rc (chan S))"
    and b: "tx_alive S \<Longrightarrow> sent S = None \<and> refused S = None \<and> os_buf sh = None"
    and a: "asleep S \<noteq> None \<longrightarrow> rx_alive S \<and> tx_alive S \<and> sent S = None \<and> os_waker sh = asleep S"
  from t have n: "0 < alive S" "alive S = 2 \<longleftrightarrow> rx_alive S" "alive S - 1 = of_bool (rx_alive S)" by (auto simp: alive_def)
  let ?ch = "\<lambda>rc. \<lparr>os_rc = rc, os_woken = os_woken (chan S) @ (case os_waker sh of None \<Rightarrow> [] | Some k \<Rightarrow> [k])\<rparr>"
  from send_eq [OF o n(1), of v] obtain rc where
    r: "send v (chan S) = Inr (if rx_alive S then Ok () else Err (SendError v), ?ch rc)"
    "bi_owned (of_bool (rx_alive S)) (sh\<lparr>os_waker := None, os_buf := (if rx_alive S then Some v else os_buf sh)\<rparr>) rc"
    unfolding n(2,3) by blast
  have h: "inside (?ch rc) = (if rx_alive S then Some v else None)" "inside (chan S) = None"
    using inside_owned [of _ _ "?ch rc"] r(2) inside_owned [OF o] b [OF t] n(1) by auto
  have w: "asleep (rouse (?ch rc) S) = None" by (rule called_wakes [OF _ refl]) (use a in blast)
  moreover have "\<not> rx_alive S \<Longrightarrow> asleep S = None" using a by blast
  ultimately show ?thesis
    using r(1) h t by (cases "rx_alive S") (auto intro!: delivers_enabled simp: parcel_of_def)
qed

lemma poll_delivers:
  assumes "oneshot_inv S" and t: "rx_alive S"
  shows "delivers (PollReceiver cx) S"
proof (rule oneshot_invD [OF assms(1)])
  fix sh assume o: "bi_owned (alive S) sh (os_rc (chan S))"
    and b: "tx_alive S \<Longrightarrow> sent S = None \<and> refused S = None \<and> os_buf sh = None"
  from t have n: "0 < alive S" "alive S = 2 \<longleftrightarrow> tx_alive S" by (auto simp: alive_def)
  from receiver_poll_eq [OF o n(1), of cx] obtain rc where
    r: "receiver_poll cx (chan S) = Inr (case os_buf sh of
        Some v \<Rightarrow> Ready (Some v)
      | None \<Rightarrow> if tx_alive S then Pending else Ready None, (chan S)\<lparr>os_rc := rc\<rparr>)"
    "bi_owned (alive S) (case os_buf sh of
        Some v \<Rightarrow> sh\<lparr>os_buf := None\<rparr>
      | None \<Rightarrow> sh\<lparr>os_waker := (if tx_alive S then Some cx else None)\<rparr>) rc"
    unfolding n(2) by blast
  have h: "inside (chan S) = os_buf sh" "inside ((chan S)\<lparr>os_rc := rc\<rparr>) = None"
    using inside_owned [OF o] inside_owned [of _ _ "(chan S)\<lparr>os_rc := rc\<rparr>"] r(2) n(1) by (auto split: option.splits)
  show ?thesis
    using r(1) h t
    by (cases "os_buf sh"; cases "tx_alive S")
      (auto intro!: delivers_enabled simp: parcel_of_def p_collect_def os_rouse_quiet)
qed

lemma drops_deliver:
  assumes "oneshot_inv S"
  shows "tx_alive S \<Longrightarrow> delivers DropSender S" and "rx_alive S \<Longrightarrow> delivers DropReceiver S"
proof -
  from assms obtain sh where o: "bi_owned (alive S) sh (os_rc (chan S))"
    and b: "tx_alive S \<Longrightarrow> sent S = None \<and> refused S = None \<and> os_buf sh = None"
    and a: "asleep S \<noteq> None \<longrightarrow> rx_alive S \<and> tx_alive S \<and> sent S = None \<and> os_waker sh = asleep S"
    by (rule oneshot_invD) (rule that)
  let ?ch = "\<lambda>rc. \<lparr>os_rc = rc, os_woken = os_woken (chan S) @ (case os_waker sh of None \<Rightarrow> [] | Some k \<Rightarrow> [k])\<rparr>"
  have w: "asleep (rouse (?ch rc) S) = None" for rc by (rule called_wakes [OF _ refl]) (use a in blast)
  have h: "inside (?ch rc) = (if n = 0 then None else os_buf sh)" if "bi_owned n (sh\<lparr>os_waker := None\<rparr>) rc" for n rc
    using inside_owned [of n _ "?ch rc"] that by simp
  show "delivers DropSender S" if t: "tx_alive S"
  proof -
    have "0 < alive S" using t by (simp add: alive_def)
    from end_drop_eq [OF o this, of sender_drop] obtain rc where
      "sender_drop (chan S) = Inr (?ch rc)" "bi_owned (alive S - 1) (sh\<lparr>os_waker := None\<rparr>) rc" by blast
    with t w h [of "alive S - 1" rc] inside_owned [OF o] b [OF t] show ?thesis
      by (auto intro!: delivers_enabled simp: parcel_of_def)
  qed
  show "delivers DropReceiver S" if t: "rx_alive S"
  proof -
    have n: "0 < alive S" "tx_alive S \<or> alive S - 1 = 0" using t by (auto simp: alive_def)
    from end_drop_eq [OF o n(1), of receiver_drop] obtain rc where
      "receiver_drop (chan S) = Inr (?ch rc)" "bi_owned (alive S - 1) (sh\<lparr>os_waker := None\<rparr>) rc" by blast
    moreover from h [OF this(2)] n(2) b have "inside (?ch rc) = None" by auto
    ultimately show ?thesis using t w by (auto intro!: delivers_enabled simp: parcel_of_def)
  qed
qed

lemma call_delivers:
  assumes "oneshot_inv S"
  shows "delivers op S"
proof (cases "oneshot_enabled op S")
  case True
  with send_delivers [OF assms] poll_delivers [OF assms] drops_deliver [OF assms] show ?thesis
    by (cases op) simp_all
qed (rule delivers_disabled)

lemma oneshot_reply_inv: "oneshot_inv S \<Longrightarrow> oneshot_reply op S = Some (r, S') \<Longrightarrow> oneshot_inv S'"
  using oneshot_exec_ok [of S op] by (auto simp: oneshot_reply_def answer_Some and_then_eq_Inr)

interpretation oneshot_calls: call_refinement oneshot_reply p_call parcel_of oneshot_inv
  by unfold_locales (rule call_delivers [unfolded delivers_def] oneshot_reply_inv; assumption)+

lemma parcel_of_new: "parcel_of oneshot_new = parcel_new"
  by (simp add: parcel_of_def parcel_new_def oneshot_new_def channel_def bi_rc_new_def inside_def)

text \<open>A value that arrives after a wait, what a finished receiver answers, and a value that comes back.\<close>

lemma p_call_example:
  "map_option fst (run_calls p_call [PollReceiver 1, SendValue 5, PollReceiver 1, PollReceiver 1, DropReceiver]
       (parcel_new :: nat parcel)) =
     Some [Collected Pending, Posted (Ok ()), Collected (Ready (Some 5)), Collected (Ready None), Closed]"
  "map_option fst (run_calls p_call [DropReceiver, SendValue 5] (parcel_new :: nat parcel)) =
     Some [Closed, Posted (Err (SendError 5))]"
  by code_simp+

section \<open>Properties\<close>

text \<open>C14.
  The oneshot channel is its specification.  For any sequence of calls on a new channel, the code
  completes every call with a reply exactly when the parcel allows the whole sequence, the replies
  are equal one by one, and at the end the two hold the same value and have the same receiver asleep.
\<close>

theorem oneshot_refines_parcel:
  "map_option (\<lambda>(replies, S). (replies, parcel_of S)) (run_calls oneshot_reply ops oneshot_new) =
     run_calls p_call ops parcel_new"
  using oneshot_calls.runs_refine [OF oneshot_new_inv, of ops] by (simp add: parcel_of_new)

end
