(* ===== verification/Oneshot_Tasks.thy ===== *)
theory Oneshot_Tasks
  imports Oneshot Spsc_System
begin

text \<open>
  Requests and replies: the client and server tasks of \<open>test_oneshot\<close> in \<open>tests/oneshot.rs\<close>.
  The client sends the sender of a fresh oneshot channel over an spsc channel and waits for the value;
  the server answers each request with the number of requests before it.  So the two
  channels are used together, and messages of one are ends of the other: an spsc message is
  the name of a oneshot channel in \<open>shots\<close>.  The executor runs any task that was woken (task 0
  serves, task 1 requests).
\<close>

section \<open>The tasks\<close>

record exchange =
  line :: "addr spsc"
  shots :: "nat oneshot store"
  created :: nat
  awake :: "waker set"

text \<open>A call on one of the channels, with the tasks that it wakes.\<close>

definition on_line :: "(addr spsc \<Rightarrow> ('r \<times> addr spsc) res) \<Rightarrow> exchange \<Rightarrow> ('r \<times> exchange) res" where
  "on_line f ex =
     and_then (f (line ex)) (\<lambda>(r, ch).
     Inr (r, ex\<lparr>line := ch, awake := awake ex \<union> set (drop (length (sp_woken (line ex))) (sp_woken ch))\<rparr>))"

definition on_shot :: "addr \<Rightarrow> (nat oneshot \<Rightarrow> ('r \<times> nat oneshot) res) \<Rightarrow> exchange \<Rightarrow> ('r \<times> exchange) res" where
  "on_shot a f ex =
     and_then (deref a (shots ex)) (\<lambda>old.
     and_then (f old) (\<lambda>(r, new).
     Inr (r, ex\<lparr>shots := fmupd a new (shots ex),
               awake := awake ex \<union> set (drop (length (os_woken old)) (os_woken new))\<rparr>)))"

definition quietly :: "('s \<Rightarrow> 's res) \<Rightarrow> 's \<Rightarrow> (unit \<times> 's) res" where
  "quietly f s = and_then (f s) (\<lambda>s. Inr ((), s))"

definition new_shot :: "exchange \<Rightarrow> addr \<times> exchange" where
  "new_shot ex =
     (created ex, ex\<lparr>shots := fmupd (created ex) Oneshot.channel (shots ex), created := Suc (created ex)\<rparr>)"

text \<open>
  The server, with the number \<open>n\<close> of the next request: at the head of its loop, in
  \<open>rx.recv().await\<close>, or ended.  The yield comes before \<open>n += 1\<close>, which is the first that
  happens when the task is resumed.
\<close>

datatype server = Serving nat | Listening nat | Closed nat

function serve :: "(nat \<Rightarrow> bool) \<Rightarrow> nat \<Rightarrow> exchange \<Rightarrow> (server \<times> bool \<times> exchange) res" where
  "serve yields n ex =
     and_then (on_line (recv_poll 0) ex) (\<lambda>(r, ex).
     case r of
       Pending \<Rightarrow> Inr (Listening n, False, ex)
     | Ready None \<Rightarrow>
         and_then (on_line (quietly Spsc.receiver_drop) ex) (\<lambda>(_, ex). Inr (Closed n, False, ex))
     | Ready (Some oneshot_tx) \<Rightarrow>
         and_then (on_shot oneshot_tx (send n) ex) (\<lambda>(_, ex).
         if yields n then Inr (Serving (Suc n), True, ex) else serve yields (Suc n) ex))"
  by pat_completeness auto
termination
  by (relation "measure (\<lambda>(yields, n, ex). backlog (line ex))")
    (auto simp: on_line_def on_shot_def and_then_eq_Inr dest: recv_poll_backlog)

declare serve.simps [simp del]

fun server_poll :: "(nat \<Rightarrow> bool) \<Rightarrow> server \<Rightarrow> exchange \<Rightarrow> (server \<times> bool \<times> exchange) res" where
  "server_poll yields (Serving n) ex = serve yields n ex"
| "server_poll yields (Listening n) ex = serve yields n ex"
| "server_poll yields (Closed n) ex = Inr (Closed n, False, ex)"

text \<open>
  The client: with \<open>ns\<close> still to be requested and \<open>out\<close> collected, at the head of its loop; in
  \<open>tx.send(oneshot_tx).await\<close> with what the \<open>Send\<close> future holds; after the first yield; in
  \<open>oneshot_rx.await\<close>; or ended.
\<close>

datatype client =
    Issuing "nat list" "nat list"
  | Requesting nat addr "addr option" "nat list" "nat list"
  | Requested nat addr "nat list" "nat list"
  | Expecting nat addr "nat list" "nat list"
  | Issued "nat list"

type_synonym client_loop = "nat list \<Rightarrow> exchange \<Rightarrow> (client \<times> bool \<times> exchange) res"

text \<open>
  \<open>let value = oneshot_rx.await\<close>, which drops the receiver once it is ready, and the rest of the
  loop's body; \<open>again\<close> is the next round.
\<close>

definition expect ::
  "(nat \<Rightarrow> bool) \<Rightarrow> client_loop \<Rightarrow> nat \<Rightarrow> addr \<Rightarrow> nat list \<Rightarrow> client_loop" where
  "expect yields3 again n shot ns out ex =
     and_then (on_shot shot (receiver_poll 1) ex) (\<lambda>(r, ex).
     case r of
       Pending \<Rightarrow> Inr (Expecting n shot ns out, False, ex)
     | Ready value \<Rightarrow>
         and_then (on_shot shot (quietly Oneshot.receiver_drop) ex) (\<lambda>(_, ex).
         let out = out @ (case value of None \<Rightarrow> [] | Some v \<Rightarrow> [v]) in
         if yields3 n then Inr (Issuing ns out, True, ex) else again out ex))"

text \<open>What follows a poll of the send: a refused oneshot sender is dropped with the error.\<close>

definition requested ::
  "(nat \<Rightarrow> bool) \<Rightarrow> client_loop \<Rightarrow> nat \<Rightarrow> addr \<Rightarrow> nat list \<Rightarrow>
   (unit, addr Spsc.send_error) result poll \<times> addr option \<Rightarrow> client_loop" where
  "requested yields5 rest n shot ns rv out ex =
     (case rv of
        (Pending, value) \<Rightarrow> Inr (Requesting n shot value ns out, False, ex)
      | (Ready r, _) \<Rightarrow>
          and_then (case r of
              Ok _ \<Rightarrow> Inr ((), ex)
            | Err e \<Rightarrow> on_shot (Spsc.unsent e) (quietly Oneshot.sender_drop) ex) (\<lambda>(_, ex).
          if yields5 n then Inr (Requested n shot ns out, True, ex) else rest out ex))"

definition sends :: "(addr spsc \<Rightarrow> ('r \<times> addr option \<times> addr spsc) res) \<Rightarrow> addr spsc \<Rightarrow> (('r \<times> addr option) \<times> addr spsc) res" where
  "sends f ch = and_then (f ch) (\<lambda>(r, value, ch). Inr ((r, value), ch))"

record yields =
  after_reply :: "nat \<Rightarrow> bool"
  after_request :: "nat \<Rightarrow> bool"
  after_answer :: "nat \<Rightarrow> bool"

fun issue :: "yields \<Rightarrow> nat list \<Rightarrow> client_loop" where
  "issue y [] out ex =
     and_then (on_line (quietly Spsc.sender_drop) ex) (\<lambda>(_, ex). Inr (Issued out, False, ex))"
| "issue y (n # ns) out ex =
     (let (shot, ex) = new_shot ex in
      and_then (on_line (sends (send_start shot 1)) ex) (\<lambda>(rv, ex).
      requested (after_request y) (expect (after_answer y) (\<lambda>out ex. issue y ns out ex) n shot ns) n shot ns rv out ex))"

fun client_poll :: "yields \<Rightarrow> client \<Rightarrow> exchange \<Rightarrow> (client \<times> bool \<times> exchange) res" where
  "client_poll y (Issuing ns out) ex = issue y ns out ex"
| "client_poll y (Requesting n shot value ns out) ex =
     and_then (on_line (sends (send_poll 1 value)) ex) (\<lambda>(rv, ex).
     requested (after_request y) (expect (after_answer y) (issue y ns) n shot ns) n shot ns rv out ex)"
| "client_poll y (Requested n shot ns out) ex = expect (after_answer y) (issue y ns) n shot ns out ex"
| "client_poll y (Expecting n shot ns out) ex = expect (after_answer y) (issue y ns) n shot ns out ex"
| "client_poll y (Issued out) ex = Inr (Issued out, False, ex)"

section \<open>The executor\<close>

record office =
  exchange :: exchange
  server :: server
  client :: client

fun is_closed :: "server \<Rightarrow> bool" where
  "is_closed (Closed n) = True"
| "is_closed _ = False"

fun is_issued :: "client \<Rightarrow> bool" where
  "is_issued (Issued out) = True"
| "is_issued _ = False"

definition runnable :: "waker \<Rightarrow> office \<Rightarrow> bool" where
  "runnable k S \<longleftrightarrow> k \<in> awake (exchange S) \<and>
     (k = 0 \<and> \<not> is_closed (server S) \<or> k = 1 \<and> \<not> is_issued (client S))"

text \<open>A task is run because it was woken; a yield wakes it again.\<close>

definition asleep :: "waker \<Rightarrow> exchange \<Rightarrow> exchange" where
  "asleep k ex = ex\<lparr>awake := awake ex - {k}\<rparr>"

definition rewake :: "waker \<Rightarrow> bool \<Rightarrow> exchange \<Rightarrow> exchange" where
  "rewake k again ex = (if again then ex\<lparr>awake := insert k (awake ex)\<rparr> else ex)"

definition run_office :: "yields \<Rightarrow> waker \<Rightarrow> office \<Rightarrow> office res" where
  "run_office y k S =
     (if k = 0
      then and_then (server_poll (after_reply y) (server S) (asleep 0 (exchange S))) (\<lambda>(s, again, ex).
        Inr (S\<lparr>exchange := rewake 0 again ex, server := s\<rparr>))
      else and_then (client_poll y (client S) (asleep 1 (exchange S))) (\<lambda>(c, again, ex).
        Inr (S\<lparr>exchange := rewake 1 again ex, client := c\<rparr>)))"

definition open_office :: "nat list \<Rightarrow> addr spsc \<Rightarrow> office" where
  "open_office ns ch =
     \<lparr>exchange = \<lparr>line = ch, shots = fmempty, created = 0, awake = {0, 1}\<rparr>,
      server = Serving 0, client = Issuing ns []\<rparr>"

definition office_start :: "nat list \<Rightarrow> office \<Rightarrow> bool" where
  "office_start ns S \<longleftrightarrow>
     (\<exists>alloc cap ch. (\<forall>n. n \<le> alloc n) \<and> Spsc.channel alloc cap = Inr ch \<and> S = open_office ns ch)"

inductive office_step :: "yields \<Rightarrow> office \<Rightarrow> office \<Rightarrow> bool" for y where
  run_office: "runnable k S \<Longrightarrow> run_office y k S = Inr S' \<Longrightarrow> office_step y S S'"

inductive_cases office_stepE: "office_step y S S'"

text \<open>The test, with its size, and the benchmark of the crate with its.\<close>

definition test_yields :: yields where
  "test_yields = \<lparr>after_reply = (\<lambda>n. n mod 7 = 0), after_request = (\<lambda>n. n mod 5 = 0),
     after_answer = (\<lambda>n. n mod 3 = 0)\<rparr>"

definition test_oneshot :: "nat \<Rightarrow> (nat \<Rightarrow> nat) \<Rightarrow> office res" where
  "test_oneshot n alloc = and_then (Spsc.channel alloc 2) (\<lambda>ch. Inr (open_office [0..<n] ch))"

definition bench_unsync :: "nat \<Rightarrow> (nat \<Rightarrow> nat) \<Rightarrow> office res" where
  "bench_unsync n alloc = and_then (Spsc.channel alloc 1) (\<lambda>ch. Inr (open_office [0..<n] ch))"

fun run_offices :: "yields \<Rightarrow> waker list \<Rightarrow> office \<Rightarrow> office res" where
  "run_offices y [] S = Inr S"
| "run_offices y (k # ks) S =
     (if runnable k S then and_then (run_office y k S) (run_offices y ks) else Inl (Panic ''asleep''))"

section \<open>The calls of the tasks\<close>

text \<open>
  What each call does to the exchange, over the contract of the two channels.  Only the client
  sends on the line, and never finds it full, so the line's \<open>tx\<close> waker is never registered.
\<close>

lemma exchange_awake [simp]: "ex\<lparr>line := ch, awake := awake ex\<rparr> = ex\<lparr>line := ch\<rparr>"
  "ex\<lparr>shots := h, awake := awake ex\<rparr> = ex\<lparr>shots := h\<rparr>"
  by (cases ex, simp)+

lemma line_recv:
  assumes "bi_owned n sh (sp_rc (line ex))" and "0 < n" and "tx sh = None"
  shows "elems (buf sh) = [a] \<Longrightarrow> \<exists>ch. on_line (recv_poll 0) ex = Inr (Ready (Some a), ex\<lparr>line := ch\<rparr>) \<and>
      bi_owned n (sh\<lparr>buf := (buf sh)\<lparr>elems := []\<rparr>\<rparr>) (sp_rc ch)"
    and "elems (buf sh) = [] \<Longrightarrow> n = 2 \<Longrightarrow> \<exists>ch. on_line (recv_poll 0) ex = Inr (Pending, ex\<lparr>line := ch\<rparr>) \<and>
      bi_owned n (sh\<lparr>rx := Some 0\<rparr>) (sp_rc ch)"
    and "elems (buf sh) = [] \<Longrightarrow> n \<noteq> 2 \<Longrightarrow> \<exists>ch. on_line (recv_poll 0) ex = Inr (Ready None, ex\<lparr>line := ch\<rparr>) \<and>
      bi_owned n (sh\<lparr>rx := None\<rparr>) (sp_rc ch)"
proof -
  assume "elems (buf sh) = [a]"
  from recv_poll_eq(1) [OF assms(1,2) this, of 0] obtain rc where
    "recv_poll 0 (line ex) = Inr (Ready (Some a), wake_by_ref None ((line ex)\<lparr>sp_rc := rc\<rparr>))"
    "bi_owned n (sh\<lparr>buf := (buf sh)\<lparr>elems := []\<rparr>\<rparr>) rc"
    using assms(3) by auto
  then show "\<exists>ch. on_line (recv_poll 0) ex = Inr (Ready (Some a), ex\<lparr>line := ch\<rparr>) \<and>
      bi_owned n (sh\<lparr>buf := (buf sh)\<lparr>elems := []\<rparr>\<rparr>) (sp_rc ch)"
    by (auto simp: on_line_def)
next
  assume "elems (buf sh) = []" "n = 2"
  from recv_poll_eq(3) [OF assms(1,2) this, of 0] obtain rc where
    "recv_poll 0 (line ex) = Inr (Pending, wake_by_ref None ((line ex)\<lparr>sp_rc := rc\<rparr>))"
    "bi_owned n (sh\<lparr>rx := Some 0\<rparr>) rc"
    using assms(3) by auto
  then show "\<exists>ch. on_line (recv_poll 0) ex = Inr (Pending, ex\<lparr>line := ch\<rparr>) \<and>
      bi_owned n (sh\<lparr>rx := Some 0\<rparr>) (sp_rc ch)"
    by (auto simp: on_line_def)
next
  assume "elems (buf sh) = []" "n \<noteq> 2"
  from recv_poll_eq(2) [OF assms(1,2) this, of 0] obtain rc where
    "recv_poll 0 (line ex) = Inr (Ready None, (line ex)\<lparr>sp_rc := rc\<rparr>)" "bi_owned n (sh\<lparr>rx := None\<rparr>) rc"
    by auto
  then show "\<exists>ch. on_line (recv_poll 0) ex = Inr (Ready None, ex\<lparr>line := ch\<rparr>) \<and>
      bi_owned n (sh\<lparr>rx := None\<rparr>) (sp_rc ch)"
    by (auto simp: on_line_def)
qed

text \<open>Waking whoever is registered: a set of tasks to add to those awake.\<close>

abbreviation wakes :: "waker option \<Rightarrow> exchange \<Rightarrow> exchange" where
  "wakes w ex \<equiv> ex\<lparr>awake := awake ex \<union> set_option w\<rparr>"

lemma set_wakes [simp]: "set (case w of None \<Rightarrow> [] | Some k \<Rightarrow> [k]) = set_option w"
  by (cases w) simp_all

lemma line_close:
  assumes "bi_owned n sh (sp_rc (line ex))" and "0 < n"
  shows "\<exists>ch. on_line (quietly Spsc.sender_drop) ex = Inr ((), wakes (rx sh) (ex\<lparr>line := ch\<rparr>)) \<and>
      bi_owned (n - 1) (sh\<lparr>rx := None\<rparr>) (sp_rc ch)"
    and "\<exists>ch. on_line (quietly Spsc.receiver_drop) ex = Inr ((), wakes (tx sh) (ex\<lparr>line := ch\<rparr>)) \<and>
      bi_owned (n - 1) (sh\<lparr>tx := None\<rparr>) (sp_rc ch)"
  using sender_drop_eq [OF assms] Spsc.receiver_drop_eq [OF assms]
  by (auto simp: on_line_def quietly_def)

lemma line_send:
  assumes "bi_owned 2 sh (sp_rc (line ex))" and "\<not> at_capacity sh"
  shows "\<exists>ch. on_line (sends (send_start a 1)) ex = Inr ((Ready (Ok ()), None), wakes (rx sh) (ex\<lparr>line := ch\<rparr>)) \<and>
      bi_owned 2 (sh\<lparr>buf := vd_push_back a (buf sh)\<rparr>) (sp_rc ch)"
proof -
  from send_poll_eq(3) [OF assms(1) _ refl assms(2), of 1 a] obtain rc where
    "send_poll 1 (Some a) (line ex) = Inr (Ready (Ok ()), None, wake_by_ref (rx sh) ((line ex)\<lparr>sp_rc := rc\<rparr>))"
    "bi_owned 2 (sh\<lparr>buf := vd_push_back a (buf sh)\<rparr>) rc"
    by auto
  then show ?thesis by (auto simp: on_line_def sends_def send_start_def)
qed

text \<open>The same for a oneshot channel.\<close>

lemma shot_send:
  assumes "fmlookup (shots ex) a = Some os" and "bi_owned 2 osh (os_rc os)"
  shows "\<exists>os'. on_shot a (send n) ex = Inr (Ok (), wakes (os_waker osh) (ex\<lparr>shots := fmupd a os' (shots ex)\<rparr>)) \<and>
      bi_owned 1 \<lparr>os_waker = None, os_buf = Some n\<rparr> (os_rc os')"
proof -
  from Oneshot.send_eq [OF assms(2), of n] obtain rc where
    "send n os = Inr (Ok (), \<lparr>os_rc = rc, os_woken = os_woken os @ (case os_waker osh of None \<Rightarrow> [] | Some k \<Rightarrow> [k])\<rparr>)"
    "bi_owned 1 (osh\<lparr>os_waker := None, os_buf := Some n\<rparr>) rc"
    by auto
  then show ?thesis
    using assms(1) by (cases osh) (auto simp: on_shot_def)
qed

lemma shot_poll:
  assumes "fmlookup (shots ex) a = Some os"
  shows "bi_owned 2 osh (os_rc os) \<Longrightarrow> os_buf osh = None \<Longrightarrow>
      \<exists>os'. on_shot a (receiver_poll 1) ex = Inr (Pending, ex\<lparr>shots := fmupd a os' (shots ex)\<rparr>) \<and>
      bi_owned 2 (osh\<lparr>os_waker := Some 1\<rparr>) (os_rc os')"
    and "bi_owned 1 osh (os_rc os) \<Longrightarrow> os_buf osh = Some v \<Longrightarrow>
      \<exists>os'. on_shot a (receiver_poll 1) ex = Inr (Ready (Some v), ex\<lparr>shots := fmupd a os' (shots ex)\<rparr>) \<and>
      bi_owned 1 (osh\<lparr>os_buf := None\<rparr>) (os_rc os')"
proof -
  assume "bi_owned 2 osh (os_rc os)" "os_buf osh = None"
  with receiver_poll_eq [of 2 osh os 1] assms
  show "\<exists>os'. on_shot a (receiver_poll 1) ex = Inr (Pending, ex\<lparr>shots := fmupd a os' (shots ex)\<rparr>) \<and>
      bi_owned 2 (osh\<lparr>os_waker := Some 1\<rparr>) (os_rc os')"
    by (auto simp: on_shot_def)
next
  assume "bi_owned 1 osh (os_rc os)" "os_buf osh = Some v"
  with receiver_poll_eq [of 1 osh os 1] assms
  show "\<exists>os'. on_shot a (receiver_poll 1) ex = Inr (Ready (Some v), ex\<lparr>shots := fmupd a os' (shots ex)\<rparr>) \<and>
      bi_owned 1 (osh\<lparr>os_buf := None\<rparr>) (os_rc os')"
    by (auto simp: on_shot_def)
qed

lemma shot_close:
  assumes "fmlookup (shots ex) a = Some os" and "bi_owned 1 osh (os_rc os)"
  shows "\<exists>os'. on_shot a (quietly Oneshot.receiver_drop) ex =
        Inr ((), wakes (os_waker osh) (ex\<lparr>shots := fmupd a os' (shots ex)\<rparr>)) \<and> os_rc os' = None"
  using end_drop_eq [OF assms(2), of Oneshot.receiver_drop] assms(1)
  by (auto simp: on_shot_def quietly_def bi_owned_def split: option.splits)

section \<open>The invariant\<close>

definition freed :: "addr option \<Rightarrow> exchange \<Rightarrow> bool" where
  "freed cur ex \<longleftrightarrow> (\<forall>a os. fmlookup (shots ex) a = Some os \<longrightarrow>
     a < created ex \<and> (cur \<noteq> Some a \<longrightarrow> os_rc os = None))"

text \<open>
  Between a request and its answer: the request is on the line and both ends of its channel are
  there, or the server has answered and the value is in the channel.  \<open>m\<close> requests are answered.
\<close>

definition asked :: "nat \<Rightarrow> nat \<Rightarrow> addr \<Rightarrow> nat list \<Rightarrow> nat list \<Rightarrow> exchange \<Rightarrow> addr Spsc.shared \<Rightarrow> bool" where
  "asked N m a ns out ex sh \<longleftrightarrow>
     out = [0..<m] \<and> Suc (m + length ns) = N \<and> elems (buf sh) = [a] \<and>
     (\<exists>os osh. fmlookup (shots ex) a = Some os \<and> bi_owned 2 osh (os_rc os) \<and> os_buf osh = None \<and>
        os_waker osh \<in> {None, Some 1} \<and> (1 \<notin> awake ex \<longrightarrow> os_waker osh = Some 1))"

definition answered :: "nat \<Rightarrow> nat \<Rightarrow> addr \<Rightarrow> nat list \<Rightarrow> nat list \<Rightarrow> exchange \<Rightarrow> addr Spsc.shared \<Rightarrow> bool" where
  "answered N m a ns out ex sh \<longleftrightarrow>
     elems (buf sh) = [] \<and> 1 \<in> awake ex \<and> m + length ns = N \<and>
     (\<exists>j os. m = Suc j \<and> out = [0..<j] \<and> fmlookup (shots ex) a = Some os \<and>
        bi_owned 1 \<lparr>os_waker = None, os_buf = Some j\<rparr> (os_rc os))"

definition between :: "nat \<Rightarrow> nat \<Rightarrow> addr \<Rightarrow> nat list \<Rightarrow> nat list \<Rightarrow> exchange \<Rightarrow> addr Spsc.shared \<Rightarrow> bool" where
  "between N m a ns out ex sh \<longleftrightarrow>
     freed (Some a) ex \<and> (asked N m a ns out ex sh \<or> answered N m a ns out ex sh)"

text \<open>Where the client can be, with \<open>N\<close> requests to make.\<close>

fun placed :: "nat \<Rightarrow> nat \<Rightarrow> client \<Rightarrow> exchange \<Rightarrow> addr Spsc.shared \<Rightarrow> bool" where
  "placed N m (Issuing ns out) ex sh \<longleftrightarrow>
     out = [0..<m] \<and> m + length ns = N \<and> elems (buf sh) = [] \<and> freed None ex \<and> 1 \<in> awake ex"
| "placed N m (Requesting n a value ns out) ex sh \<longleftrightarrow> False"
| "placed N m (Requested n a ns out) ex sh \<longleftrightarrow> between N m a ns out ex sh \<and> 1 \<in> awake ex"
| "placed N m (Expecting n a ns out) ex sh \<longleftrightarrow> between N m a ns out ex sh"
| "placed N m (Issued out) ex sh \<longleftrightarrow> out = [0..<N] \<and> m = N \<and> elems (buf sh) = [] \<and> freed None ex"

fun replies :: "server \<Rightarrow> nat" where
  "replies (Serving n) = n"
| "replies (Listening n) = n"
| "replies (Closed n) = n"

definition office_holds :: "nat \<Rightarrow> nat \<Rightarrow> office \<Rightarrow> addr Spsc.shared \<Rightarrow> bool" where
  "office_holds b N S sh \<longleftrightarrow>
     bi_owned (of_bool (\<not> is_issued (client S)) + of_bool (\<not> is_closed (server S))) sh (sp_rc (line (exchange S))) \<and>
     fits (Some b) sh \<and> tx sh = None \<and> rx sh \<in> {None, Some 0} \<and>
     placed N (replies (server S)) (client S) (exchange S) sh \<and>
     (is_closed (server S) \<longrightarrow> is_issued (client S)) \<and>
     (0 \<notin> awake (exchange S) \<and> \<not> is_closed (server S) \<longrightarrow>
        elems (buf sh) = [] \<and> \<not> is_issued (client S) \<and> rx sh = Some 0)"

definition office_inv :: "nat \<Rightarrow> office \<Rightarrow> bool" where
  "office_inv N S \<longleftrightarrow> (\<exists>b sh. office_holds b N S sh)"

definition office_done :: "office \<Rightarrow> bool" where
  "office_done S \<longleftrightarrow> is_issued (client S) \<and> is_closed (server S)"

fun client_work :: "client \<Rightarrow> nat" where
  "client_work (Issuing ns out) = 4 * length ns + 1"
| "client_work (Requesting n a value ns out) = 4 * length ns + 4"
| "client_work (Requested n a ns out) = 4 * length ns + 3"
| "client_work (Expecting n a ns out) = 4 * length ns + 2"
| "client_work (Issued out) = 0"

fun server_work :: "nat \<Rightarrow> server \<Rightarrow> nat" where
  "server_work N (Serving n) = 2 * (N - n) + 2"
| "server_work N (Listening n) = 2 * (N - n) + 1"
| "server_work N (Closed n) = 0"

definition office_work :: "nat \<Rightarrow> office \<Rightarrow> nat" where
  "office_work N S = 4 * (client_work (client S) + server_work N (server S)) +
     2 * of_bool (0 \<in> awake (exchange S)) + of_bool (1 \<in> awake (exchange S))"

section \<open>What a run of a task does\<close>

lemma serve_empty:
  assumes "bi_owned 2 sh (sp_rc (line ex))" and "tx sh = None" and "elems (buf sh) = []"
  shows "\<exists>ch. serve y n ex = Inr (Listening n, False, ex\<lparr>line := ch\<rparr>) \<and> bi_owned 2 (sh\<lparr>rx := Some 0\<rparr>) (sp_rc ch)"
  using line_recv(2) [OF assms(1) _ assms(2,3)] by (auto simp: serve.simps [of y n ex])

lemma serve_end:
  assumes "bi_owned 1 sh (sp_rc (line ex))" and "tx sh = None" and "elems (buf sh) = []"
  shows "\<exists>ch. serve y n ex = Inr (Closed n, False, ex\<lparr>line := ch\<rparr>) \<and> bi_owned 0 (sh\<lparr>rx := None, tx := None\<rparr>) (sp_rc ch)"
proof -
  from line_recv(3) [OF assms(1) _ assms(2,3)] obtain ch where
    1: "on_line (recv_poll 0) ex = Inr (Ready None, ex\<lparr>line := ch\<rparr>)" "bi_owned 1 (sh\<lparr>rx := None\<rparr>) (sp_rc ch)"
    by auto
  from line_close(2) [of 1 "sh\<lparr>rx := None\<rparr>" "ex\<lparr>line := ch\<rparr>"] 1(2) assms(2) obtain ch' where
    "on_line (quietly Spsc.receiver_drop) (ex\<lparr>line := ch\<rparr>) = Inr ((), ex\<lparr>line := ch'\<rparr>)"
    "bi_owned 0 (sh\<lparr>rx := None, tx := None\<rparr>) (sp_rc ch')"
    by auto
  with 1(1) show ?thesis by (auto simp: serve.simps [of y n ex])
qed

lemma serve_request:
  assumes "bi_owned 2 sh (sp_rc (line ex))" and "tx sh = None" and "elems (buf sh) = [a]"
    and "fmlookup (shots ex) a = Some os" and "bi_owned 2 osh (os_rc os)"
  shows "\<exists>ch os'. serve y n ex = Inr (if y n then Serving (Suc n) else Listening (Suc n), y n,
        wakes (os_waker osh) (ex\<lparr>line := ch, shots := fmupd a os' (shots ex)\<rparr>)) \<and>
      bi_owned 2 (sh\<lparr>buf := (buf sh)\<lparr>elems := []\<rparr>, rx := (if y n then rx sh else Some 0)\<rparr>) (sp_rc ch) \<and>
      bi_owned 1 \<lparr>os_waker = None, os_buf = Some n\<rparr> (os_rc os')"
proof -
  let ?sh = "sh\<lparr>buf := (buf sh)\<lparr>elems := []\<rparr>\<rparr>"
  from line_recv(1) [OF assms(1) _ assms(2,3)] obtain ch where
    1: "on_line (recv_poll 0) ex = Inr (Ready (Some a), ex\<lparr>line := ch\<rparr>)" "bi_owned 2 ?sh (sp_rc ch)"
    by auto
  from shot_send [of "ex\<lparr>line := ch\<rparr>" a os osh n] assms(4,5) obtain os' where
    2: "on_shot a (send n) (ex\<lparr>line := ch\<rparr>) =
        Inr (Ok (), wakes (os_waker osh) (ex\<lparr>line := ch, shots := fmupd a os' (shots ex)\<rparr>))"
      "bi_owned 1 \<lparr>os_waker = None, os_buf = Some n\<rparr> (os_rc os')"
    by auto
  show ?thesis
  proof (cases "y n")
    case True
    with 1 2 show ?thesis
      by (intro exI [of _ ch] exI [of _ os']) (cases sh, simp add: serve.simps [of y n ex])
  next
    case False
    let ?ex = "wakes (os_waker osh) (ex\<lparr>line := ch, shots := fmupd a os' (shots ex)\<rparr>)"
    from serve_empty [of ?sh ?ex y "Suc n"] 1(2) assms(2) obtain ch' where
      "serve y (Suc n) ?ex = Inr (Listening (Suc n), False, ?ex\<lparr>line := ch'\<rparr>)"
      "bi_owned 2 (?sh\<lparr>rx := Some 0\<rparr>) (sp_rc ch')"
      by auto
    with 1 2 False show ?thesis
      by (intro exI [of _ ch'] exI [of _ os']) (simp add: serve.simps [of y n ex])
  qed
qed

lemma issue_end:
  assumes "bi_owned n sh (sp_rc (line ex))" and "0 < n"
  shows "\<exists>ch. issue y [] out ex = Inr (Issued out, False, wakes (rx sh) (ex\<lparr>line := ch\<rparr>)) \<and>
      bi_owned (n - 1) (sh\<lparr>rx := None\<rparr>) (sp_rc ch)"
  using line_close(1) [OF assms] by auto

lemma expect_asked:
  assumes "fmlookup (shots ex) a = Some os" and "bi_owned 2 osh (os_rc os)" and "os_buf osh = None"
  shows "\<exists>os'. expect y again n a ns out ex =
        Inr (Expecting n a ns out, False, ex\<lparr>shots := fmupd a os' (shots ex)\<rparr>) \<and>
      bi_owned 2 (osh\<lparr>os_waker := Some 1\<rparr>) (os_rc os')"
  using shot_poll(1) [OF assms] by (auto simp: expect_def)

lemma expect_answered:
  assumes "fmlookup (shots ex) a = Some os" and "bi_owned 1 \<lparr>os_waker = None, os_buf = Some v\<rparr> (os_rc os)"
  shows "\<exists>os'. expect y again n a ns out ex =
        (if y n then Inr (Issuing ns (out @ [v]), True, ex\<lparr>shots := fmupd a os' (shots ex)\<rparr>)
         else again (out @ [v]) (ex\<lparr>shots := fmupd a os' (shots ex)\<rparr>)) \<and> os_rc os' = None"
proof -
  from shot_poll(2) [OF assms(1,2)] obtain os1 where
    1: "on_shot a (receiver_poll 1) ex = Inr (Ready (Some v), ex\<lparr>shots := fmupd a os1 (shots ex)\<rparr>)"
      "bi_owned 1 \<lparr>os_waker = None, os_buf = None\<rparr> (os_rc os1)"
    by auto
  from shot_close [of "ex\<lparr>shots := fmupd a os1 (shots ex)\<rparr>" a os1, OF _ 1(2)] obtain os2 where
    "on_shot a (quietly Oneshot.receiver_drop) (ex\<lparr>shots := fmupd a os1 (shots ex)\<rparr>) =
      Inr ((), ex\<lparr>shots := fmupd a os2 (fmupd a os1 (shots ex))\<rparr>)" "os_rc os2 = None"
    by auto
  moreover have "fmupd a os2 (fmupd a os1 (shots ex)) = fmupd a os2 (shots ex)" by (rule fmap_ext) simp
  ultimately show ?thesis using 1(1) by (auto simp: expect_def Let_def)
qed

lemma issue_next:
  assumes "bi_owned 2 sh (sp_rc (line ex))" and "\<not> at_capacity sh"
  shows "\<exists>ch os osh. issue y (n # ns) out ex =
        Inr (if after_request y n then Requested n (created ex) ns out else Expecting n (created ex) ns out,
          after_request y n,
          wakes (rx sh) (ex\<lparr>line := ch, shots := fmupd (created ex) os (shots ex), created := Suc (created ex)\<rparr>)) \<and>
      bi_owned 2 (sh\<lparr>buf := vd_push_back (created ex) (buf sh)\<rparr>) (sp_rc ch) \<and>
      bi_owned 2 osh (os_rc os) \<and> os_buf osh = None \<and>
      os_waker osh = (if after_request y n then None else Some 1)"
proof -
  let ?a = "created ex" and ?os = "Oneshot.channel :: nat oneshot"
  let ?ex = "ex\<lparr>shots := fmupd ?a ?os (shots ex), created := Suc ?a\<rparr>"
  have new: "bi_owned 2 \<lparr>os_waker = None, os_buf = None :: nat option\<rparr> (os_rc ?os)"
    using rc.make_law by (simp add: Oneshot.channel_def)
  from line_send [of sh ?ex ?a] assms obtain ch where
    s: "on_line (sends (send_start ?a 1)) ?ex = Inr ((Ready (Ok ()), None), wakes (rx sh) (?ex\<lparr>line := ch\<rparr>))"
      "bi_owned 2 (sh\<lparr>buf := vd_push_back ?a (buf sh)\<rparr>) (sp_rc ch)"
    by auto
  show ?thesis
  proof (cases "after_request y n")
    case True
    with s new show ?thesis
      by (intro exI [of _ ch] exI [of _ ?os] exI [of _ "\<lparr>os_waker = None, os_buf = None\<rparr>"])
        (simp add: new_shot_def requested_def)
  next
    case False
    let ?ex' = "wakes (rx sh) (?ex\<lparr>line := ch\<rparr>)"
    from expect_asked [of ?ex' ?a ?os _ "after_answer y" "issue y ns" n ns out, OF _ new] obtain os' where
      e: "expect (after_answer y) (issue y ns) n ?a ns out ?ex' =
          Inr (Expecting n ?a ns out, False, ?ex'\<lparr>shots := fmupd ?a os' (shots ?ex')\<rparr>)"
        "bi_owned 2 \<lparr>os_waker = Some 1, os_buf = None\<rparr> (os_rc os')"
      by auto
    have "fmupd ?a os' (fmupd ?a ?os (shots ex)) = fmupd ?a os' (shots ex)" by (rule fmap_ext) simp
    with s e False show ?thesis
      by (intro exI [of _ ch] exI [of _ os'] exI [of _ "\<lparr>os_waker = Some 1, os_buf = None\<rparr>"])
        (simp add: new_shot_def requested_def)
  qed
qed

section \<open>The executor keeps the invariant\<close>

lemma placed_cong:
  assumes "shots ex' = shots ex" and "created ex' = created ex" and "1 \<in> awake ex' \<longleftrightarrow> 1 \<in> awake ex"
    and "elems (buf sh') = elems (buf sh)"
  shows "placed N m c ex' sh' = placed N m c ex sh"
  using assms by (cases c) (simp_all add: between_def asked_def answered_def freed_def)

lemma placed_request:
  assumes "placed N m c ex sh" and "elems (buf sh) \<noteq> []"
  obtains n a ns out where "c = Requested n a ns out \<and> 1 \<in> awake ex \<or> c = Expecting n a ns out"
    "freed (Some a) ex" "asked N m a ns out ex sh"
  using assms by (cases c) (auto simp: between_def answered_def)

text \<open>The server's answer to a request puts the client where its answer is.\<close>

lemma asked_answered:
  assumes "c = Requested n a ns out \<and> 1 \<in> awake ex \<or> c = Expecting n a ns out"
    and "freed (Some a) ex" and "asked N m a ns out ex sh"
    and "shots ex' = fmupd a os' (shots ex)" and "created ex' = created ex"
    and "bi_owned 1 \<lparr>os_waker = None, os_buf = Some m\<rparr> (os_rc os')"
    and "1 \<in> awake ex'" and "elems (buf sh') = []"
  shows "placed N (Suc m) c ex' sh'"
proof -
  have "freed (Some a) ex'" using assms(2-5) by (auto simp: freed_def asked_def)
  moreover have "answered N (Suc m) a ns out ex' sh'"
    using assms(3,4,6-8) by (auto simp: answered_def asked_def)
  ultimately show ?thesis using assms(1,7) by (auto simp: between_def)
qed

definition runs_well :: "nat \<Rightarrow> office \<Rightarrow> office res \<Rightarrow> bool" where
  "runs_well N S res \<longleftrightarrow> (\<exists>T. res = Inr T \<and> office_inv N T \<and> office_work N T < office_work N S)"

lemma runs_wellI:
  "res = Inr T \<Longrightarrow> office_holds b N T sh \<Longrightarrow> office_work N T < office_work N S \<Longrightarrow> runs_well N S res"
  unfolding runs_well_def office_inv_def by blast

lemma server_awake:
  assumes "office_holds b N S sh" and "runnable 0 S" and ex: "ex = asleep 0 (exchange S)"
  shows "0 \<in> awake (exchange S)" and "\<not> is_closed (server S)" and "awake ex = awake (exchange S) - {0}"
    and "bi_owned (if is_issued (client S) then 1 else 2) sh (sp_rc (line ex))" and "fits (Some b) sh" and "tx sh = None"
    and "rx sh \<in> {None, Some 0}" and "placed N (replies (server S)) (client S) ex sh"
    and "run_office y 0 S = and_then (serve (after_reply y) (replies (server S)) ex) (\<lambda>(s, again, ex).
      Inr (S\<lparr>exchange := rewake 0 again ex, server := s\<rparr>))"
proof -
  show a: "0 \<in> awake (exchange S)" and c: "\<not> is_closed (server S)" using assms(2) by (auto simp: runnable_def)
  have exs: "line ex = line (exchange S)" "shots ex = shots (exchange S)" "created ex = created (exchange S)"
    and w: "awake ex = awake (exchange S) - {0}"
    by (simp_all add: ex asleep_def)
  show "awake ex = awake (exchange S) - {0}" by (rule w)
  show "bi_owned (if is_issued (client S) then 1 else 2) sh (sp_rc (line ex))" "fits (Some b) sh" "tx sh = None"
    "rx sh \<in> {None, Some 0}"
    using assms(1) c unfolding office_holds_def exs(1) by (cases "is_issued (client S)"; simp add: numeral_2_eq_2)+
  have "placed N (replies (server S)) (client S) (exchange S) sh"
    using assms(1) c unfolding office_holds_def by (cases "is_issued (client S)"; simp)
  then show "placed N (replies (server S)) (client S) ex sh"
    by (subst placed_cong [where ex = "exchange S" and sh = sh]) (simp_all add: exs w)
  have "server_poll y' (server S) ex = serve y' (replies (server S)) ex" for y' using c by (cases "server S") simp_all
  then show "run_office y 0 S = and_then (serve (after_reply y) (replies (server S)) ex) (\<lambda>(s, again, ex).
      Inr (S\<lparr>exchange := rewake 0 again ex, server := s\<rparr>))"
    unfolding run_office_def ex [symmetric] by simp
qed

text \<open>The client is gone: the server closes.\<close>

lemma server_closes:
  assumes "office_holds b N S sh" and "runnable 0 S" and "elems (buf sh) = []" and iss: "is_issued (client S)"
  shows "runs_well N S (run_office y 0 S)"
proof -
  obtain ex where ex: "ex = asleep 0 (exchange S)" by blast
  note k = server_awake [OF assms(1,2) ex]
  let ?m = "replies (server S)"
  from k(4) serve_end [of sh ex "after_reply y" ?m] k(6) assms(3) iss obtain ch where
    s: "serve (after_reply y) ?m ex = Inr (Closed ?m, False, ex\<lparr>line := ch\<rparr>)"
    "bi_owned 0 (sh\<lparr>rx := None, tx := None\<rparr>) (sp_rc ch)" by auto
  obtain T where T: "T = S\<lparr>exchange := ex\<lparr>line := ch\<rparr>, server := Closed ?m\<rparr>" by blast
  have "run_office y 0 S = Inr T" by (simp add: k(9) s(1) rewake_def T)
  moreover have "placed N ?m (client S) (ex\<lparr>line := ch\<rparr>) (sh\<lparr>rx := None, tx := None\<rparr>)"
    using k(8) by (subst placed_cong [where ex = ex and sh = sh]) simp_all
  then have "office_holds b N T (sh\<lparr>rx := None, tx := None\<rparr>)"
    using s(2) k(5) iss by (simp add: office_holds_def T)
  moreover have "1 \<le> server_work N (server S)" using k(2) by (cases "server S") simp_all
  then have "office_work N T < office_work N S" using k(1,3) by (simp add: office_work_def T)
  ultimately show ?thesis by (rule runs_wellI)
qed

text \<open>There is nothing to do yet.\<close>

lemma server_waits:
  assumes "office_holds b N S sh" and "runnable 0 S" and "elems (buf sh) = []" and iss: "\<not> is_issued (client S)"
  shows "runs_well N S (run_office y 0 S)"
proof -
  obtain ex where ex: "ex = asleep 0 (exchange S)" by blast
  note k = server_awake [OF assms(1,2) ex]
  let ?m = "replies (server S)"
  from k(4) serve_empty [of sh ex "after_reply y" ?m] k(6) assms(3) iss obtain ch where
    s: "serve (after_reply y) ?m ex = Inr (Listening ?m, False, ex\<lparr>line := ch\<rparr>)"
    "bi_owned 2 (sh\<lparr>rx := Some 0\<rparr>) (sp_rc ch)" by auto
  obtain T where T: "T = S\<lparr>exchange := ex\<lparr>line := ch\<rparr>, server := Listening ?m\<rparr>" by blast
  have "run_office y 0 S = Inr T" by (simp add: k(9) s(1) rewake_def T)
  moreover have "placed N ?m (client S) (ex\<lparr>line := ch\<rparr>) (sh\<lparr>rx := Some 0\<rparr>)"
    using k(8) by (subst placed_cong [where ex = ex and sh = sh]) simp_all
  then have "office_holds b N T (sh\<lparr>rx := Some 0\<rparr>)"
    using s(2) k(5,6) iss assms(3) by (simp add: office_holds_def T numeral_2_eq_2)
  moreover have "server_work N (Listening ?m) \<le> server_work N (server S)" using k(2) by (cases "server S") simp_all
  then have "office_work N T < office_work N S" using k(1,3) by (simp add: office_work_def T)
  ultimately show ?thesis by (rule runs_wellI)
qed

text \<open>A request is in the channel: the server answers it, and goes on or yields.\<close>

lemma server_replies:
  assumes "office_holds b N S sh" and "runnable 0 S" and ne: "elems (buf sh) \<noteq> []"
  shows "runs_well N S (run_office y 0 S)"
proof -
  obtain ex where ex: "ex = asleep 0 (exchange S)" by blast
  note k = server_awake [OF assms(1,2) ex]
  let ?m = "replies (server S)"
  from placed_request [OF k(8) ne] obtain n r ns out where
    c: "client S = Requested n r ns out \<and> 1 \<in> awake ex \<or> client S = Expecting n r ns out"
    "freed (Some r) ex" "asked N ?m r ns out ex sh" .
  from c(3) obtain os osh where o: "elems (buf sh) = [r]" "fmlookup (shots ex) r = Some os" "bi_owned 2 osh (os_rc os)"
    "os_waker osh \<in> {None, Some 1}" "1 \<notin> awake ex \<longrightarrow> os_waker osh = Some 1" "?m < N"
    by (auto simp: asked_def)
  have iss: "\<not> is_issued (client S)" using c(1) by auto
  let ?again = "after_reply y ?m" and ?s = "if after_reply y ?m then Serving (Suc ?m) else Listening (Suc ?m)"
  let ?sh = "sh\<lparr>buf := (buf sh)\<lparr>elems := []\<rparr>, rx := (if ?again then rx sh else Some 0)\<rparr>"
  from serve_request [of sh ex r os osh "after_reply y" ?m] k(4,6) iss o(1-3) obtain ch os' where
    s: "serve (after_reply y) ?m ex = Inr (?s, ?again,
        wakes (os_waker osh) (ex\<lparr>line := ch, shots := fmupd r os' (shots ex)\<rparr>))"
    "bi_owned 2 ?sh (sp_rc ch)" "bi_owned 1 \<lparr>os_waker = None, os_buf = Some ?m\<rparr> (os_rc os')" by auto
  obtain ex' where ex': "ex' = rewake 0 ?again (wakes (os_waker osh) (ex\<lparr>line := ch, shots := fmupd r os' (shots ex)\<rparr>))"
    by blast
  have aw: "awake ex' = awake ex \<union> set_option (os_waker osh) \<union> (if ?again then {0} else {})"
    and exs': "line ex' = ch" "shots ex' = fmupd r os' (shots ex)" "created ex' = created ex"
    by (simp_all add: ex' rewake_def)
  obtain T where T: "T = S\<lparr>exchange := ex', server := ?s\<rparr>" by blast
  have "run_office y 0 S = Inr T" by (simp add: k(9) s(1) T ex')
  moreover have "placed N (Suc ?m) (client S) ex' ?sh"
    using o(4,5) aw by (intro asked_answered [OF c exs'(2,3) s(3)]) auto
  then have "office_holds b N T ?sh"
    using s(2) k(5-7) iss fits_pop [OF o(1) k(5)] aw exs'(1)
    by (simp add: office_holds_def T numeral_2_eq_2 split: if_splits)
  moreover have "server_work N ?s + 1 \<le> server_work N (server S)" using k(2) o(6) by (cases "server S") auto
  then have "office_work N T < office_work N S" using k(1) by (simp add: office_work_def T of_bool_def)
  ultimately show ?thesis by (rule runs_wellI)
qed

lemma server_runs:
  assumes "office_holds b N S sh" and "runnable 0 S"
  shows "runs_well N S (run_office y 0 S)"
  using server_closes [OF assms] server_waits [OF assms] server_replies [OF assms] by blast

text \<open>
  The client, which leaves the server as it is and has \<open>w\<close> to do, gets somewhere: closer to its end,
  or nowhere because it was woken for nothing, and then it wakes nobody.
\<close>

definition lands :: "nat \<Rightarrow> nat \<Rightarrow> server \<Rightarrow> nat \<Rightarrow> waker set \<Rightarrow> (client \<times> bool \<times> exchange) res \<Rightarrow> bool" where
  "lands b N s w ws res \<longleftrightarrow> (\<exists>c again ex sh. res = Inr (c, again, ex) \<and>
     office_holds b N \<lparr>exchange = rewake 1 again ex, server = s, client = c\<rparr> sh \<and>
     (client_work c < w \<or> client_work c = w \<and> \<not> again \<and> awake ex = ws))"

lemma landsI:
  "res = Inr (c, again, ex) \<Longrightarrow> office_holds b N \<lparr>exchange = rewake 1 again ex, server = s, client = c\<rparr> sh \<Longrightarrow>
     client_work c < w \<or> client_work c = w \<and> \<not> again \<and> awake ex = ws \<Longrightarrow> lands b N s w ws res"
  unfolding lands_def by blast

lemma lands_less:
  assumes "lands b N s w ws res" and "w < w'"
  shows "lands b N s w' ws' res"
proof -
  from assms(1) obtain c again ex sh where "res = Inr (c, again, ex)"
    "office_holds b N \<lparr>exchange = rewake 1 again ex, server = s, client = c\<rparr> sh" "client_work c \<le> w"
    unfolding lands_def by force
  with assms(2) landsI [of res c again ex b N s sh w' ws'] show ?thesis by simp
qed

lemma freed_new: "freed None ex \<Longrightarrow> shots ex' = fmupd (created ex) os (shots ex) \<Longrightarrow> created ex' = Suc (created ex) \<Longrightarrow>
    freed (Some (created ex)) ex'"
  by (auto simp: freed_def less_Suc_eq)

lemma freed_old: "freed (Some a) ex \<Longrightarrow> fmlookup (shots ex) a = Some old \<Longrightarrow> shots ex' = fmupd a os (shots ex) \<Longrightarrow>
    created ex' = created ex \<Longrightarrow> (cur \<noteq> Some a \<longrightarrow> os_rc os = None) \<Longrightarrow> freed cur ex'"
  by (auto simp: freed_def)

lemma rewake_simps [simp]:
  "line (rewake k again ex) = line ex" "shots (rewake k again ex) = shots ex" "created (rewake k again ex) = created ex"
  "awake (rewake k again ex) = awake ex \<union> (if again then {k} else {})"
  by (simp_all add: rewake_def)

text \<open>At the head of the loop, with everything asked answered.\<close>

definition at_head :: "nat \<Rightarrow> nat \<Rightarrow> server \<Rightarrow> nat list \<Rightarrow> exchange \<Rightarrow> addr Spsc.shared \<Rightarrow> bool" where
  "at_head b N s ns ex sh \<longleftrightarrow>
     bi_owned 2 sh (sp_rc (line ex)) \<and> fits (Some b) sh \<and> tx sh = None \<and> rx sh \<in> {None, Some 0} \<and>
     \<not> is_closed s \<and> (0 \<notin> awake ex \<longrightarrow> rx sh = Some 0) \<and>
     elems (buf sh) = [] \<and> replies s + length ns = N \<and> freed None ex"

lemma head_yields:
  assumes "at_head b N s ns ex sh"
  shows "office_holds b N \<lparr>exchange = rewake 1 True ex, server = s, client = Issuing ns [0..<replies s]\<rparr> sh"
  using assms by (auto simp: at_head_def office_holds_def numeral_2_eq_2 freed_def)

lemma issue_lands:
  assumes "at_head b N s ns ex sh"
  shows "lands b N s (4 * length ns + 1) ws (issue y ns [0..<replies s] ex)"
proof -
  note h = assms [unfolded at_head_def]
  have own: "bi_owned 2 sh (sp_rc (line ex))" using h by blast
  show ?thesis
  proof (cases ns)
    case Nil
    from issue_end [OF own] obtain ch where
      i: "issue y [] [0..<replies s] ex = Inr (Issued [0..<replies s], False, wakes (rx sh) (ex\<lparr>line := ch\<rparr>))"
      "bi_owned 1 (sh\<lparr>rx := None\<rparr>) (sp_rc ch)" by auto
    have "freed None (wakes (rx sh) (ex\<lparr>line := ch\<rparr>))" using h by (simp add: freed_def)
    then have "office_holds b N \<lparr>exchange = rewake 1 False (wakes (rx sh) (ex\<lparr>line := ch\<rparr>)), server = s,
        client = Issued [0..<replies s]\<rparr> (sh\<lparr>rx := None\<rparr>)"
      using i(2) h Nil by (auto simp: office_holds_def freed_def)
    with landsI [OF i(1)] Nil show ?thesis by simp
  next
    case (Cons n ms)
    have cap: "\<not> at_capacity sh" using h by (auto simp: at_capacity_def fits_def vd_len_def)
    from issue_next [OF own cap, of y n ms "[0..<replies s]"] obtain ch os osh where
      i: "issue y (n # ms) [0..<replies s] ex = Inr (
          if after_request y n then Requested n (created ex) ms [0..<replies s] else Expecting n (created ex) ms [0..<replies s],
          after_request y n,
          wakes (rx sh) (ex\<lparr>line := ch, shots := fmupd (created ex) os (shots ex), created := Suc (created ex)\<rparr>))"
      and o: "bi_owned 2 (sh\<lparr>buf := vd_push_back (created ex) (buf sh)\<rparr>) (sp_rc ch)" "bi_owned 2 osh (os_rc os)"
        "os_buf osh = None" "os_waker osh = (if after_request y n then None else Some 1)"
      by blast
    let ?c = "if after_request y n then Requested n (created ex) ms [0..<replies s] else Expecting n (created ex) ms [0..<replies s]"
    let ?sh = "sh\<lparr>buf := vd_push_back (created ex) (buf sh)\<rparr>"
    obtain ex' where ex': "ex' = rewake 1 (after_request y n)
        (wakes (rx sh) (ex\<lparr>line := ch, shots := fmupd (created ex) os (shots ex), created := Suc (created ex)\<rparr>))" by blast
    have "freed (Some (created ex)) ex'" using h by (intro freed_new [of ex]) (simp_all add: ex')
    moreover have "asked N (replies s) (created ex) ms [0..<replies s] ex' ?sh"
      using h Cons o(2-4) by (auto simp: asked_def ex')
    ultimately have p: "placed N (replies s) ?c ex' ?sh" by (auto simp: between_def ex')
    have "office_holds b N \<lparr>exchange = ex', server = s, client = ?c\<rparr> ?sh"
      using o(1) h p fits_push [OF cap, of "Some b"] by (auto simp: office_holds_def numeral_2_eq_2 ex')
    with landsI [OF i, of b N s ?sh] Cons show ?thesis unfolding ex' by simp
  qed
qed

lemma expect_lands:
  assumes "bi_owned 2 sh (sp_rc (line ex))" and "fits (Some b) sh" and "tx sh = None" and "rx sh \<in> {None, Some 0}"
    and "\<not> is_closed s" and "0 \<notin> awake ex \<longrightarrow> elems (buf sh) = [] \<and> rx sh = Some 0"
    and "freed (Some a) ex" and "asked N (replies s) a ns out ex' sh \<or> answered N (replies s) a ns out ex' sh"
    and "shots ex' = shots ex"
  shows "lands b N s (4 * length ns + 2) (awake ex) (expect (after_answer y) (issue y ns) n a ns out ex)"
  using assms(8)
proof
  assume k: "asked N (replies s) a ns out ex' sh"
  then obtain os osh where o: "out = [0..<replies s]" "Suc (replies s + length ns) = N" "elems (buf sh) = [a]"
    "fmlookup (shots ex) a = Some os" "bi_owned 2 osh (os_rc os)" "os_buf osh = None"
    by (auto simp: asked_def assms(9))
  from expect_asked [OF o(4-6), of "after_answer y" "issue y ns" n ns out] obtain os' where
    e: "expect (after_answer y) (issue y ns) n a ns out ex = Inr (Expecting n a ns out, False, ex\<lparr>shots := fmupd a os' (shots ex)\<rparr>)"
    "bi_owned 2 (osh\<lparr>os_waker := Some 1\<rparr>) (os_rc os')" by blast
  let ?ex = "rewake 1 False (ex\<lparr>shots := fmupd a os' (shots ex)\<rparr>)"
  have "freed (Some a) ?ex" by (rule freed_old [OF assms(7) o(4)]) simp_all
  moreover have "asked N (replies s) a ns out ?ex sh" using o(1-3,6) e(2) by (auto simp: asked_def)
  ultimately have "office_holds b N \<lparr>exchange = ?ex, server = s, client = Expecting n a ns out\<rparr> sh"
    using assms(1-6) o(3) by (auto simp: office_holds_def numeral_2_eq_2 between_def)
  with landsI [OF e(1)] show ?thesis by simp
next
  assume k: "answered N (replies s) a ns out ex' sh"
  then obtain j os where o: "replies s = Suc j" "out = [0..<j]" "replies s + length ns = N" "elems (buf sh) = []"
    "fmlookup (shots ex) a = Some os" "bi_owned 1 \<lparr>os_waker = None, os_buf = Some j\<rparr> (os_rc os)"
    by (auto simp: answered_def assms(9))
  have out: "out @ [j] = [0..<replies s]" using o(1,2) by simp
  from expect_answered [OF o(5,6), of "after_answer y" "issue y ns" n ns out, unfolded out] obtain os' where
    e: "expect (after_answer y) (issue y ns) n a ns out ex =
        (if after_answer y n then Inr (Issuing ns [0..<replies s], True, ex\<lparr>shots := fmupd a os' (shots ex)\<rparr>)
         else issue y ns [0..<replies s] (ex\<lparr>shots := fmupd a os' (shots ex)\<rparr>))" "os_rc os' = None" by blast
  let ?ex = "ex\<lparr>shots := fmupd a os' (shots ex)\<rparr>"
  have "freed None ?ex" by (rule freed_old [OF assms(7) o(5)]) (use e(2) in simp_all)
  then have hd: "at_head b N s ns ?ex sh"
    using assms(1-6) o(3,4) by (simp add: at_head_def)
  show ?thesis
  proof (cases "after_answer y n")
    case True
    with e(1) have r: "expect (after_answer y) (issue y ns) n a ns out ex = Inr (Issuing ns [0..<replies s], True, ?ex)"
      by simp
    from landsI [OF r head_yields [OF hd]] show ?thesis by simp
  next
    case False
    with e(1) lands_less [OF issue_lands [OF hd, of _ y], of "4 * length ns + 2"] show ?thesis by simp
  qed
qed

lemma client_lands:
  assumes "office_holds b N S sh" and "runnable 1 S"
  shows "lands b N (server S) (client_work (client S)) (awake (asleep 1 (exchange S))) (client_poll y (client S) (asleep 1 (exchange S)))"
proof -
  let ?s = "server S"
  obtain ex where ex: "ex = asleep 1 (exchange S)" by blast
  from assms(2) have a: "1 \<in> awake (exchange S)" "\<not> is_issued (client S)" by (auto simp: runnable_def)
  have exs: "line ex = line (exchange S)" "shots ex = shots (exchange S)" "created ex = created (exchange S)"
    "awake ex = awake (exchange S) - {1}"
    by (simp_all add: ex asleep_def)
  have cl: "\<not> is_closed ?s" using assms(1) a(2) unfolding office_holds_def by blast
  have h: "bi_owned 2 sh (sp_rc (line ex))" "fits (Some b) sh" "tx sh = None" "rx sh \<in> {None, Some 0}"
    "0 \<notin> awake ex \<longrightarrow> elems (buf sh) = [] \<and> rx sh = Some 0"
    and p: "placed N (replies ?s) (client S) (exchange S) sh"
    using assms(1) a(2) cl unfolding office_holds_def exs(1,4) by (simp_all add: numeral_2_eq_2)
  have f: "freed cur (exchange S) = freed cur ex" for cur by (simp add: freed_def exs)
  have "lands b N ?s (client_work (client S)) (awake ex) (client_poll y (client S) ex)"
  proof (cases "client S")
    case (Issuing ns out)
    with p h f cl have "at_head b N ?s ns ex sh" "out = [0..<replies ?s]" by (simp_all add: at_head_def)
    with issue_lands [of b N ?s ns ex sh "awake ex" y] Issuing show ?thesis by simp
  next
    case (Requested n r ns out)
    with p f have "freed (Some r) ex" "asked N (replies ?s) r ns out (exchange S) sh \<or> answered N (replies ?s) r ns out (exchange S) sh"
      by (simp_all add: between_def)
    from expect_lands [OF h(1-4) cl h(5) this exs(2) [symmetric], of y n] Requested lands_less [of b N ?s "4 * length ns + 2"] show ?thesis
      by simp
  next
    case (Expecting n r ns out)
    with p f have "freed (Some r) ex" "asked N (replies ?s) r ns out (exchange S) sh \<or> answered N (replies ?s) r ns out (exchange S) sh"
      by (simp_all add: between_def)
    from expect_lands [OF h(1-4) cl h(5) this exs(2) [symmetric], of y n] Expecting show ?thesis by simp
  qed (use p a(2) in simp_all)
  then show ?thesis by (simp only: ex)
qed

lemma client_runs:
  assumes "office_holds b N S sh" and "runnable 1 S"
  shows "runs_well N S (run_office y 1 S)"
proof -
  let ?s = "server S"
  obtain ex where ex: "ex = asleep 1 (exchange S)" by blast
  from assms(2) have a: "1 \<in> awake (exchange S)" "\<not> is_issued (client S)" by (auto simp: runnable_def)
  have exs: "line ex = line (exchange S)" "shots ex = shots (exchange S)" "created ex = created (exchange S)"
    "awake ex = awake (exchange S) - {1}"
    by (simp_all add: ex asleep_def)
  from client_lands [OF assms, of y]
  obtain c again ex' sh' where r: "client_poll y (client S) ex = Inr (c, again, ex')"
    "office_holds b N \<lparr>exchange = rewake 1 again ex', server = ?s, client = c\<rparr> sh'" "client_work c < client_work (client S) \<or> client_work c = client_work (client S) \<and> \<not> again \<and> awake ex' = awake ex"
    unfolding lands_def ex [symmetric] by blast
  have "run_office y 1 S = Inr \<lparr>exchange = rewake 1 again ex', server = ?s, client = c\<rparr>"
    using r(1) by (cases S) (simp add: run_office_def ex)
  moreover have "office_work N \<lparr>exchange = rewake 1 again ex', server = ?s, client = c\<rparr> < office_work N S"
    using r(3)
  proof
    assume "client_work c < client_work (client S)"
    then show ?thesis
      using a(1) by (simp add: office_work_def del: rewake_simps)
  next
    assume "client_work c = client_work (client S) \<and> \<not> again \<and> awake ex' = awake ex"
    then show ?thesis using a(1) exs(4) by (simp add: office_work_def)
  qed
  ultimately show ?thesis using r(2) by (intro runs_wellI)
qed

lemma office_can_run:
  assumes "office_holds b N S sh" and "\<not> office_done S"
  shows "runnable 0 S \<or> runnable 1 S"
proof (cases "1 \<in> awake (exchange S) \<and> \<not> is_issued (client S)")
  case False
  have h: "placed N (replies (server S)) (client S) (exchange S) sh" "is_closed (server S) \<longrightarrow> is_issued (client S)"
    "0 \<notin> awake (exchange S) \<and> \<not> is_closed (server S) \<longrightarrow> elems (buf sh) = [] \<and> \<not> is_issued (client S)"
    using assms(1) unfolding office_holds_def by blast+
  have "elems (buf sh) \<noteq> []" if "\<not> is_issued (client S)"
    using h(1) that False by (cases "client S") (auto simp: between_def asked_def answered_def)
  with h(2,3) assms(2) show ?thesis unfolding runnable_def office_done_def by blast
qed (simp add: runnable_def)

lemma run_office_ok:
  assumes "office_inv N S" and "runnable k S"
  shows "runs_well N S (run_office y k S)"
proof -
  from assms(2) have "k = 0 \<or> k = 1" by (auto simp: runnable_def)
  with assms server_runs client_runs show ?thesis unfolding office_inv_def by blast
qed

lemma office_step_ok:
  assumes "office_step y S T" and "office_inv N S"
  shows "office_inv N T \<and> office_work N T < office_work N S"
  using assms(1)
proof cases
  case (run_office k)
  from run_office_ok [OF assms(2) run_office(1), of y] run_office(2) show ?thesis by (simp add: runs_well_def)
qed

lemma office_start_inv:
  assumes "office_start ns S"
  shows "office_inv (length ns) S"
proof -
  from assms obtain alloc cap ch where a: "\<And>n. n \<le> alloc n" and c: "Spsc.channel alloc cap = Inr ch"
    and S: "S = open_office ns ch"
    by (auto simp: office_start_def)
  let ?sh = "\<lparr>tx = None, rx = None, buf = vd_with_capacity alloc (unat cap), unbounded = False\<rparr>"
  from c have "0 < cap" "sp_rc ch = bi_rc_new ?sh" by (auto simp: Spsc.channel_def split: if_splits)
  moreover from this(1) have "0 < unat cap" by (simp add: word_less_nat_alt)
  then have "0 < alloc (unat cap)" using a [of "unat cap"] by linarith
  moreover have "bi_owned 2 ?sh (bi_rc_new ?sh)" by (rule rc.make_law)
  ultimately have "office_holds (alloc (unat cap)) (length ns) S ?sh"
    by (simp add: S open_office_def office_holds_def fits_def vd_len_def freed_def numeral_2_eq_2)
  then show ?thesis by (auto simp: office_inv_def)
qed

interpretation office: bounded_runs "office_start ns" "office_step y" "office_inv (length ns)" office_done "office_work (length ns)"
  for ns and y
proof unfold_locales
  fix S
  assume S: "office_inv (length ns) S" "\<not> office_done S"
  from S(1) obtain b sh where "office_holds b (length ns) S sh" by (auto simp: office_inv_def)
  from office_can_run [OF this S(2)] obtain k where "runnable k S" by blast
  with run_office_ok [OF S(1) this, of y] show "\<exists>T. office_step y S T"
    by (auto simp: runs_well_def intro: run_office)
qed (use office_start_inv office_step_ok in blast)+

section \<open>Every request is answered\<close>

lemma office_done_answered:
  assumes "office_inv N S" and "office_done S"
  shows "client S = Issued [0..<N] \<and> server S = Closed N \<and> sp_rc (line (exchange S)) = None \<and>
     (\<forall>a os. fmlookup (shots (exchange S)) a = Some os \<longrightarrow> os_rc os = None)"
proof -
  from assms obtain b sh where "office_holds b N S sh" by (auto simp: office_inv_def)
  with assms(2) show ?thesis
    by (cases "client S"; cases "server S")
      (auto simp: office_holds_def office_done_def freed_def bi_owned_def split: option.splits)
qed

text \<open>C16.
  Two tasks that use the two channels together, as in the crate's test and benchmark, always finish.
  However the executor chooses among the tasks that are awake and wherever they yield, no call
  faults, there is no deadlock, no run has more than \<open>24 * n + 15\<close> polls for \<open>n\<close> requests, and a
  run that cannot go on has collected the answers \<open>0\<close> to \<open>n - 1\<close> in order and has freed the line and
  all the oneshot channels.
\<close>

theorem oneshot_requests_answered:
  assumes "office_start ns S" and "(office_step y ^^ m) S T"
  shows "m \<le> 24 * length ns + 15 \<and> (\<forall>k. runnable k T \<longrightarrow> (\<exists>U. run_office y k T = Inr U)) \<and>
     (client T = Issued [0..<length ns] \<and> server T = Closed (length ns) \<and> sp_rc (line (exchange T)) = None \<and>
        (\<forall>a os. fmlookup (shots (exchange T)) a = Some os \<longrightarrow> os_rc os = None)
      \<or> (\<exists>U. office_step y T U))"
proof -
  have r: "office_inv (length ns) T \<and> m \<le> office_work (length ns) S \<and> (office_done T \<or> (\<exists>U. office_step y T U))"
    by (rule office.run_continues [OF assms(2,1)])
  have "\<exists>U. run_office y k T = Inr U" if "runnable k T" for k
    using run_office_ok [of "length ns" T k y] r that by (auto simp: runs_well_def)
  moreover have "office_work (length ns) S = 24 * length ns + 15"
    using assms(1) by (auto simp: office_start_def open_office_def office_work_def)
  moreover have "office_done T \<Longrightarrow> client T = Issued [0..<length ns] \<and> server T = Closed (length ns) \<and>
      sp_rc (line (exchange T)) = None \<and> (\<forall>a os. fmlookup (shots (exchange T)) a = Some os \<longrightarrow> os_rc os = None)"
    using r office_done_answered by blast
  ultimately show ?thesis using r by auto
qed

lemma run_offices_steps: "run_offices y ks S = Inr T \<Longrightarrow> (office_step y ^^ length ks) S T"
proof (induction ks arbitrary: S)
  case (Cons k ks)
  then obtain U where "runnable k S" "run_office y k S = Inr U" "run_offices y ks U = Inr T"
    by (auto simp: and_then_eq_Inr split: if_splits)
  with Cons.IH [of U] have "office_step y S U" "(office_step y ^^ length ks) U T" by (auto intro: run_office)
  then show ?case unfolding list.size(4) add_Suc_right by (simp only: add_0_right relpowp_Suc_I2)
qed simp

theorem oneshot_requests_answered_witness:
  "\<exists>S T. test_oneshot 3 alloc_exact = Inr S \<and>
     run_offices test_yields [0, 1, 0, 0, 1, 1, 0, 1, 0, 1, 0] S = Inr T \<and> client T = Issued [0, 1, 2] \<and>
     sp_rc (line (exchange T)) = None"
proof -
  let ?ks = "[0, 1, 0, 0, 1, 1, 0, 1, 0, 1, 0]"
  obtain ch :: "addr spsc" where c: "Spsc.channel alloc_exact 2 = Inr ch" by (simp add: Spsc.channel_def)
  let ?S = "open_office [0..<3] ch"
  have s: "test_oneshot 3 alloc_exact = Inr ?S" using c by (simp add: test_oneshot_def)
  have "passes (and_then (test_oneshot 3 alloc_exact) (run_offices test_yields ?ks)) (\<lambda>T. \<not> runnable 0 T \<and> \<not> runnable 1 T)"
    by code_simp
  with s obtain T where T: "run_offices test_yields ?ks ?S = Inr T" "\<not> runnable 0 T" "\<not> runnable 1 T"
    by (auto elim: passesE simp del: run_offices.simps)
  have "office_start [0..<3] ?S"
    unfolding office_start_def using c by (intro exI [of _ alloc_exact] exI [of _ 2] exI [of _ ch]) (simp add: alloc_exact_def)
  from oneshot_requests_answered [OF this run_offices_steps [OF T(1)]] T(2,3)
  have "client T = Issued [0, 1, 2] \<and> sp_rc (line (exchange T)) = None"
    by (auto elim!: office_stepE simp: runnable_def upt_rec)
  with s T(1) show ?thesis by blast
qed

end
