(* ===== verification/Utils.thy ===== *)
theory Utils
  imports Unsync_Prelude
begin

text \<open>
  \<open>src/utils.rs\<close>: \<open>checked_increment\<close>, which aborts on overflow, and the waker of \<open>noop_cx\<close>, whose
  four functions do nothing: it is an ordinary waker of the model whose calls nobody observes.
\<close>

definition abort :: "'a res" where
  "abort = Inl Abort"

definition checked_increment :: "usize \<Rightarrow> usize res" where
  "checked_increment value = (if value = usize_max then abort else usize_add value 1)"

definition noop_cx :: waker where
  "noop_cx = 0"

lemma checked_increment_eq:
  "checked_increment value =
     (if unat value < 2 ^ 64 - 1 then Inr (value + 1) else Inl Abort)"
proof -
  have "value = usize_max \<longleftrightarrow> unat value = 2 ^ 64 - 1"
    by (simp add: word_unat_eq_iff unat_usize_max)
  with unat_usize_less [of "value"] show ?thesis
    by (auto simp: checked_increment_def abort_def usize_add_Inr)
qed

end
