(* ===== verification/Broad_Rc.thy ===== *)
theory Broad_Rc
  imports Utils
begin

text \<open>
  \<open>src/broad_rc.rs\<close>: the allocation that the sender of a broadcast channel (the only strong
  handle) shares with its receivers (weak handles).  Unlike in \<open>std::rc\<close>, a weak handle
  keeps the value alive; the counts tell each side whether the other is gone.
\<close>

record 't broad_inner =
  broad_value :: 't
  strong :: usize
  weak :: usize

type_synonym 't broad_rc = "'t broad_inner option"

definition try_dealloc :: "'t broad_inner \<Rightarrow> 't broad_rc res" where
  "try_dealloc i =
     and_then (usize_add (weak i) (strong i)) (\<lambda>n. Inr (if n = 0 then None else Some i))"

definition broad_rc_new :: "'t \<Rightarrow> 't broad_rc" where
  "broad_rc_new v = Some \<lparr>broad_value = v, strong = 1, weak = 0\<rparr>"

definition broad_rc_weak :: "'t broad_rc \<Rightarrow> 't broad_rc res" where
  "broad_rc_weak rc =
     (case rc of
        None \<Rightarrow> Inl Dangling
      | Some i \<Rightarrow> and_then (checked_increment (weak i)) (\<lambda>n. Inr (Some (i\<lparr>weak := n\<rparr>))))"

definition broad_rc_get :: "'t broad_rc \<Rightarrow> ('t \<times> bool) res" where
  "broad_rc_get rc = (case rc of None \<Rightarrow> Inl Dangling | Some i \<Rightarrow> Inr (broad_value i, weak i \<noteq> 0))"

definition broad_weak_get :: "'t broad_rc \<Rightarrow> ('t \<times> bool) res" where
  "broad_weak_get rc = (case rc of None \<Rightarrow> Inl Dangling | Some i \<Rightarrow> Inr (broad_value i, strong i \<noteq> 0))"

text \<open>A write through the reference that either \<open>get_mut_unchecked\<close> hands out.\<close>

definition broad_put :: "'t \<Rightarrow> 't broad_rc \<Rightarrow> 't broad_rc res" where
  "broad_put v rc = (case rc of None \<Rightarrow> Inl Dangling | Some i \<Rightarrow> Inr (Some (i\<lparr>broad_value := v\<rparr>)))"

definition broad_rc_drop :: "'t broad_rc \<Rightarrow> 't broad_rc res" where
  "broad_rc_drop rc =
     (case rc of None \<Rightarrow> Inl Dangling | Some i \<Rightarrow> try_dealloc (i\<lparr>strong := strong i - 1\<rparr>))"

definition broad_weak_drop :: "'t broad_rc \<Rightarrow> 't broad_rc res" where
  "broad_weak_drop rc =
     (case rc of None \<Rightarrow> Inl Dangling | Some i \<Rightarrow> try_dealloc (i\<lparr>weak := weak i - 1\<rparr>))"

section \<open>The contract\<close>

text \<open>\<open>owned s m v rc\<close>: the sender is alive iff \<open>s\<close>, \<open>m\<close> receivers are, and the cell then holds \<open>v\<close>.\<close>

definition broad_owned :: "bool \<Rightarrow> nat \<Rightarrow> 't \<Rightarrow> 't broad_rc \<Rightarrow> bool" where
  "broad_owned s m v rc \<longleftrightarrow>
     (case rc of
        None \<Rightarrow> \<not> s \<and> m = 0
      | Some i \<Rightarrow> (s \<or> 0 < m) \<and> broad_value i = v \<and> unat (strong i) = of_bool s \<and> unat (weak i) = m)"

locale broad_cell =
  fixes make :: "'t \<Rightarrow> 'rc"
    and downgrade :: "'rc \<Rightarrow> 'rc res"
    and get_strong :: "'rc \<Rightarrow> ('t \<times> bool) res"
    and get_weak :: "'rc \<Rightarrow> ('t \<times> bool) res"
    and put :: "'t \<Rightarrow> 'rc \<Rightarrow> 'rc res"
    and drop_strong :: "'rc \<Rightarrow> 'rc res"
    and drop_weak :: "'rc \<Rightarrow> 'rc res"
    and owned :: "bool \<Rightarrow> nat \<Rightarrow> 't \<Rightarrow> 'rc \<Rightarrow> bool"
  assumes make_law: "owned True 0 v (make v)"
    and downgrade_law: "owned True m v rc \<Longrightarrow> m < 2 ^ 64 - 1 \<Longrightarrow>
        \<exists>rc'. downgrade rc = Inr rc' \<and> owned True (Suc m) v rc'"
    and get_strong_law: "owned True m v rc \<Longrightarrow> get_strong rc = Inr (v, m \<noteq> 0)"
    and get_weak_law: "owned s (Suc m) v rc \<Longrightarrow> get_weak rc = Inr (v, s)"
    and put_law: "owned s m v rc \<Longrightarrow> s \<or> 0 < m \<Longrightarrow> \<exists>rc'. put w rc = Inr rc' \<and> owned s m w rc'"
    and drop_strong_law: "owned True m v rc \<Longrightarrow> \<exists>rc'. drop_strong rc = Inr rc' \<and> owned False m v rc'"
    and drop_weak_law: "owned s (Suc m) v rc \<Longrightarrow> \<exists>rc'. drop_weak rc = Inr rc' \<and> owned s m v rc'"
begin

text \<open>A receiver that outlives the sender still reads the value.\<close>

lemma outlives:
  assumes "owned True (Suc m) v rc"
  shows "\<exists>rc'. drop_strong rc = Inr rc' \<and> get_weak rc' = Inr (v, False)"
proof -
  from drop_strong_law [OF assms] obtain rc' where "drop_strong rc = Inr rc'" "owned False (Suc m) v rc'"
    by blast
  with get_weak_law [OF this(2)] show ?thesis by blast
qed

end

lemma try_dealloc_owned:
  assumes "unat (strong i) = of_bool s" and "unat (weak i) = m" and "m + of_bool s < 2 ^ 64"
    and "broad_value i = v"
  shows "\<exists>rc'. try_dealloc i = Inr rc' \<and> broad_owned s m v rc'"
proof -
  have no: "unat (weak i) + unat (strong i) < 2 ^ 64" using assms by simp
  then have "unat (weak i + strong i) = m + of_bool s" using assms(1,2) by (simp add: unat_add_no_wrap)
  then have "weak i + strong i = 0 \<longleftrightarrow> \<not> s \<and> m = 0"
    by (auto simp: word_unat_eq_iff)
  with assms no show ?thesis
    by (cases s) (auto simp: try_dealloc_def usize_add_Inr broad_owned_def)
qed

lemma unat_minus_1: "unat x = Suc n \<Longrightarrow> unat (x - 1 :: usize) = n"
  using unat_sub_no_wrap [of 1 x] by (simp add: usize_le_iff)

lemma broad_ownedE:
  assumes "broad_owned s m v rc" and "s \<or> 0 < m"
  obtains i where "rc = Some i" "broad_value i = v" "unat (strong i) = of_bool s" "unat (weak i) = m"
  using assms by (auto simp: broad_owned_def split: option.splits)

interpretation broad: broad_cell broad_rc_new broad_rc_weak broad_rc_get broad_weak_get broad_put
  broad_rc_drop broad_weak_drop broad_owned
proof unfold_locales
  show "\<exists>rc'. broad_rc_weak rc = Inr rc' \<and> broad_owned True (Suc m) v rc'"
    if "broad_owned True m v rc" "m < 2 ^ 64 - 1" for m rc and v :: 'a
  proof (rule broad_ownedE [OF that(1)])
    fix i assume i: "rc = Some i" "broad_value i = v" "unat (strong i) = of_bool True" "unat (weak i) = m"
    have "unat (weak i + 1) = Suc m" using i(4) that(2) unat_add_no_wrap [of "weak i" 1] by simp
    with i that(2) show ?thesis
      by (simp add: broad_rc_weak_def checked_increment_eq broad_owned_def)
  qed simp
  show "\<exists>rc'. broad_rc_drop rc = Inr rc' \<and> broad_owned False m v rc'"
    if "broad_owned True m v rc" for m rc and v :: 'a
  proof (rule broad_ownedE [OF that])
    fix i assume i: "rc = Some i" "broad_value i = v" "unat (strong i) = of_bool True" "unat (weak i) = m"
    then have "unat (strong i - 1) = 0" by (intro unat_minus_1) simp
    with i unat_usize_less [of "weak i"]
      try_dealloc_owned [of "i\<lparr>strong := strong i - 1\<rparr>" False m v]
    show ?thesis by (simp add: broad_rc_drop_def)
  qed simp
  show "\<exists>rc'. broad_weak_drop rc = Inr rc' \<and> broad_owned s m v rc'"
    if "broad_owned s (Suc m) v rc" for s m rc and v :: 'a
  proof (rule broad_ownedE [OF that])
    fix i assume i: "rc = Some i" "broad_value i = v" "unat (strong i) = of_bool s" "unat (weak i) = Suc m"
    then have "unat (weak i - 1) = m" by (intro unat_minus_1) simp
    moreover have "m + of_bool s < 2 ^ 64" using i(4) unat_usize_less [of "weak i"] by (cases s) simp_all
    ultimately show ?thesis
      using i try_dealloc_owned [of "i\<lparr>weak := weak i - 1\<rparr>" s m v] by (simp add: broad_weak_drop_def)
  qed simp
qed (auto simp: broad_owned_def broad_rc_new_def broad_rc_get_def broad_weak_get_def broad_put_def
    word_unat_eq_iff split: option.splits)

end
