(* ===== verification/Slab.thy ===== *)
theory Slab
  imports Unsync_Prelude
begin

text \<open>
  The \<open>slab\<close> crate is third-party code: the broadcast channel takes its operations as a parameter
  (\<open>slab_ops\<close>), and the locale \<open>slab_laws\<close> states what its documentation promises of them: keys of
  a new entry are unused, the other entries stay, and iteration visits every entry once, in the
  order of the keys.  \<open>vec_slab\<close> is an instance, a vector whose first vacant place is reused.
\<close>

record ('s, 'e) slab_ops =
  slab_new :: 's
  slab_insert :: "'e \<Rightarrow> 's \<Rightarrow> nat \<times> 's"
  slab_len :: "'s \<Rightarrow> nat"
  slab_keys :: "'s \<Rightarrow> nat list"
  slab_get :: "nat \<Rightarrow> 's \<Rightarrow> 'e option"
  slab_put :: "nat \<Rightarrow> 'e \<Rightarrow> 's \<Rightarrow> 's"
  slab_remove :: "nat \<Rightarrow> 's \<Rightarrow> 's"

text \<open>
  \<open>for (_, e) in &mut slab\<close>: every entry is visited and rewritten; \<open>body\<close> also says how much the
  counter of the loop grows and which wakers are called.
\<close>

fun for_each ::
  "('s, 'e) slab_ops \<Rightarrow> ('e \<Rightarrow> 'e \<times> nat \<times> waker list) \<Rightarrow> nat list \<Rightarrow> 's \<Rightarrow> ('s \<times> nat \<times> waker list) res" where
  "for_each ops body [] s = Inr (s, 0, [])"
| "for_each ops body (k # ks) s =
     (case slab_get ops k s of
        None \<Rightarrow> Inl Dangling
      | Some e \<Rightarrow>
          (case body e of
             (e', n, calls) \<Rightarrow>
               and_then (for_each ops body ks (slab_put ops k e' s)) (\<lambda>(s, m, more).
               Inr (s, n + m, calls @ more))))"

locale slab_laws =
  fixes ops :: "('s, 'e) slab_ops"
  assumes new_law: "slab_get ops k (slab_new ops) = None"
    and insert_law: "slab_insert ops e s = (k, s') \<Longrightarrow>
        slab_get ops k s = None \<and> (\<forall>j. slab_get ops j s' = (if j = k then Some e else slab_get ops j s))"
    and put_law: "slab_get ops k s \<noteq> None \<Longrightarrow>
        slab_get ops j (slab_put ops k e s) = (if j = k then Some e else slab_get ops j s)"
    and remove_law: "slab_get ops j (slab_remove ops k s) = (if j = k then None else slab_get ops j s)"
    and keys_law: "set (slab_keys ops s) = {k. slab_get ops k s \<noteq> None}"
    and sorted_law: "sorted (slab_keys ops s) \<and> distinct (slab_keys ops s)"
    and len_law: "slab_len ops s = length (slab_keys ops s)"
begin

lemma finite_entries: "finite {k. slab_get ops k s \<noteq> None}"
  by (metis List.finite_set keys_law)

lemma card_entries: "card {k. slab_get ops k s \<noteq> None} = slab_len ops s"
  by (metis distinct_card keys_law len_law sorted_law)

text \<open>A whole loop, by what it does to each entry.\<close>

lemma for_each_some:
  assumes "distinct ks" and "\<And>k. k \<in> set ks \<Longrightarrow> slab_get ops k s \<noteq> None"
  shows "\<exists>s'. for_each ops body ks s =
      Inr (s', (\<Sum>k\<leftarrow>ks. fst (snd (body (the (slab_get ops k s))))),
           concat (map (\<lambda>k. snd (snd (body (the (slab_get ops k s))))) ks)) \<and>
     (\<forall>j. slab_get ops j s' =
        (if j \<in> set ks then Some (fst (body (the (slab_get ops j s)))) else slab_get ops j s))"
  using assms
proof (induction ks arbitrary: s)
  case Nil
  then show ?case by simp
next
  case (Cons k ks)
  obtain e where e: "slab_get ops k s = Some e" using Cons.prems(2) [of k] by auto
  obtain e' n calls where b: "body e = (e', n, calls)" by (cases "body e") auto
  let ?s = "slab_put ops k e' s"
  have p: "slab_get ops j ?s = (if j = k then Some e' else slab_get ops j s)" for j
    using e by (simp add: put_law)
  have "slab_get ops j ?s \<noteq> None" if "j \<in> set ks" for j
    using Cons.prems(2) [of j] that by (simp add: p)
  from Cons.IH [OF _ this] Cons.prems(1) obtain s' where
    s': "for_each ops body ks ?s =
      Inr (s', (\<Sum>k\<leftarrow>ks. fst (snd (body (the (slab_get ops k ?s))))),
           concat (map (\<lambda>k. snd (snd (body (the (slab_get ops k ?s))))) ks))"
    "\<And>j. slab_get ops j s' =
        (if j \<in> set ks then Some (fst (body (the (slab_get ops j ?s)))) else slab_get ops j ?s)"
    by auto
  have q: "slab_get ops j ?s = slab_get ops j s" if "j \<in> set ks" for j
    using that Cons.prems(1) by (auto simp: p)
  then have "(\<Sum>k\<leftarrow>ks. fst (snd (body (the (slab_get ops k ?s))))) =
      (\<Sum>k\<leftarrow>ks. fst (snd (body (the (slab_get ops k s)))))"
    and "concat (map (\<lambda>k. snd (snd (body (the (slab_get ops k ?s))))) ks) =
      concat (map (\<lambda>k. snd (snd (body (the (slab_get ops k s))))) ks)"
    by (simp_all cong: map_cong)
  moreover have "slab_get ops j s' =
      (if j \<in> set (k # ks) then Some (fst (body (the (slab_get ops j s)))) else slab_get ops j s)" for j
    using s'(2) [of j] q [of j] e b Cons.prems(1) by (auto simp: p)
  ultimately show ?case using s'(1) e b by (intro exI [of _ s']) (simp only: for_each.simps, simp)
qed

lemma for_each_all:
  obtains s' where "for_each ops body (slab_keys ops s) s =
      Inr (s', (\<Sum>k\<leftarrow>slab_keys ops s. fst (snd (body (the (slab_get ops k s))))),
           concat (map (\<lambda>k. snd (snd (body (the (slab_get ops k s))))) (slab_keys ops s)))"
    and "\<And>j. slab_get ops j s' = map_option (\<lambda>e. fst (body e)) (slab_get ops j s)"
proof -
  have "\<And>k. k \<in> set (slab_keys ops s) \<Longrightarrow> slab_get ops k s \<noteq> None" by (simp add: keys_law)
  from for_each_some [where body = body, OF _ this] sorted_law obtain s' where
    "for_each ops body (slab_keys ops s) s =
      Inr (s', (\<Sum>k\<leftarrow>slab_keys ops s. fst (snd (body (the (slab_get ops k s))))),
           concat (map (\<lambda>k. snd (snd (body (the (slab_get ops k s))))) (slab_keys ops s)))"
    "\<And>j. slab_get ops j s' = (if j \<in> set (slab_keys ops s) then Some (fst (body (the (slab_get ops j s))))
        else slab_get ops j s)"
    by blast
  then show thesis by (intro that) (auto simp: keys_law)
qed

lemma same_keys:
  assumes "\<And>j. slab_get ops j s' = None \<longleftrightarrow> slab_get ops j s = None"
  shows "slab_keys ops s' = slab_keys ops s"
proof -
  have "set (slab_keys ops s') = set (slab_keys ops s)" using assms by (simp add: keys_law)
  with sorted_law show ?thesis by (blast intro: sorted_distinct_set_unique)
qed

end

section \<open>An instance\<close>

fun first_vacant :: "'e option list \<Rightarrow> nat" where
  "first_vacant [] = 0"
| "first_vacant (None # es) = 0"
| "first_vacant (Some e # es) = Suc (first_vacant es)"

definition vec_get :: "nat \<Rightarrow> 'e option list \<Rightarrow> 'e option" where
  "vec_get k es = (if k < length es then es ! k else None)"

definition vec_insert :: "'e \<Rightarrow> 'e option list \<Rightarrow> nat \<times> 'e option list" where
  "vec_insert e es =
     (let k = first_vacant es in (k, if k < length es then es[k := Some e] else es @ [Some e]))"

definition vec_keys :: "'e option list \<Rightarrow> nat list" where
  "vec_keys es = filter (\<lambda>k. es ! k \<noteq> None) [0..<length es]"

definition vec_slab :: "('e option list, 'e) slab_ops" where
  "vec_slab = \<lparr>slab_new = [], slab_insert = vec_insert, slab_len = (\<lambda>es. length (vec_keys es)),
     slab_keys = vec_keys, slab_get = vec_get, slab_put = (\<lambda>k e es. es[k := Some e]),
     slab_remove = (\<lambda>k es. es[k := None])\<rparr>"

lemma first_vacant:
  "first_vacant es \<le> length es" "first_vacant es < length es \<Longrightarrow> es ! first_vacant es = None"
  by (induction es rule: first_vacant.induct) auto

interpretation vec: slab_laws vec_slab
proof unfold_locales
  show "slab_get vec_slab k s = None \<and>
      (\<forall>j. slab_get vec_slab j s' = (if j = k then Some e else slab_get vec_slab j s))"
    if "slab_insert vec_slab e s = (k, s')" for e :: 'a and s k s'
    using that first_vacant [of s]
    by (auto simp: vec_slab_def vec_insert_def vec_get_def Let_def nth_append split: if_splits)
qed (auto simp: vec_slab_def vec_get_def vec_keys_def nth_list_update intro: sorted_wrt_filter split: if_splits)

end
