(* ===== verification/Broadcast.thy ===== *)
theory Broadcast
  imports Broad_Rc Slab Vec_Deque
begin

text \<open>
  \<open>src/broadcast.rs\<close>: the broadcast channel over \<open>BroadRc\<close> and a slab of receiver states.  The
  slab's operations are the parameter \<open>ops\<close>, the space that a buffer gets is \<open>alloc\<close>;
  \<open>bc_woken\<close> is the trace of wake-ups.  Indices and counts of receivers are naturals: they count
  live objects in memory.  The message identifier is a 64-bit word that skips 0 when it wraps.
\<close>

section \<open>Data\<close>

datatype under_capacity = UnderCapacity (delivered_to: nat)

fun display_under_capacity :: "under_capacity \<Rightarrow> string" where
  "display_under_capacity (UnderCapacity n) = ''subscribers are under capacity''"

text \<open>The derived \<open>PartialOrd\<close> and \<open>Ord\<close> compare the counts.\<close>

instantiation under_capacity :: linorder
begin

definition less_eq_under_capacity :: "under_capacity \<Rightarrow> under_capacity \<Rightarrow> bool" where
  "less_eq_under_capacity x y \<longleftrightarrow> delivered_to x \<le> delivered_to y"

definition less_under_capacity :: "under_capacity \<Rightarrow> under_capacity \<Rightarrow> bool" where
  "less_under_capacity x y \<longleftrightarrow> delivered_to x < delivered_to y"

instance
  by standard
    (auto simp: less_eq_under_capacity_def less_under_capacity_def intro: under_capacity.expand)

end

type_synonym msg_id = "64 word"

record 't receiver_state =
  rs_id :: msg_id
  rs_waker :: "waker option"
  rs_buf :: "'t vec_deque"
  rs_unbounded :: bool

definition rs_at_capacity :: "'t receiver_state \<Rightarrow> bool" where
  "rs_at_capacity r \<longleftrightarrow> \<not> rs_unbounded r \<and> capacity (rs_buf r) = vd_len (rs_buf r)"

record 's shared =
  current_id :: msg_id
  sender :: "waker option"
  receivers :: 's
  per_receiver :: "usize option"

record 's broadcast =
  bc_rc :: "'s shared broad_rc"
  bc_woken :: "waker list"

definition default_capacity :: usize where
  "default_capacity = 16"

definition channel :: "('s, 't receiver_state) slab_ops \<Rightarrow> usize \<Rightarrow> 's broadcast res" where
  "channel ops cap =
     (if cap = 0 then Inl (Panic ''capacity cannot be 0'')
      else Inr \<lparr>bc_rc = broad_rc_new \<lparr>current_id = 0, sender = None, receivers = slab_new ops,
                                     per_receiver = Some cap\<rparr>, bc_woken = []\<rparr>)"

definition unbounded_channel :: "('s, 't receiver_state) slab_ops \<Rightarrow> 's broadcast" where
  "unbounded_channel ops =
     \<lparr>bc_rc = broad_rc_new \<lparr>current_id = 0, sender = None, receivers = slab_new ops,
                            per_receiver = None\<rparr>, bc_woken = []\<rparr>"

section \<open>The sender\<close>

definition new_receiver ::
  "('s, 't receiver_state) slab_ops \<Rightarrow> (nat \<Rightarrow> nat) \<Rightarrow> 's broadcast \<Rightarrow> (nat \<times> 's broadcast) res" where
  "new_receiver ops alloc ch =
     and_then (broad_rc_get (bc_rc ch)) (\<lambda>(inner, _).
     let (cap, unbounded) = (case per_receiver inner of
           Some c \<Rightarrow> (c, False)
         | None \<Rightarrow> (default_capacity, True));
         (index, slab) = slab_insert ops
           \<lparr>rs_id = current_id inner, rs_waker = None, rs_buf = vd_with_capacity alloc (unat cap),
            rs_unbounded = unbounded\<rparr> (receivers inner)
     in and_then (broad_put (inner\<lparr>receivers := slab\<rparr>) (bc_rc ch)) (\<lambda>rc.
        Inr (index, ch\<lparr>bc_rc := rc\<rparr>)))"

definition subscribe ::
  "('s, 't receiver_state) slab_ops \<Rightarrow> (nat \<Rightarrow> nat) \<Rightarrow> 's broadcast \<Rightarrow> (nat \<times> 's broadcast) res" where
  "subscribe ops alloc ch =
     and_then (new_receiver ops alloc ch) (\<lambda>(index, ch).
     and_then (broad_rc_weak (bc_rc ch)) (\<lambda>rc. Inr (index, ch\<lparr>bc_rc := rc\<rparr>)))"

definition subscribers :: "('s, 't receiver_state) slab_ops \<Rightarrow> 's broadcast \<Rightarrow> nat res" where
  "subscribers ops ch =
     and_then (broad_rc_get (bc_rc ch)) (\<lambda>(inner, _). Inr (slab_len ops (receivers inner)))"

definition next_id :: "msg_id \<Rightarrow> msg_id" where
  "next_id i = (let i = i + 1 in if i = 0 then 1 else i)"

definition bump_message_id :: "'s broadcast \<Rightarrow> 's broadcast res" where
  "bump_message_id ch =
     and_then (broad_rc_get (bc_rc ch)) (\<lambda>(inner, _).
     and_then (broad_put (inner\<lparr>current_id := next_id (current_id inner)\<rparr>) (bc_rc ch)) (\<lambda>rc.
     Inr (ch\<lparr>bc_rc := rc\<rparr>)))"

definition waker_calls :: "waker option \<Rightarrow> waker list" where
  "waker_calls w = (case w of None \<Rightarrow> [] | Some k \<Rightarrow> [k])"

text \<open>The bodies of the loops over the receivers: the new state, the count, the wake-ups.\<close>

definition try_deliver :: "'t \<Rightarrow> 't receiver_state \<Rightarrow> 't receiver_state \<times> nat \<times> waker list" where
  "try_deliver v r =
     (if \<not> rs_at_capacity r
      then (r\<lparr>rs_buf := vd_push_back v (rs_buf r)\<rparr>, 1, waker_calls (rs_waker r))
      else (r, 0, []))"

definition deliver :: "msg_id \<Rightarrow> 't \<Rightarrow> 't receiver_state \<Rightarrow> 't receiver_state \<times> nat \<times> waker list" where
  "deliver i v r =
     (if rs_id r = i then (r, 1, [])
      else if rs_at_capacity r then (r, 0, [])
      else (r\<lparr>rs_buf := vd_push_back v (rs_buf r), rs_id := i\<rparr>, 1, waker_calls (rs_waker r)))"

definition take_waker :: "'t receiver_state \<Rightarrow> 't receiver_state \<times> nat \<times> waker list" where
  "take_waker r = (r\<lparr>rs_waker := None\<rparr>, 0, waker_calls (rs_waker r))"

definition try_send ::
  "('s, 't receiver_state) slab_ops \<Rightarrow> 't \<Rightarrow> 's broadcast \<Rightarrow>
   ((nat, under_capacity) result \<times> 's broadcast) res" where
  "try_send ops v ch =
     and_then (bump_message_id ch) (\<lambda>ch.
     and_then (broad_rc_get (bc_rc ch)) (\<lambda>(inner, any_receivers_present).
     if \<not> any_receivers_present then Inr (Ok 0, ch)
     else
       and_then (for_each ops (try_deliver v) (slab_keys ops (receivers inner)) (receivers inner))
         (\<lambda>(slab, delivered, calls).
       and_then (broad_put (inner\<lparr>receivers := slab\<rparr>) (bc_rc ch)) (\<lambda>rc.
       Inr (if delivered = slab_len ops slab then Ok delivered else Err (UnderCapacity delivered),
            \<lparr>bc_rc = rc, bc_woken = bc_woken ch @ calls\<rparr>)))))"

definition refresh :: "waker option \<Rightarrow> waker \<Rightarrow> waker option" where
  "refresh w cx = (case w of Some k \<Rightarrow> if will_wake k cx then Some k else Some cx | None \<Rightarrow> Some cx)"

definition send_poll ::
  "('s, 't receiver_state) slab_ops \<Rightarrow> waker \<Rightarrow> 't \<Rightarrow> 's broadcast \<Rightarrow> (nat poll \<times> 's broadcast) res" where
  "send_poll ops cx v ch =
     and_then (broad_rc_get (bc_rc ch)) (\<lambda>(inner, any_receivers_present).
     if \<not> any_receivers_present then Inr (Ready 0, ch)
     else
       let inner = inner\<lparr>sender := refresh (sender inner) cx\<rparr> in
       and_then (for_each ops (deliver (current_id inner) v) (slab_keys ops (receivers inner)) (receivers inner))
         (\<lambda>(slab, delivered, calls).
       and_then (broad_put (inner\<lparr>receivers := slab\<rparr>) (bc_rc ch)) (\<lambda>rc.
       Inr (if delivered = slab_len ops slab then Ready delivered else Pending,
            \<lparr>bc_rc = rc, bc_woken = bc_woken ch @ calls\<rparr>))))"

definition send_start ::
  "('s, 't receiver_state) slab_ops \<Rightarrow> waker \<Rightarrow> 't \<Rightarrow> 's broadcast \<Rightarrow> (nat poll \<times> 's broadcast) res" where
  "send_start ops cx v ch = and_then (bump_message_id ch) (send_poll ops cx v)"

definition sender_drop :: "('s, 't receiver_state) slab_ops \<Rightarrow> 's broadcast \<Rightarrow> 's broadcast res" where
  "sender_drop ops ch =
     and_then (broad_rc_get (bc_rc ch)) (\<lambda>(inner, _).
     and_then (for_each ops take_waker (slab_keys ops (receivers inner)) (receivers inner)) (\<lambda>(slab, _, calls).
     and_then (broad_put (inner\<lparr>receivers := slab\<rparr>) (bc_rc ch)) (\<lambda>rc.
     let ch = \<lparr>bc_rc = rc, bc_woken = bc_woken ch @ calls\<rparr> in
     and_then (broad_rc_drop (bc_rc ch)) (\<lambda>rc. Inr (ch\<lparr>bc_rc := rc\<rparr>)))))"

section \<open>A receiver\<close>

definition recv_poll ::
  "('s, 't receiver_state) slab_ops \<Rightarrow> nat \<Rightarrow> waker \<Rightarrow> 's broadcast \<Rightarrow> ('t option poll \<times> 's broadcast) res" where
  "recv_poll ops index cx ch =
     and_then (broad_weak_get (bc_rc ch)) (\<lambda>(inner, sender_present).
     case slab_get ops index (receivers inner) of
       None \<Rightarrow> Inr (Ready None, ch)
     | Some r \<Rightarrow>
         (case vd_pop_front (rs_buf r) of
            (Some v, b) \<Rightarrow>
              and_then (broad_put (inner\<lparr>receivers := slab_put ops index (r\<lparr>rs_buf := b\<rparr>) (receivers inner)\<rparr>) (bc_rc ch)) (\<lambda>rc.
              Inr (Ready (Some v), \<lparr>bc_rc = rc, bc_woken = bc_woken ch @ waker_calls (sender inner)\<rparr>))
          | (None, b) \<Rightarrow>
              if \<not> sender_present then
                and_then (broad_put (inner\<lparr>receivers := slab_put ops index (r\<lparr>rs_waker := None\<rparr>) (receivers inner)\<rparr>) (bc_rc ch)) (\<lambda>rc.
                Inr (Ready None, ch\<lparr>bc_rc := rc\<rparr>))
              else
                and_then (broad_put (inner\<lparr>receivers :=
                    slab_put ops index (r\<lparr>rs_waker := refresh (rs_waker r) cx\<rparr>) (receivers inner)\<rparr>) (bc_rc ch)) (\<lambda>rc.
                Inr (Pending, \<lparr>bc_rc = rc, bc_woken = bc_woken ch @ waker_calls (sender inner)\<rparr>))))"

definition receiver_drop ::
  "('s, 't receiver_state) slab_ops \<Rightarrow> nat \<Rightarrow> 's broadcast \<Rightarrow> 's broadcast res" where
  "receiver_drop ops index ch =
     and_then (broad_weak_get (bc_rc ch)) (\<lambda>(inner, _).
     and_then (broad_put (inner\<lparr>receivers := slab_remove ops index (receivers inner), sender := None\<rparr>) (bc_rc ch)) (\<lambda>rc.
     let ch = \<lparr>bc_rc = rc, bc_woken = bc_woken ch @ waker_calls (sender inner)\<rparr> in
     and_then (broad_weak_drop (bc_rc ch)) (\<lambda>rc. Inr (ch\<lparr>bc_rc := rc\<rparr>))))"

section \<open>Exact results\<close>

lemma bc_refresh_eq [simp]: "refresh w cx = Some cx"
  by (simp add: refresh_def will_wake_def split: option.split)

lemma sum_list_all_ones:
  assumes "\<And>x. x \<in> set xs \<Longrightarrow> f x \<le> (1 :: nat)"
  shows "(\<Sum>x\<leftarrow>xs. f x) = length xs \<longleftrightarrow> (\<forall>x\<in>set xs. f x = 1)" and "(\<Sum>x\<leftarrow>xs. f x) \<le> length xs"
proof -
  have "(\<Sum>x\<leftarrow>xs. f x) \<le> length xs \<and> ((\<Sum>x\<leftarrow>xs. f x) = length xs \<longleftrightarrow> (\<forall>x\<in>set xs. f x = 1))"
    using assms
  proof (induction xs)
    case (Cons x xs)
    then have "f x = 0 \<or> f x = 1" by (metis le_less_linear less_one list.set_intros(1) nle_le)
    with Cons show ?case by auto
  qed simp
  then show "(\<Sum>x\<leftarrow>xs. f x) = length xs \<longleftrightarrow> (\<forall>x\<in>set xs. f x = 1)" "(\<Sum>x\<leftarrow>xs. f x) \<le> length xs"
    by simp_all
qed

context slab_laws
begin

text \<open>A loop that counts at most one for each entry, in terms of the entries.\<close>

lemma loop_eq:
  assumes "\<And>e. fst (snd (body e)) \<le> 1"
  obtains s' n calls where "for_each ops body (slab_keys ops s) s = Inr (s', n, calls)"
    and "\<And>j. slab_get ops j s' = map_option (\<lambda>e. fst (body e)) (slab_get ops j s)"
    and "n = slab_len ops s' \<longleftrightarrow> (\<forall>k e. slab_get ops k s = Some e \<longrightarrow> fst (snd (body e)) = 1)"
    and "n = card {k. \<exists>e. slab_get ops k s = Some e \<and> fst (snd (body e)) = 1}"
    and "set calls = {w. \<exists>k e. slab_get ops k s = Some e \<and> w \<in> set (snd (snd (body e)))}"
    and "slab_len ops s' = slab_len ops s"
proof -
  let ?f = "\<lambda>k. fst (snd (body (the (slab_get ops k s))))"
  let ?n = "\<Sum>k\<leftarrow>slab_keys ops s. ?f k"
  let ?calls = "concat (map (\<lambda>k. snd (snd (body (the (slab_get ops k s))))) (slab_keys ops s))"
  obtain s' where s': "for_each ops body (slab_keys ops s) s = Inr (s', ?n, ?calls)"
    "\<And>j. slab_get ops j s' = map_option (\<lambda>e. fst (body e)) (slab_get ops j s)"
    by (rule for_each_all [where body = body and s = s]) (rule that)
  have "slab_keys ops s' = slab_keys ops s" by (rule same_keys) (simp add: s'(2))
  then have len: "slab_len ops s' = slab_len ops s" by (simp add: len_law)
  have "?n = slab_len ops s' \<longleftrightarrow> (\<forall>k\<in>set (slab_keys ops s). ?f k = 1)"
    using sum_list_all_ones(1) [of "slab_keys ops s" ?f] assms len len_law by simp
  then have n: "?n = slab_len ops s' \<longleftrightarrow> (\<forall>k e. slab_get ops k s = Some e \<longrightarrow> fst (snd (body e)) = 1)"
    by (fastforce simp: keys_law)
  have "?n = (\<Sum>k\<in>set (slab_keys ops s). ?f k)"
    using sorted_law by (simp add: sum_list_distinct_conv_sum_set)
  also have "\<dots> = (\<Sum>k\<in>set (slab_keys ops s). if ?f k = 1 then 1 else 0)"
    by (intro sum.cong refl) (metis assms le_less_linear less_one nle_le)
  also have "\<dots> = card {k \<in> set (slab_keys ops s). ?f k = 1}" by (simp add: sum.If_cases Int_def)
  also have "{k \<in> set (slab_keys ops s). ?f k = 1} =
      {k. \<exists>e. slab_get ops k s = Some e \<and> fst (snd (body e)) = 1}"
    by (force simp: keys_law)
  finally have c: "?n = card {k. \<exists>e. slab_get ops k s = Some e \<and> fst (snd (body e)) = 1}" .
  have calls: "set ?calls = {w. \<exists>k e. slab_get ops k s = Some e \<and> w \<in> set (snd (snd (body e)))}"
    by (force simp: keys_law)
  show thesis by (rule that [OF s'(1,2) n c calls len])
qed

end

text \<open>
  A slab of receiver states with room to work with: what the channel's own lemmas assume, the
  slab's laws and the promise of \<open>VecDeque::with_capacity\<close>.
\<close>

locale receiver_slab = slab_laws ops
  for ops :: "('s, 't receiver_state) slab_ops" +
  fixes alloc :: "nat \<Rightarrow> nat"
  assumes alloc_law: "n \<le> alloc n"
begin

text \<open>The operations of the sender while it is alive, with \<open>m\<close> receivers.\<close>

lemma bump_eq:
  assumes "broad_owned True m sh (bc_rc ch)"
  shows "\<exists>rc. bump_message_id ch = Inr (ch\<lparr>bc_rc := rc\<rparr>) \<and>
     broad_owned True m (sh\<lparr>current_id := next_id (current_id sh)\<rparr>) rc"
  using broad.get_strong_law [OF assms]
    broad.put_law [OF assms, of "sh\<lparr>current_id := next_id (current_id sh)\<rparr>"]
  by (auto simp: bump_message_id_def)

lemma subscribe_eq:
  assumes "broad_owned True m sh (bc_rc ch)" and "m < 2 ^ 64 - 1"
    and "slab_insert ops \<lparr>rs_id = current_id sh, rs_waker = None,
        rs_buf = vd_with_capacity alloc (unat (case per_receiver sh of Some c \<Rightarrow> c | None \<Rightarrow> default_capacity)),
        rs_unbounded = Option.is_none (per_receiver sh)\<rparr> (receivers sh) = (index, slab)"
  shows "\<exists>rc. subscribe ops alloc ch = Inr (index, ch\<lparr>bc_rc := rc\<rparr>) \<and>
     broad_owned True (Suc m) (sh\<lparr>receivers := slab\<rparr>) rc"
proof -
  from broad.put_law [OF assms(1), of "sh\<lparr>receivers := slab\<rparr>"] obtain rc where
    1: "broad_put (sh\<lparr>receivers := slab\<rparr>) (bc_rc ch) = Inr rc" "broad_owned True m (sh\<lparr>receivers := slab\<rparr>) rc"
    by blast
  with broad.get_strong_law [OF assms(1)] assms(3)
  have "new_receiver ops alloc ch = Inr (index, ch\<lparr>bc_rc := rc\<rparr>)"
    by (cases "per_receiver sh") (simp_all add: new_receiver_def)
  with broad.downgrade_law [OF 1(2) assms(2)] show ?thesis by (auto simp: subscribe_def)
qed

lemma send_poll_none:
  assumes "broad_owned True 0 sh (bc_rc ch)"
  shows "send_poll ops cx v ch = Inr (Ready 0, ch)"
  using broad.get_strong_law [OF assms] by (simp add: send_poll_def)

lemma bc_send_poll_eq:
  assumes "broad_owned True m sh (bc_rc ch)" and "0 < m"
  obtains rc slab calls where "send_poll ops cx v ch =
      Inr (if \<forall>k r. slab_get ops k (receivers sh) = Some r \<longrightarrow> rs_id r = current_id sh \<or> \<not> rs_at_capacity r
           then Ready (slab_len ops (receivers sh)) else Pending,
           \<lparr>bc_rc = rc, bc_woken = bc_woken ch @ calls\<rparr>)"
    and "broad_owned True m (sh\<lparr>sender := Some cx, receivers := slab\<rparr>) rc"
    and "\<And>j. slab_get ops j slab = map_option (\<lambda>r. fst (deliver (current_id sh) v r)) (slab_get ops j (receivers sh))"
    and "set calls = {w. \<exists>k r. slab_get ops k (receivers sh) = Some r \<and>
        w \<in> set (snd (snd (deliver (current_id sh) v r)))}"
proof -
  have le: "fst (snd (deliver (current_id sh) v r)) \<le> 1" for r by (simp add: deliver_def)
  obtain slab n calls where l: "for_each ops (deliver (current_id sh) v) (slab_keys ops (receivers sh)) (receivers sh) =
      Inr (slab, n, calls)"
    "\<And>j. slab_get ops j slab = map_option (\<lambda>r. fst (deliver (current_id sh) v r)) (slab_get ops j (receivers sh))"
    "n = slab_len ops slab \<longleftrightarrow> (\<forall>k r. slab_get ops k (receivers sh) = Some r \<longrightarrow>
        fst (snd (deliver (current_id sh) v r)) = 1)"
    "set calls = {w. \<exists>k r. slab_get ops k (receivers sh) = Some r \<and>
        w \<in> set (snd (snd (deliver (current_id sh) v r)))}"
    "slab_len ops slab = slab_len ops (receivers sh)"
    by (rule loop_eq [where body = "deliver (current_id sh) v" and s = "receivers sh", OF le]) (rule that)
  have n: "n = slab_len ops slab \<longleftrightarrow> (\<forall>k r. slab_get ops k (receivers sh) = Some r \<longrightarrow>
      rs_id r = current_id sh \<or> \<not> rs_at_capacity r)"
    unfolding l(3) by (auto simp: deliver_def)
  from broad.put_law [OF assms(1), of "sh\<lparr>sender := Some cx, receivers := slab\<rparr>"] obtain rc where
    p: "broad_put (sh\<lparr>sender := Some cx, receivers := slab\<rparr>) (bc_rc ch) = Inr rc"
    "broad_owned True m (sh\<lparr>sender := Some cx, receivers := slab\<rparr>) rc"
    by blast
  have "send_poll ops cx v ch =
      Inr (if n = slab_len ops slab then Ready n else Pending, \<lparr>bc_rc = rc, bc_woken = bc_woken ch @ calls\<rparr>)"
    using broad.get_strong_law [OF assms(1)] assms(2) l(1) p(1) by (simp add: send_poll_def)
  also have "(if n = slab_len ops slab then Ready n else Pending) =
      (if n = slab_len ops slab then Ready (slab_len ops (receivers sh)) else Pending)"
    by (simp add: l(5))
  finally show thesis unfolding n by (rule that [OF _ p(2) l(2,4)])
qed

lemma try_send_none:
  assumes "broad_owned True 0 sh (bc_rc ch)"
  shows "\<exists>rc. try_send ops v ch = Inr (Ok 0, ch\<lparr>bc_rc := rc\<rparr>) \<and>
     broad_owned True 0 (sh\<lparr>current_id := next_id (current_id sh)\<rparr>) rc"
proof -
  from bump_eq [OF assms] obtain rc where
    1: "bump_message_id ch = Inr (ch\<lparr>bc_rc := rc\<rparr>)"
    "broad_owned True 0 (sh\<lparr>current_id := next_id (current_id sh)\<rparr>) rc"
    by blast
  with broad.get_strong_law [OF 1(2)] show ?thesis
    by (intro exI [of _ rc]) (simp add: try_send_def)
qed

lemma bc_try_send_eq:
  assumes "broad_owned True m sh (bc_rc ch)" and "0 < m"
  obtains rc slab calls where "try_send ops v ch =
      Inr (let n = card {k. \<exists>r. slab_get ops k (receivers sh) = Some r \<and> \<not> rs_at_capacity r} in
           if \<forall>k r. slab_get ops k (receivers sh) = Some r \<longrightarrow> \<not> rs_at_capacity r
           then Ok n else Err (UnderCapacity n),
           \<lparr>bc_rc = rc, bc_woken = bc_woken ch @ calls\<rparr>)"
    and "broad_owned True m (sh\<lparr>current_id := next_id (current_id sh), receivers := slab\<rparr>) rc"
    and "\<And>j. slab_get ops j slab = map_option (\<lambda>r. fst (try_deliver v r)) (slab_get ops j (receivers sh))"
    and "set calls = {w. \<exists>k r. slab_get ops k (receivers sh) = Some r \<and> w \<in> set (snd (snd (try_deliver v r)))}"
proof -
  let ?sh = "sh\<lparr>current_id := next_id (current_id sh)\<rparr>"
  from bump_eq [OF assms(1)] obtain rc where
    1: "bump_message_id ch = Inr (ch\<lparr>bc_rc := rc\<rparr>)" "broad_owned True m ?sh rc"
    by blast
  have le: "fst (snd (try_deliver v r)) \<le> 1" for r by (simp add: try_deliver_def)
  obtain slab n calls where l: "for_each ops (try_deliver v) (slab_keys ops (receivers sh)) (receivers sh) =
      Inr (slab, n, calls)"
    "\<And>j. slab_get ops j slab = map_option (\<lambda>r. fst (try_deliver v r)) (slab_get ops j (receivers sh))"
    "n = slab_len ops slab \<longleftrightarrow> (\<forall>k r. slab_get ops k (receivers sh) = Some r \<longrightarrow> fst (snd (try_deliver v r)) = 1)"
    "n = card {k. \<exists>r. slab_get ops k (receivers sh) = Some r \<and> fst (snd (try_deliver v r)) = 1}"
    "set calls = {w. \<exists>k r. slab_get ops k (receivers sh) = Some r \<and> w \<in> set (snd (snd (try_deliver v r)))}"
    by (rule loop_eq [where body = "try_deliver v" and s = "receivers sh", OF le]) (rule that)
  have n: "n = slab_len ops slab \<longleftrightarrow> (\<forall>k r. slab_get ops k (receivers sh) = Some r \<longrightarrow> \<not> rs_at_capacity r)"
    unfolding l(3) by (auto simp: try_deliver_def)
  have c: "n = card {k. \<exists>r. slab_get ops k (receivers sh) = Some r \<and> \<not> rs_at_capacity r}"
    unfolding l(4) by (rule arg_cong [where f = card]) (auto simp: try_deliver_def split: if_splits)
  from broad.put_law [OF 1(2), of "?sh\<lparr>receivers := slab\<rparr>"] obtain rc' where
    p: "broad_put (?sh\<lparr>receivers := slab\<rparr>) rc = Inr rc'" "broad_owned True m (?sh\<lparr>receivers := slab\<rparr>) rc'"
    by blast
  have "try_send ops v ch =
      Inr (if n = slab_len ops slab then Ok n else Err (UnderCapacity n), \<lparr>bc_rc = rc', bc_woken = bc_woken ch @ calls\<rparr>)"
    using broad.get_strong_law [OF 1(2)] assms(2) l(1) p(1) 1(1) by (simp add: try_send_def)
  then show thesis unfolding n by (intro that [OF _ p(2) l(2,5)]) (simp add: c Let_def)
qed

lemma bc_sender_drop_eq:
  assumes "broad_owned True m sh (bc_rc ch)"
  obtains rc slab calls where "sender_drop ops ch = Inr \<lparr>bc_rc = rc, bc_woken = bc_woken ch @ calls\<rparr>"
    and "broad_owned False m (sh\<lparr>receivers := slab\<rparr>) rc"
    and "\<And>j. slab_get ops j slab = map_option (\<lambda>r. fst (take_waker r)) (slab_get ops j (receivers sh))"
    and "set calls = {w. \<exists>k r. slab_get ops k (receivers sh) = Some r \<and> w \<in> set (snd (snd (take_waker r)))}"
proof -
  have le: "fst (snd (take_waker r)) \<le> 1" for r :: "'t receiver_state" by (simp add: take_waker_def)
  show thesis
  proof (rule loop_eq [where body = take_waker and s = "receivers sh", OF le])
    fix slab n calls
    assume l: "for_each ops take_waker (slab_keys ops (receivers sh)) (receivers sh) = Inr (slab, n, calls)"
      "\<And>j. slab_get ops j slab = map_option (\<lambda>r. fst (take_waker r)) (slab_get ops j (receivers sh))"
      "set calls = {w. \<exists>k r. slab_get ops k (receivers sh) = Some r \<and> w \<in> set (snd (snd (take_waker r)))}"
    from broad.put_law [OF assms, of "sh\<lparr>receivers := slab\<rparr>"] obtain rc where
      p: "broad_put (sh\<lparr>receivers := slab\<rparr>) (bc_rc ch) = Inr rc" "broad_owned True m (sh\<lparr>receivers := slab\<rparr>) rc"
      by blast
    from broad.drop_strong_law [OF p(2)] obtain rc' where
      d: "broad_rc_drop rc = Inr rc'" "broad_owned False m (sh\<lparr>receivers := slab\<rparr>) rc'"
      by blast
    show thesis
      by (rule that [OF _ d(2) l(2,3)])
        (use broad.get_strong_law [OF assms] l(1) p(1) d(1) in \<open>simp add: sender_drop_def\<close>)
  qed
qed

text \<open>The operations of a receiver, one of \<open>Suc m\<close>.\<close>

lemma bc_recv_poll_eq:
  assumes "broad_owned s (Suc m) sh (bc_rc ch)" and "slab_get ops i (receivers sh) = Some r"
  shows "elems (rs_buf r) = v # vs \<Longrightarrow> \<exists>rc. recv_poll ops i cx ch =
        Inr (Ready (Some v), \<lparr>bc_rc = rc, bc_woken = bc_woken ch @ waker_calls (sender sh)\<rparr>) \<and>
        broad_owned s (Suc m) (sh\<lparr>receivers := slab_put ops i (r\<lparr>rs_buf := (rs_buf r)\<lparr>elems := vs\<rparr>\<rparr>) (receivers sh)\<rparr>) rc"
    and "elems (rs_buf r) = [] \<Longrightarrow> \<not> s \<Longrightarrow> \<exists>rc. recv_poll ops i cx ch = Inr (Ready None, ch\<lparr>bc_rc := rc\<rparr>) \<and>
        broad_owned s (Suc m) (sh\<lparr>receivers := slab_put ops i (r\<lparr>rs_waker := None\<rparr>) (receivers sh)\<rparr>) rc"
    and "elems (rs_buf r) = [] \<Longrightarrow> s \<Longrightarrow> \<exists>rc. recv_poll ops i cx ch =
        Inr (Pending, \<lparr>bc_rc = rc, bc_woken = bc_woken ch @ waker_calls (sender sh)\<rparr>) \<and>
        broad_owned s (Suc m) (sh\<lparr>receivers := slab_put ops i (r\<lparr>rs_waker := Some cx\<rparr>) (receivers sh)\<rparr>) rc"
  using broad.get_weak_law [OF assms(1)] assms(2)
    broad.put_law [OF assms(1), of "sh\<lparr>receivers := slab_put ops i (r\<lparr>rs_buf := (rs_buf r)\<lparr>elems := vs\<rparr>\<rparr>) (receivers sh)\<rparr>"]
    broad.put_law [OF assms(1), of "sh\<lparr>receivers := slab_put ops i (r\<lparr>rs_waker := None\<rparr>) (receivers sh)\<rparr>"]
    broad.put_law [OF assms(1), of "sh\<lparr>receivers := slab_put ops i (r\<lparr>rs_waker := Some cx\<rparr>) (receivers sh)\<rparr>"]
  by (auto simp: recv_poll_def vd_pop_front_def)

lemma bc_receiver_drop_eq:
  assumes "broad_owned s (Suc m) sh (bc_rc ch)"
  shows "\<exists>rc. receiver_drop ops i ch =
      Inr \<lparr>bc_rc = rc, bc_woken = bc_woken ch @ waker_calls (sender sh)\<rparr> \<and>
     broad_owned s m (sh\<lparr>receivers := slab_remove ops i (receivers sh), sender := None\<rparr>) rc"
proof -
  let ?sh = "sh\<lparr>receivers := slab_remove ops i (receivers sh), sender := None\<rparr>"
  from broad.put_law [OF assms, of ?sh] obtain rc where
    1: "broad_put ?sh (bc_rc ch) = Inr rc" "broad_owned s (Suc m) ?sh rc"
    by blast
  from broad.drop_weak_law [OF 1(2)] broad.get_weak_law [OF assms] 1(1) show ?thesis
    by (auto simp: receiver_drop_def)
qed

end

interpretation vec_receivers: receiver_slab vec_slab alloc_exact
  by unfold_locales (simp add: alloc_exact_def)

end
