(* ===== verification/Broadcast_System.thy ===== *)
theory Broadcast_System
  imports Broadcast
begin

text \<open>
  The broadcast channel with its sender and its receivers.  The state adds who is alive, what each
  receiver has received since it subscribed, the message of a suspended \<open>send\<close> with each
  receiver's messages when it began, how often the message identifier was bumped, and who was told
  to wait and has not been woken since.  \<open>buffered\<close> reads a receiver's buffer off the channel.
\<close>

section \<open>The system\<close>

record ('s, 't) bc_sys =
  chan :: "'s broadcast"
  tx_alive :: bool
  live :: "nat set"
  sending :: "'t option"
  received :: "nat \<Rightarrow> 't list"
  before :: "nat \<Rightarrow> 't list"
  bumps :: nat
  tx_asleep :: "waker option"
  rx_asleep :: "nat \<Rightarrow> waker option"
  tried :: "(nat, under_capacity) result option"
  reached :: "nat option"

datatype 't bc_op =
    Subscribe
  | TrySend 't
  | StartSend 't waker
  | PollSend waker
  | CancelSend
  | DropSender
  | PollRecv nat waker
  | CancelRecv nat
  | DropReceiver nat

text \<open>\<open>subscribe\<close>, \<open>try_send\<close> and \<open>send\<close> need the sender, which a suspended \<open>send\<close> borrows.\<close>

fun bc_enabled :: "'t bc_op \<Rightarrow> ('s, 't) bc_sys \<Rightarrow> bool" where
  "bc_enabled Subscribe S \<longleftrightarrow> tx_alive S \<and> Option.is_none (sending S)"
| "bc_enabled (TrySend v) S \<longleftrightarrow> tx_alive S \<and> Option.is_none (sending S)"
| "bc_enabled (StartSend v cx) S \<longleftrightarrow> tx_alive S \<and> Option.is_none (sending S)"
| "bc_enabled (PollSend cx) S \<longleftrightarrow> \<not> Option.is_none (sending S)"
| "bc_enabled CancelSend S \<longleftrightarrow> \<not> Option.is_none (sending S)"
| "bc_enabled DropSender S \<longleftrightarrow> tx_alive S \<and> Option.is_none (sending S)"
| "bc_enabled (PollRecv k cx) S \<longleftrightarrow> k \<in> live S"
| "bc_enabled (CancelRecv k) S \<longleftrightarrow> k \<in> live S"
| "bc_enabled (DropReceiver k) S \<longleftrightarrow> k \<in> live S"

definition buffered :: "('s, 't receiver_state) slab_ops \<Rightarrow> ('s, 't) bc_sys \<Rightarrow> nat \<Rightarrow> 't list" where
  "buffered ops S k =
     (case bc_rc (chan S) of
        None \<Rightarrow> []
      | Some i \<Rightarrow>
          (case slab_get ops k (receivers (broad_value i)) of None \<Rightarrow> [] | Some r \<Rightarrow> elems (rs_buf r)))"

text \<open>All messages that a receiver got since it subscribed: received or still in its buffer.\<close>

definition got :: "('s, 't receiver_state) slab_ops \<Rightarrow> ('s, 't) bc_sys \<Rightarrow> nat \<Rightarrow> 't list" where
  "got ops S k = received S k @ buffered ops S k"

definition rouse :: "'s broadcast \<Rightarrow> ('s, 't) bc_sys \<Rightarrow> ('s, 't) bc_sys" where
  "rouse ch S =
     (let calls = drop (length (bc_woken (chan S))) (bc_woken ch) in
      S\<lparr>chan := ch, tx_asleep := roused calls (tx_asleep S),
        rx_asleep := (\<lambda>k. roused calls (rx_asleep S k))\<rparr>)"

definition after_send :: "'t \<Rightarrow> waker \<Rightarrow> nat poll \<Rightarrow> ('s, 't) bc_sys \<Rightarrow> ('s, 't) bc_sys" where
  "after_send v cx r S =
     (case r of
        Ready n \<Rightarrow> S\<lparr>sending := None, tx_asleep := None, reached := Some n\<rparr>
      | Pending \<Rightarrow> S\<lparr>sending := Some v, tx_asleep := Some cx\<rparr>)"

fun bc_exec ::
  "('s, 't receiver_state) slab_ops \<Rightarrow> (nat \<Rightarrow> nat) \<Rightarrow> 't bc_op \<Rightarrow> ('s, 't) bc_sys \<Rightarrow> ('s, 't) bc_sys res" where
  "bc_exec ops alloc Subscribe S =
     and_then (subscribe ops alloc (chan S)) (\<lambda>(k, ch).
     Inr ((rouse ch S)\<lparr>live := insert k (live S), received := (received S)(k := [])\<rparr>))"
| "bc_exec ops alloc (TrySend v) S =
     and_then (try_send ops v (chan S)) (\<lambda>(r, ch).
     Inr ((rouse ch S)\<lparr>tried := Some r, bumps := Suc (bumps S)\<rparr>))"
| "bc_exec ops alloc (StartSend v cx) S =
     and_then (send_start ops cx v (chan S)) (\<lambda>(r, ch).
     Inr (after_send v cx r ((rouse ch S)\<lparr>before := got ops S, bumps := Suc (bumps S)\<rparr>)))"
| "bc_exec ops alloc (PollSend cx) S =
     (case sending S of
        None \<Rightarrow> Inr S
      | Some v \<Rightarrow> and_then (send_poll ops cx v (chan S)) (\<lambda>(r, ch). Inr (after_send v cx r (rouse ch S))))"
| "bc_exec ops alloc CancelSend S = Inr (S\<lparr>sending := None, tx_asleep := None\<rparr>)"
| "bc_exec ops alloc DropSender S =
     and_then (sender_drop ops (chan S)) (\<lambda>ch. Inr ((rouse ch S)\<lparr>tx_alive := False\<rparr>))"
| "bc_exec ops alloc (PollRecv k cx) S =
     and_then (recv_poll ops k cx (chan S)) (\<lambda>(r, ch).
     Inr (case r of
         Pending \<Rightarrow> (rouse ch S)\<lparr>rx_asleep := (rx_asleep (rouse ch S))(k := Some cx)\<rparr>
       | Ready x \<Rightarrow> (rouse ch S)\<lparr>rx_asleep := (rx_asleep (rouse ch S))(k := None),
           received := (received S)(k := received S k @ (case x of None \<Rightarrow> [] | Some v \<Rightarrow> [v]))\<rparr>))"
| "bc_exec ops alloc (CancelRecv k) S = Inr (S\<lparr>rx_asleep := (rx_asleep S)(k := None)\<rparr>)"
| "bc_exec ops alloc (DropReceiver k) S =
     and_then (receiver_drop ops k (chan S)) (\<lambda>ch.
     Inr ((rouse ch S)\<lparr>live := live S - {k}, rx_asleep := (rx_asleep (rouse ch S))(k := None)\<rparr>))"

definition bc_sys_of :: "'s broadcast \<Rightarrow> ('s, 't) bc_sys" where
  "bc_sys_of ch = \<lparr>chan = ch, tx_alive = True, live = {}, sending = None, received = (\<lambda>_. []),
     before = (\<lambda>_. []), bumps = 0, tx_asleep = None, rx_asleep = (\<lambda>_. None), tried = None, reached = None\<rparr>"

definition bc_start :: "('s, 't receiver_state) slab_ops \<Rightarrow> ('s, 't) bc_sys \<Rightarrow> bool" where
  "bc_start ops S \<longleftrightarrow> S = bc_sys_of (unbounded_channel ops) \<or>
     (\<exists>cap ch. channel ops cap = Inr ch \<and> S = bc_sys_of ch)"

inductive bc_step ::
  "('s, 't receiver_state) slab_ops \<Rightarrow> (nat \<Rightarrow> nat) \<Rightarrow> ('s, 't) bc_sys \<Rightarrow> ('s, 't) bc_sys \<Rightarrow> bool"
  for ops alloc where
  bc_call: "bc_enabled op S \<Longrightarrow> bc_exec ops alloc op S = Inr S' \<Longrightarrow> bc_step ops alloc S S'"

inductive_cases bc_stepE: "bc_step ops alloc S S'"

section \<open>The invariant\<close>

text \<open>
  What holds of each receiver: a bounded buffer never outgrows its space, and a receiver that
  sleeps has nothing to receive, a live sender, and its latest waker registered.
\<close>

definition rx_holds :: "bool \<Rightarrow> waker option \<Rightarrow> 't receiver_state \<Rightarrow> bool" where
  "rx_holds present asleep r \<longleftrightarrow>
     (rs_unbounded r \<or> 0 < capacity (rs_buf r) \<and> vd_len (rs_buf r) \<le> capacity (rs_buf r)) \<and>
     (asleep = None \<or> present \<and> elems (rs_buf r) = [] \<and> rs_waker r = asleep)"

text \<open>
  How identifiers track a \<open>send\<close>, before the counter has wrapped: they only grow, and a receiver
  has the current one exactly when it has got the message of the \<open>send\<close> under way.
\<close>

definition ids_hold ::
  "('s, 't receiver_state) slab_ops \<Rightarrow> ('s, 't) bc_sys \<Rightarrow> 's shared \<Rightarrow> bool" where
  "ids_hold ops S sh \<longleftrightarrow> unat (current_id sh) = bumps S \<and>
     (\<forall>k r. slab_get ops k (receivers sh) = Some r \<longrightarrow>
        unat (rs_id r) \<le> bumps S \<and>
        (\<forall>v. sending S = Some v \<longrightarrow> received S k @ elems (rs_buf r) =
            before S k @ (if rs_id r = current_id sh then [v] else [])))"

definition bc_holds ::
  "('s, 't receiver_state) slab_ops \<Rightarrow> ('s, 't) bc_sys \<Rightarrow> 's shared \<Rightarrow> bool" where
  "bc_holds ops S sh \<longleftrightarrow>
     broad_owned (tx_alive S) (card (live S)) sh (bc_rc (chan S)) \<and> finite (live S) \<and>
     (\<forall>k. slab_get ops k (receivers sh) \<noteq> None \<longleftrightarrow> k \<in> live S) \<and>
     (\<forall>k r. slab_get ops k (receivers sh) = Some r \<longrightarrow> rx_holds (tx_alive S) (rx_asleep S k) r) \<and>
     (\<forall>k. k \<notin> live S \<longrightarrow> rx_asleep S k = None) \<and>
     (sending S \<noteq> None \<longrightarrow> tx_alive S) \<and>
     (tx_asleep S \<noteq> None \<longrightarrow> sending S \<noteq> None \<and> sender sh = tx_asleep S \<and>
        (\<exists>k r. slab_get ops k (receivers sh) = Some r \<and> rs_id r \<noteq> current_id sh \<and> rs_at_capacity r)) \<and>
     per_receiver sh \<noteq> Some 0 \<and>
     (bumps S < 2 ^ 64 - 1 \<longrightarrow> ids_hold ops S sh)"

definition bc_inv :: "('s, 't receiver_state) slab_ops \<Rightarrow> ('s, 't) bc_sys \<Rightarrow> bool" where
  "bc_inv ops S \<longleftrightarrow> (\<exists>sh. bc_holds ops S sh)"

lemma bc_holdsD:
  assumes "bc_holds ops S sh"
  shows "broad_owned (tx_alive S) (card (live S)) sh (bc_rc (chan S))" "finite (live S)"
    "\<And>k. slab_get ops k (receivers sh) \<noteq> None \<longleftrightarrow> k \<in> live S"
    "\<And>k r. slab_get ops k (receivers sh) = Some r \<Longrightarrow> rx_holds (tx_alive S) (rx_asleep S k) r"
    "\<And>k. k \<notin> live S \<Longrightarrow> rx_asleep S k = None"
    "sending S \<noteq> None \<Longrightarrow> tx_alive S"
    "tx_asleep S \<noteq> None \<Longrightarrow> sending S \<noteq> None \<and> sender sh = tx_asleep S \<and>
        (\<exists>k r. slab_get ops k (receivers sh) = Some r \<and> rs_id r \<noteq> current_id sh \<and> rs_at_capacity r)"
    "per_receiver sh \<noteq> Some 0"
    "bumps S < 2 ^ 64 - 1 \<Longrightarrow> ids_hold ops S sh"
  using assms unfolding bc_holds_def by blast+

lemma bc_holdsI:
  assumes "broad_owned (tx_alive S) (card (live S)) sh (bc_rc (chan S))" "finite (live S)"
    "\<And>k. slab_get ops k (receivers sh) \<noteq> None \<longleftrightarrow> k \<in> live S"
    "\<And>k r. slab_get ops k (receivers sh) = Some r \<Longrightarrow> rx_holds (tx_alive S) (rx_asleep S k) r"
    "\<And>k. k \<notin> live S \<Longrightarrow> rx_asleep S k = None"
    "sending S \<noteq> None \<Longrightarrow> tx_alive S"
    "tx_asleep S \<noteq> None \<Longrightarrow> sending S \<noteq> None \<and> sender sh = tx_asleep S \<and>
        (\<exists>k r. slab_get ops k (receivers sh) = Some r \<and> rs_id r \<noteq> current_id sh \<and> rs_at_capacity r)"
    "per_receiver sh \<noteq> Some 0"
    "bumps S < 2 ^ 64 - 1 \<Longrightarrow> ids_hold ops S sh"
  shows "bc_inv ops S"
  using assms unfolding bc_inv_def bc_holds_def by blast

section \<open>The loop bodies keep what holds of a receiver\<close>

lemma waker_calls_simps [simp]: "waker_calls None = []" "waker_calls (Some k) = [k]"
  by (simp_all add: waker_calls_def)

lemma roused_calls: "set (waker_calls w) \<subseteq> set calls \<Longrightarrow> roused calls w = None"
  by (cases w) (auto simp: roused_def)

lemma rx_holds_roused: "rx_holds p a r \<Longrightarrow> rx_holds p (roused calls a) r"
  unfolding rx_holds_def using roused_Some [of calls a] by auto

lemma rx_holds_push:
  assumes "rx_holds p a r" and "\<not> rs_at_capacity r"
  shows "rx_holds p None (r\<lparr>rs_buf := vd_push_back v (rs_buf r)\<rparr>)"
  using assms capacity_push [of "rs_buf r" v] by (auto simp: rx_holds_def rs_at_capacity_def)

lemma rx_holds_id [simp]: "rx_holds p a (r\<lparr>rs_id := i\<rparr>) = rx_holds p a r"
  by (simp add: rx_holds_def)

lemma rx_holds_called:
  assumes "rx_holds p a r" and "set (waker_calls (rs_waker r)) \<subseteq> set calls"
  shows "roused calls a = None"
  using assms roused_calls [of a calls] by (cases a) (auto simp: rx_holds_def)

lemma rx_holds_deliver:
  assumes "rx_holds p a r" and "set (snd (snd (deliver i v r))) \<subseteq> set calls"
  shows "rx_holds p (roused calls a) (fst (deliver i v r))"
proof (cases "rs_id r = i \<or> rs_at_capacity r")
  case True
  with rx_holds_roused [OF assms(1)] show ?thesis by (auto simp: deliver_def)
next
  case False
  with assms rx_holds_called [OF assms(1), of calls] rx_holds_push [OF assms(1), of v]
  show ?thesis by (simp add: deliver_def)
qed

lemma rx_holds_try_deliver:
  assumes "rx_holds p a r" and "set (snd (snd (try_deliver v r))) \<subseteq> set calls"
  shows "rx_holds p (roused calls a) (fst (try_deliver v r))"
proof (cases "rs_at_capacity r")
  case True
  with rx_holds_roused [OF assms(1)] show ?thesis by (simp add: try_deliver_def)
next
  case False
  with assms rx_holds_called [OF assms(1), of calls] rx_holds_push [OF assms(1) False, of v]
  show ?thesis by (simp add: try_deliver_def)
qed

lemma rx_holds_take_waker:
  assumes "rx_holds p a r" and "set (snd (snd (take_waker r))) \<subseteq> set calls"
  shows "rx_holds False (roused calls a) (fst (take_waker r))"
  using assms rx_holds_called [OF assms(1), of calls] by (auto simp: take_waker_def rx_holds_def)

lemma next_id_eq: "Suc (unat i) < 2 ^ 64 \<Longrightarrow> unat (next_id i) = Suc (unat i)"
  using unat_add_no_wrap [of i 1] by (auto simp: next_id_def Let_def word_unat_eq_iff)

lemma bc_rouse_simps [simp]:
  "chan (rouse ch S) = ch" "tx_alive (rouse ch S) = tx_alive S" "live (rouse ch S) = live S"
  "sending (rouse ch S) = sending S" "received (rouse ch S) = received S" "before (rouse ch S) = before S"
  "bumps (rouse ch S) = bumps S" "tried (rouse ch S) = tried S" "reached (rouse ch S) = reached S"
  by (simp_all add: rouse_def Let_def)

lemma bc_rouse_asleep:
  "bc_woken ch = bc_woken (chan S) @ calls \<Longrightarrow> tx_asleep (rouse ch S) = roused calls (tx_asleep S)"
  "bc_woken ch = bc_woken (chan S) @ calls \<Longrightarrow> rx_asleep (rouse ch S) = (\<lambda>k. roused calls (rx_asleep S k))"
  by (simp_all add: rouse_def Let_def)

lemma bc_rouse_quiet: "bc_woken ch = bc_woken (chan S) \<Longrightarrow> rouse ch S = S\<lparr>chan := ch\<rparr>"
  by (cases S) (simp add: rouse_def)

section \<open>Every step keeps the invariant\<close>

lemma buffered_eq:
  assumes "bc_holds ops S sh"
  shows "buffered ops S k =
     (case slab_get ops k (receivers sh) of None \<Rightarrow> [] | Some r \<Rightarrow> elems (rs_buf r))"
proof (cases "bc_rc (chan S)")
  case None
  with bc_holdsD(1-3) [OF assms] have "live S = {}" by (simp add: broad_owned_def)
  then have "slab_get ops k (receivers sh) = None" using bc_holdsD(3) [OF assms] by blast
  with None show ?thesis by (simp add: buffered_def)
next
  case (Some i)
  with bc_holdsD(1) [OF assms] have "broad_value i = sh" by (simp add: broad_owned_def)
  with Some show ?thesis by (simp add: buffered_def)
qed

lemma card_live_pos: "finite (live S) \<Longrightarrow> k \<in> live S \<Longrightarrow> card (live S) = Suc (card (live S - {k}))"
  by (rule card.remove)

lemma subset_eq_card: "finite A \<Longrightarrow> B \<subseteq> A \<Longrightarrow> B = A \<longleftrightarrow> card B = card A"
  by (auto dest: card_subset_eq)

text \<open>What is left of the invariant when a loop rewrote every receiver and called some wakers.\<close>

definition swept ::
  "('s, 't receiver_state) slab_ops \<Rightarrow> ('t receiver_state \<Rightarrow> 't receiver_state) \<Rightarrow> 's \<Rightarrow> 's \<Rightarrow> bool" where
  "swept ops g s s' \<longleftrightarrow> (\<forall>j. slab_get ops j s' = map_option g (slab_get ops j s))"

lemma sweptD:
  assumes "swept ops g s s'"
  shows "slab_get ops j s' \<noteq> None \<longleftrightarrow> slab_get ops j s \<noteq> None"
    and "slab_get ops j s' = Some r' \<Longrightarrow> \<exists>r. slab_get ops j s = Some r \<and> r' = g r"
    and "slab_get ops j s = Some r \<Longrightarrow> slab_get ops j s' = Some (g r)"
  using assms by (auto simp: swept_def)

text \<open>A poll of a \<open>send\<close> delivers to every receiver that can take the message.\<close>

abbreviation can_have :: "msg_id \<Rightarrow> 't receiver_state \<Rightarrow> bool" where
  "can_have i r \<equiv> rs_id r = i \<or> \<not> rs_at_capacity r"

lemma ids_hold_delivered:
  assumes "ids_hold ops S sh" and "sending S = Some v"
    and sw: "swept ops (\<lambda>r. fst (deliver (current_id sh) v r)) (receivers sh) slab"
    and T: "bumps T = bumps S" "received T = received S" "before T = before S" "sending T = None \<or> sending T = Some v"
  shows "ids_hold ops T (sh\<lparr>sender := w, receivers := slab\<rparr>)"
  unfolding ids_hold_def
proof (intro conjI allI impI)
  show "unat (current_id (sh\<lparr>sender := w, receivers := slab\<rparr>)) = bumps T"
    using assms(1) T(1) by (simp add: ids_hold_def)
  fix k r' assume "slab_get ops k (receivers (sh\<lparr>sender := w, receivers := slab\<rparr>)) = Some r'"
  with sweptD(2) [OF sw] obtain r where
    r: "slab_get ops k (receivers sh) = Some r" "r' = fst (deliver (current_id sh) v r)" by auto
  with assms(1) T(1) show "unat (rs_id r') \<le> bumps T" by (auto simp: ids_hold_def deliver_def)
  fix u assume "sending T = Some u"
  with T(4) have "u = v" by auto
  moreover from assms(1,2) r(1) have "received S k @ elems (rs_buf r) =
      before S k @ (if rs_id r = current_id sh then [v] else [])" by (simp add: ids_hold_def)
  ultimately show "received T k @ elems (rs_buf r') =
      before T k @ (if rs_id r' = current_id (sh\<lparr>sender := w, receivers := slab\<rparr>) then [u] else [])"
    using r(2) T(2,3) by (auto simp: deliver_def)
qed

lemma delivered_holds:
  assumes S: "bc_holds ops S sh" "sending S = Some v"
    and sw: "swept ops (\<lambda>r. fst (deliver (current_id sh) v r)) (receivers sh) slab"
    and calls: "\<And>k r. slab_get ops k (receivers sh) = Some r \<Longrightarrow> set (snd (snd (deliver (current_id sh) v r))) \<subseteq> set calls"
    and o: "broad_owned True (card (live S)) (sh\<lparr>sender := Some cx, receivers := slab\<rparr>) (bc_rc (chan T))"
    and T: "tx_alive T = tx_alive S" "live T = live S" "received T = received S" "before T = before S" "bumps T = bumps S"
      "\<And>k. rx_asleep T k = roused calls (rx_asleep S k)" "sending T = None \<or> sending T = Some v"
    and t: "tx_asleep T \<noteq> None \<Longrightarrow> sending T \<noteq> None \<and> tx_asleep T = Some cx \<and>
      (\<exists>k r. slab_get ops k (receivers sh) = Some r \<and> \<not> can_have (current_id sh) r)"
  shows "bc_holds ops T (sh\<lparr>sender := Some cx, receivers := slab\<rparr>)" (is "bc_holds ops T ?sh")
proof -
  note h = bc_holdsD [OF S(1)]
  have tx: "tx_alive S" using h(6) S(2) by simp
  have keys: "slab_get ops k slab \<noteq> None \<longleftrightarrow> k \<in> live S" for k using sweptD(1) [OF sw, of k] h(3) by simp
  have rx: "rx_holds (tx_alive T) (rx_asleep T k) r'" if r': "slab_get ops k slab = Some r'" for k r'
  proof -
    from sweptD(2) [OF sw r'] obtain r where
      r: "slab_get ops k (receivers sh) = Some r" "r' = fst (deliver (current_id sh) v r)" by blast
    from rx_holds_deliver [OF h(4) [OF r(1)] calls [OF r(1)]] show ?thesis using r(2) T(1,6) by simp
  qed
  have ids: "ids_hold ops T ?sh" if "bumps T < 2 ^ 64 - 1"
    using h(9) that T(5) by (intro ids_hold_delivered [OF _ S(2) sw T(5,3,4,7)]) simp
  have asleep: "sending T \<noteq> None \<and> sender ?sh = tx_asleep T \<and>
      (\<exists>k r. slab_get ops k (receivers ?sh) = Some r \<and> rs_id r \<noteq> current_id ?sh \<and> rs_at_capacity r)" if "tx_asleep T \<noteq> None"
  proof -
    from t [OF that] obtain k r where r: "slab_get ops k (receivers sh) = Some r" "\<not> can_have (current_id sh) r" by blast
    with sweptD(3) [OF sw r(1)] have "slab_get ops k slab = Some r" by (simp add: deliver_def)
    with r(2) t [OF that] show ?thesis by auto
  qed
  have idle: "rx_asleep T k = None" if "k \<notin> live S" for k using h(5) [OF that] T(6) by simp
  have "\<forall>k. slab_get ops k (receivers ?sh) \<noteq> None \<longleftrightarrow> k \<in> live T" using keys T(2) by simp
  moreover have "\<forall>k r. slab_get ops k (receivers ?sh) = Some r \<longrightarrow> rx_holds (tx_alive T) (rx_asleep T k) r" using rx by simp
  moreover have "\<forall>k. k \<notin> live T \<longrightarrow> rx_asleep T k = None" using idle T(2) by simp
  moreover have "broad_owned (tx_alive T) (card (live T)) ?sh (bc_rc (chan T))" using o tx T(1,2) by simp
  moreover have "finite (live T)" "tx_alive T" "per_receiver ?sh \<noteq> Some 0" using h(2,8) tx T(1,2) by simp_all
  ultimately show ?thesis unfolding bc_holds_def using asleep ids by blast
qed

lemma delivered_got:
  assumes S: "bc_holds ops S sh" "sending S = Some v" "bumps S < 2 ^ 64 - 1"
    and sw: "swept ops (\<lambda>r. fst (deliver (current_id sh) v r)) (receivers sh) slab"
    and T: "bc_holds ops T (sh\<lparr>sender := w, receivers := slab\<rparr>)" "received T = received S"
    and r: "slab_get ops k (receivers sh) = Some r" "can_have (current_id sh) r"
  shows "got ops T k = before S k @ [v]"
proof -
  from bc_holdsD(9) [OF S(1,3)] r(1) S(2) have "received S k @ elems (rs_buf r) =
      before S k @ (if rs_id r = current_id sh then [v] else [])" by (simp add: ids_hold_def)
  with sweptD(3) [OF sw r(1)] r(2) T(2) show ?thesis
    by (auto simp: got_def buffered_eq [OF T(1)] deliver_def split: if_splits)
qed

text \<open>\<open>try_send\<close> delivers, under a new identifier that no receiver gets, to those with room.\<close>

lemma bumped_ids:
  assumes "bc_holds ops S sh" and "Suc (bumps S) < 2 ^ 64 - 1"
  shows "unat (next_id (current_id sh)) = Suc (bumps S)" and "ids_hold ops S sh"
  using bc_holdsD(9) [OF assms(1)] assms(2) next_id_eq [of "current_id sh"] by (simp_all add: ids_hold_def)

lemma tried_holds:
  assumes S: "bc_holds ops S sh" "tx_alive S"
    and sw: "swept ops (\<lambda>r. fst (try_deliver v r)) (receivers sh) slab"
    and calls: "\<And>k r. slab_get ops k (receivers sh) = Some r \<Longrightarrow> set (snd (snd (try_deliver v r))) \<subseteq> set calls"
    and o: "broad_owned True (card (live S)) (sh\<lparr>current_id := next_id (current_id sh), receivers := slab\<rparr>) (bc_rc (chan T))"
    and T: "tx_alive T = tx_alive S" "live T = live S" "bumps T = Suc (bumps S)" "sending T = None" "tx_asleep T = None"
      "\<And>k. rx_asleep T k = roused calls (rx_asleep S k)"
  shows "bc_holds ops T (sh\<lparr>current_id := next_id (current_id sh), receivers := slab\<rparr>)" (is "bc_holds ops T ?sh")
proof -
  note h = bc_holdsD [OF S(1)]
  have rx: "rx_holds True (rx_asleep T k) r'" if r': "slab_get ops k slab = Some r'" for k r'
  proof -
    from sweptD(2) [OF sw r'] obtain r where
      r: "slab_get ops k (receivers sh) = Some r" "r' = fst (try_deliver v r)" by blast
    from rx_holds_try_deliver [OF h(4) [OF r(1)] calls [OF r(1)]] show ?thesis using r(2) S(2) T(6) by simp
  qed
  have ids: "ids_hold ops T ?sh" if b: "Suc (bumps S) < 2 ^ 64 - 1"
  proof -
    have "unat (rs_id r') \<le> Suc (bumps S)" if "slab_get ops k slab = Some r'" for k r'
      using sweptD(2) [OF sw that] bumped_ids(2) [OF S(1) b] by (auto simp: ids_hold_def try_deliver_def intro: le_SucI)
    with bumped_ids(1) [OF S(1) b] T(3,4) show ?thesis by (simp add: ids_hold_def)
  qed
  have "\<forall>k. slab_get ops k slab \<noteq> None \<longleftrightarrow> k \<in> live S" using sweptD(1) [OF sw] h(3) by blast
  moreover have "\<forall>k. k \<notin> live S \<longrightarrow> rx_asleep T k = None" using h(5) T(6) by simp
  ultimately show ?thesis
    unfolding bc_holds_def using o S(2) h(2,8) T(1-5) rx ids by simp
qed

text \<open>The receivers with room are all of them exactly when they are as many as there are.\<close>

lemma all_iff_card:
  assumes "finite L" and "\<And>k. slab_get ops k s \<noteq> None \<longleftrightarrow> k \<in> L"
  shows "(\<forall>k r. slab_get ops k s = Some r \<longrightarrow> P r) \<longleftrightarrow> card {k. \<exists>r. slab_get ops k s = Some r \<and> P r} = card L"
proof -
  let ?K = "{k. \<exists>r. slab_get ops k s = Some r \<and> P r}"
  have L: "k \<in> L \<longleftrightarrow> (\<exists>r. slab_get ops k s = Some r)" for k using assms(2) [of k] by auto
  then have sub: "?K \<subseteq> L" by auto
  have "(\<forall>k r. slab_get ops k s = Some r \<longrightarrow> P r) \<longleftrightarrow> L \<subseteq> ?K"
    by (simp add: subset_iff L) (metis option.inject)
  with sub have "(\<forall>k r. slab_get ops k s = Some r \<longrightarrow> P r) \<longleftrightarrow> ?K = L" by blast
  then show ?thesis using subset_eq_card [OF assms(1) sub] by simp
qed

text \<open>What a poll of receiver \<open>k\<close> must come to.\<close>

definition takes_one ::
  "('s, 't receiver_state) slab_ops \<Rightarrow> (nat \<Rightarrow> nat) \<Rightarrow> nat \<Rightarrow> waker \<Rightarrow> ('s, 't) bc_sys \<Rightarrow> bool" where
  "takes_one ops alloc k cx S \<longleftrightarrow> (\<exists>S'. bc_exec ops alloc (PollRecv k cx) S = Inr S' \<and> bc_inv ops S' \<and>
     received S' = (received S)(k := received S k @ take 1 (buffered ops S k)) \<and> got ops S' = got ops S)"

context receiver_slab
begin

lemma bc_poll_send_ok:
  assumes "bc_holds ops S sh" and "sending S = Some v"
  shows "\<exists>r ch. send_poll ops cx v (chan S) = Inr (r, ch) \<and>
     bc_inv ops (after_send v cx r (rouse ch S)) \<and>
     (\<forall>n. r = Ready n \<longrightarrow> n = card (live S) \<and>
        (bumps S < 2 ^ 64 - 1 \<longrightarrow> (\<forall>k\<in>live S. got ops (after_send v cx r (rouse ch S)) k = before S k @ [v])))"
proof (cases "live S = {}")
  case True
  note h = bc_holdsD [OF assms(1)]
  have tx: "tx_alive S" using h(6) assms(2) by simp
  then have "broad_owned True 0 sh (bc_rc (chan S))" using h(1) True by simp
  from send_poll_none [OF this] have "send_poll ops cx v (chan S) = Inr (Ready 0, chan S)" .
  moreover have "bc_holds ops (S\<lparr>sending := None, tx_asleep := None, reached := Some 0\<rparr>) sh"
    using assms(1) by (simp add: bc_holds_def ids_hold_def)
  ultimately show ?thesis using True by (auto simp: bc_rouse_quiet after_send_def bc_inv_def)
next
  case False
  note h = bc_holdsD [OF assms(1)]
  have m: "0 < card (live S)" using False h(2) by (simp add: card_gt_0_iff)
  let ?all = "\<forall>k r. slab_get ops k (receivers sh) = Some r \<longrightarrow> can_have (current_id sh) r"
  let ?r = "if ?all then Ready (slab_len ops (receivers sh)) else Pending"
  have o: "broad_owned True (card (live S)) sh (bc_rc (chan S))" using h(1,6) assms(2) by simp
  obtain rc slab calls where
    p: "send_poll ops cx v (chan S) = Inr (?r, \<lparr>bc_rc = rc, bc_woken = bc_woken (chan S) @ calls\<rparr>)"
    "broad_owned True (card (live S)) (sh\<lparr>sender := Some cx, receivers := slab\<rparr>) rc"
    and sw': "\<And>j. slab_get ops j slab = map_option (\<lambda>r. fst (deliver (current_id sh) v r)) (slab_get ops j (receivers sh))"
    and calls: "set calls = {w. \<exists>k r. slab_get ops k (receivers sh) = Some r \<and>
        w \<in> set (snd (snd (deliver (current_id sh) v r)))}"
    by (rule bc_send_poll_eq [OF o m]) (rule that)
  have sw: "swept ops (\<lambda>r. fst (deliver (current_id sh) v r)) (receivers sh) slab" using sw' by (simp add: swept_def)
  let ?ch = "\<lparr>bc_rc = rc, bc_woken = bc_woken (chan S) @ calls\<rparr>"
  obtain T where T: "T = after_send v cx ?r (rouse ?ch S)" by blast
  have frame: "chan T = ?ch" "tx_alive T = tx_alive S" "live T = live S" "received T = received S"
    "before T = before S" "bumps T = bumps S" "\<And>k. rx_asleep T k = roused calls (rx_asleep S k)"
    using bc_rouse_asleep(2) [of ?ch S calls] by (simp_all add: T after_send_def)
  have inv: "bc_holds ops T (sh\<lparr>sender := Some cx, receivers := slab\<rparr>)"
  proof (rule delivered_holds [OF assms sw _ _ frame(2-7)])
    show "set (snd (snd (deliver (current_id sh) v r))) \<subseteq> set calls" if "slab_get ops k (receivers sh) = Some r" for k r
      unfolding calls using that by blast
  qed (use p(2) frame(1) in \<open>auto simp: T after_send_def split: if_splits\<close>)
  have complete: "got ops T k = before S k @ [v]"
    if all: "?all" and b: "bumps S < 2 ^ 64 - 1" and k: "k \<in> live S" for k
  proof -
    from k h(3) obtain r where r: "slab_get ops k (receivers sh) = Some r" by blast
    with all delivered_got [OF assms b sw inv frame(4) r] show ?thesis by blast
  qed
  have len: "slab_len ops (receivers sh) = card (live S)" using h(3) card_entries [of "receivers sh"] by simp
  show ?thesis
    using p(1) inv complete len T by (intro exI [of _ ?r] exI [of _ ?ch]) (auto simp: bc_inv_def split: if_splits)
qed

text \<open>A new \<open>send\<close> is a suspended one under a new identifier that no receiver has yet.\<close>

lemma bumped_holds:
  assumes "bc_holds ops S sh" and "sending S = None" and "tx_alive S"
  shows "\<exists>rc. bump_message_id (chan S) = Inr ((chan S)\<lparr>bc_rc := rc\<rparr>) \<and>
     bc_holds ops (S\<lparr>chan := (chan S)\<lparr>bc_rc := rc\<rparr>, before := got ops S, bumps := Suc (bumps S),
         sending := Some v\<rparr>) (sh\<lparr>current_id := next_id (current_id sh)\<rparr>)"
proof -
  note h = bc_holdsD [OF assms(1)]
  have o: "broad_owned True (card (live S)) sh (bc_rc (chan S))" using h(1) assms(3) by simp
  from bump_eq [OF o] obtain rc where
    1: "bump_message_id (chan S) = Inr ((chan S)\<lparr>bc_rc := rc\<rparr>)"
    "broad_owned True (card (live S)) (sh\<lparr>current_id := next_id (current_id sh)\<rparr>) rc"
    by blast
  have t: "tx_asleep S = None" using h(7) assms(2) by blast
  have "ids_hold ops (S\<lparr>chan := (chan S)\<lparr>bc_rc := rc\<rparr>, before := got ops S, bumps := Suc (bumps S),
      sending := Some v\<rparr>) (sh\<lparr>current_id := next_id (current_id sh)\<rparr>)"
    if b: "Suc (bumps S) < 2 ^ 64 - 1"
  proof -
    have i: "ids_hold ops S sh" using h(9) b by simp
    then have n: "unat (next_id (current_id sh)) = Suc (bumps S)"
      using b next_id_eq [of "current_id sh"] by (simp add: ids_hold_def)
    have "unat (rs_id r) \<le> bumps S" if "slab_get ops k (receivers sh) = Some r" for k r
      using i that by (simp add: ids_hold_def)
    moreover from this have "rs_id r \<noteq> next_id (current_id sh)"
      if "slab_get ops k (receivers sh) = Some r" for k r
      using that n by (metis Suc_n_not_le_n)
    ultimately show ?thesis
      using n by (auto simp: ids_hold_def got_def buffered_eq [OF assms(1)] intro: le_SucI)
  qed
  with 1 assms(1,3) t show ?thesis
    by (intro exI [of _ rc]) (simp add: bc_holds_def)
qed

lemma start_send_ok:
  assumes "bc_holds ops S sh" and "sending S = None" and "tx_alive S"
  shows "\<exists>S'. bc_exec ops alloc (StartSend v cx) S = Inr S' \<and> bc_inv ops S'"
proof -
  from bumped_holds [OF assms, of v] obtain rc where
    1: "bump_message_id (chan S) = Inr ((chan S)\<lparr>bc_rc := rc\<rparr>)"
    "bc_holds ops (S\<lparr>chan := (chan S)\<lparr>bc_rc := rc\<rparr>, before := got ops S, bumps := Suc (bumps S),
         sending := Some v\<rparr>) (sh\<lparr>current_id := next_id (current_id sh)\<rparr>)"
    by blast
  let ?T = "S\<lparr>chan := (chan S)\<lparr>bc_rc := rc\<rparr>, before := got ops S, bumps := Suc (bumps S), sending := Some v\<rparr>"
  from bc_poll_send_ok [OF 1(2), of v cx] obtain r ch where
    2: "send_poll ops cx v ((chan S)\<lparr>bc_rc := rc\<rparr>) = Inr (r, ch)" "bc_inv ops (after_send v cx r (rouse ch ?T))"
    by auto
  have "after_send v cx r ((rouse ch S)\<lparr>before := got ops S, bumps := Suc (bumps S)\<rparr>) =
      after_send v cx r (rouse ch ?T)"
    by (simp add: after_send_def rouse_def Let_def split: poll.split)
  with 1(1) 2 show ?thesis by (simp add: send_start_def)
qed

lemma subscribe_ok:
  assumes "bc_holds ops S sh" and "sending S = None" and "tx_alive S" and "card (live S) < 2 ^ 64 - 1"
  shows "\<exists>S'. bc_exec ops alloc Subscribe S = Inr S' \<and> bc_inv ops S'"
proof -
  note h = bc_holdsD [OF assms(1)]
  let ?new = "\<lparr>rs_id = current_id sh, rs_waker = None,
      rs_buf = vd_with_capacity alloc (unat (case per_receiver sh of Some c \<Rightarrow> c | None \<Rightarrow> default_capacity)),
      rs_unbounded = Option.is_none (per_receiver sh)\<rparr> :: 't receiver_state"
  obtain index slab where i: "slab_insert ops ?new (receivers sh) = (index, slab)"
    by (cases "slab_insert ops ?new (receivers sh)")
  have o: "broad_owned True (card (live S)) sh (bc_rc (chan S))" using h(1) assms(3) by simp
  from subscribe_eq [OF o assms(4) i] obtain rc where
    s: "subscribe ops alloc (chan S) = Inr (index, (chan S)\<lparr>bc_rc := rc\<rparr>)"
    "broad_owned True (Suc (card (live S))) (sh\<lparr>receivers := slab\<rparr>) rc"
    by blast
  have slab: "slab_get ops index (receivers sh) = None"
    "\<And>j. slab_get ops j slab = (if j = index then Some ?new else slab_get ops j (receivers sh))"
    using insert_law [OF i] by auto
  then have new: "index \<notin> live S" using h(3) [of index] by simp
  have asleep: "rx_asleep S index = None" using h(5) [OF new] .
  have "rx_holds True None ?new"
  proof (cases "per_receiver sh")
    case (Some c)
    with h(8) have "0 < unat c" by (auto simp: unat_gt_0)
    with alloc_law [of "unat c"] Some show ?thesis by (simp add: rx_holds_def vd_len_def)
  qed (simp add: rx_holds_def)
  then have r: "rx_holds True (rx_asleep S k) r" if "slab_get ops k slab = Some r" for k r
    using that slab(2) [of k] h(4) [of k r] assms(3) asleep by (auto split: if_splits)
  have t: "tx_asleep S = None" using h(7) assms(2) by blast
  let ?S' = "S\<lparr>chan := (chan S)\<lparr>bc_rc := rc\<rparr>, live := insert index (live S), received := (received S)(index := [])\<rparr>"
  have "ids_hold ops ?S' (sh\<lparr>receivers := slab\<rparr>)" if "bumps S < 2 ^ 64 - 1"
    using h(9) [OF that] slab assms(2) by (auto simp: ids_hold_def split: if_splits)
  moreover have "card (insert index (live S)) = Suc (card (live S))" using new h(2) by simp
  moreover have "slab_get ops k slab \<noteq> None \<longleftrightarrow> k \<in> insert index (live S)" for k
    using slab(2) [of k] h(3) [of k] by auto
  ultimately have "bc_inv ops ?S'"
    using s(2) h(2,5,8) r assms(2,3) t new by (intro bc_holdsI [where sh = "sh\<lparr>receivers := slab\<rparr>"]) auto
  with s(1) show ?thesis by (simp add: bc_rouse_quiet)
qed

lemma bc_try_send_nobody:
  assumes "bc_holds ops S sh" and "sending S = None" and "tx_alive S" and "live S = {}"
  shows "\<exists>S'. bc_exec ops alloc (TrySend v) S = Inr S' \<and> bc_inv ops S' \<and> tried S' = Some (Ok 0)"
proof -
  note h = bc_holdsD [OF assms(1)]
  have o: "broad_owned True 0 sh (bc_rc (chan S))" using h(1) assms(3,4) by simp
  have t: "tx_asleep S = None" using h(7) assms(2) by blast
  let ?id = "next_id (current_id sh)"
  from try_send_none [OF o, of v] obtain rc where
    p: "try_send ops v (chan S) = Inr (Ok 0, (chan S)\<lparr>bc_rc := rc\<rparr>)" "broad_owned True 0 (sh\<lparr>current_id := ?id\<rparr>) rc"
    by blast
  have none: "slab_get ops k (receivers sh) = None" for k using h(3) [of k] assms(4) by simp
  have "bc_inv ops (S\<lparr>chan := (chan S)\<lparr>bc_rc := rc\<rparr>, tried := Some (Ok 0), bumps := Suc (bumps S)\<rparr>)"
    using p(2) h(5,8) assms(2-4) t none bumped_ids [OF assms(1)]
    by (intro bc_holdsI [where sh = "sh\<lparr>current_id := ?id\<rparr>"]) (auto simp: ids_hold_def)
  with p(1) show ?thesis by (simp add: bc_rouse_quiet)
qed

lemma bc_try_send_ok:
  assumes "bc_holds ops S sh" and "sending S = None" and "tx_alive S"
  shows "\<exists>S'. bc_exec ops alloc (TrySend v) S = Inr S' \<and> bc_inv ops S' \<and>
     (\<forall>k r. slab_get ops k (receivers sh) = Some r \<longrightarrow>
        got ops S' k = got ops S k @ (if rs_at_capacity r then [] else [v])) \<and>
     tried S' = Some (let n = card {k. \<exists>r. slab_get ops k (receivers sh) = Some r \<and> \<not> rs_at_capacity r} in
        if n = card (live S) then Ok n else Err (UnderCapacity n))"
proof (cases "live S = {}")
  case True
  have "slab_get ops k (receivers sh) = None" for k using bc_holdsD(3) [OF assms(1), of k] True by simp
  with True bc_try_send_nobody [OF assms True] show ?thesis by simp
next
  case False
  note h = bc_holdsD [OF assms(1)]
  have o: "broad_owned True (card (live S)) sh (bc_rc (chan S))" using h(1) assms(3) by simp
  have m: "0 < card (live S)" using False h(2) by (simp add: card_gt_0_iff)
  let ?room = "{k. \<exists>r. slab_get ops k (receivers sh) = Some r \<and> \<not> rs_at_capacity r}"
  let ?all = "\<forall>k r. slab_get ops k (receivers sh) = Some r \<longrightarrow> \<not> rs_at_capacity r"
  let ?sh = "\<lambda>slab. sh\<lparr>current_id := next_id (current_id sh), receivers := slab\<rparr>"
  obtain rc slab calls where
    p: "try_send ops v (chan S) = Inr (let n = card ?room in if ?all then Ok n else Err (UnderCapacity n),
        \<lparr>bc_rc = rc, bc_woken = bc_woken (chan S) @ calls\<rparr>)"
    "broad_owned True (card (live S)) (?sh slab) rc"
    and sw': "\<And>j. slab_get ops j slab = map_option (\<lambda>r. fst (try_deliver v r)) (slab_get ops j (receivers sh))"
    and calls: "set calls = {w. \<exists>k r. slab_get ops k (receivers sh) = Some r \<and> w \<in> set (snd (snd (try_deliver v r)))}"
    by (rule bc_try_send_eq [OF o m]) (rule that)
  have sw: "swept ops (\<lambda>r. fst (try_deliver v r)) (receivers sh) slab" using sw' by (simp add: swept_def)
  let ?ch = "\<lparr>bc_rc = rc, bc_woken = bc_woken (chan S) @ calls\<rparr>"
  have all: "?all \<longleftrightarrow> card ?room = card (live S)" by (rule all_iff_card [OF h(2,3)])
  let ?res = "let n = card ?room in if n = card (live S) then Ok n else Err (UnderCapacity n)"
  obtain T where T: "T = (rouse ?ch S)\<lparr>tried := Some ?res, bumps := Suc (bumps S)\<rparr>" by blast
  have t: "tx_asleep S = None" using h(7) assms(2) by blast
  have frame: "chan T = ?ch" "received T = received S" "tried T = Some ?res"
    and frame': "tx_alive T = tx_alive S" "live T = live S" "bumps T = Suc (bumps S)" "sending T = None" "tx_asleep T = None"
      "\<And>k. rx_asleep T k = roused calls (rx_asleep S k)"
    using bc_rouse_asleep [of ?ch S calls] assms(2) t by (simp_all add: T)
  have inv: "bc_holds ops T (?sh slab)"
  proof (rule tried_holds [OF assms(1,3) sw _ _ frame'])
    show "set (snd (snd (try_deliver v r))) \<subseteq> set calls" if "slab_get ops k (receivers sh) = Some r" for k r
      unfolding calls using that by blast
  qed (use p(2) frame(1) in simp)
  have "got ops T k = got ops S k @ (if rs_at_capacity r then [] else [v])" if "slab_get ops k (receivers sh) = Some r" for k r
    using that sweptD(3) [OF sw that] frame(2)
    by (simp add: got_def buffered_eq [OF inv] buffered_eq [OF assms(1)] try_deliver_def)
  moreover have "bc_exec ops alloc (TrySend v) S = Inr T" using p(1) by (simp add: all T)
  ultimately show ?thesis using inv frame(3) by (auto simp: bc_inv_def)
qed

lemma bc_drop_sender_ok:
  assumes "bc_holds ops S sh" and "sending S = None" and "tx_alive S"
  shows "\<exists>S'. bc_exec ops alloc DropSender S = Inr S' \<and> bc_inv ops S'"
proof -
  note h = bc_holdsD [OF assms(1)]
  have o: "broad_owned True (card (live S)) sh (bc_rc (chan S))" using h(1) assms(3) by simp
  have t: "tx_asleep S = None" using h(7) assms(2) by blast
  obtain rc slab calls where
    p: "sender_drop ops (chan S) = Inr \<lparr>bc_rc = rc, bc_woken = bc_woken (chan S) @ calls\<rparr>"
    "broad_owned False (card (live S)) (sh\<lparr>receivers := slab\<rparr>) rc"
    and sw': "\<And>j. slab_get ops j slab = map_option (\<lambda>r. fst (take_waker r)) (slab_get ops j (receivers sh))"
    and calls: "set calls = {w. \<exists>k r. slab_get ops k (receivers sh) = Some r \<and> w \<in> set (snd (snd (take_waker r)))}"
    by (rule bc_sender_drop_eq [OF o]) (rule that)
  have sw: "swept ops (\<lambda>r. fst (take_waker r)) (receivers sh) slab" using sw' by (simp add: swept_def)
  let ?ch = "\<lparr>bc_rc = rc, bc_woken = bc_woken (chan S) @ calls\<rparr>"
  let ?sh = "sh\<lparr>receivers := slab\<rparr>"
  obtain T where T: "T = (rouse ?ch S)\<lparr>tx_alive := False\<rparr>" by blast
  have frame [simp]: "chan T = ?ch" "tx_alive T = False" "live T = live S" "received T = received S"
    "before T = before S" "bumps T = bumps S" "sending T = None" "tx_asleep T = None"
    using bc_rouse_asleep(1) [of ?ch S calls] assms(2) t by (simp_all add: T)
  have asleep: "rx_asleep T k = roused calls (rx_asleep S k)" for k
    using bc_rouse_asleep(2) [of ?ch S calls] by (simp add: T)
  have rx: "rx_holds False (rx_asleep T k) r'" if r': "slab_get ops k slab = Some r'" for k r'
  proof -
    from r' sweptD(2) [OF sw] obtain r where
      r: "slab_get ops k (receivers sh) = Some r" "r' = fst (take_waker r)" by blast
    have "set (snd (snd (take_waker r))) \<subseteq> set calls" unfolding calls using r(1) by blast
    from rx_holds_take_waker [OF h(4) [OF r(1)] this] show ?thesis using r(2) by (simp add: asleep)
  qed
  have ids: "ids_hold ops T ?sh" if "bumps S < 2 ^ 64 - 1"
  proof -
    have "unat (rs_id r') \<le> bumps S" if "slab_get ops k slab = Some r'" for k r'
      using sweptD(2) [OF sw that] h(9) [OF \<open>bumps S < 2 ^ 64 - 1\<close>] by (auto simp: ids_hold_def take_waker_def)
    with h(9) [OF that] show ?thesis by (simp add: ids_hold_def)
  qed
  have keys: "\<forall>k. slab_get ops k slab \<noteq> None \<longleftrightarrow> k \<in> live S" using sweptD(1) [OF sw] h(3) by blast
  have idle: "\<forall>k. k \<notin> live S \<longrightarrow> rx_asleep T k = None" using h(5) by (simp add: asleep)
  have "bc_rc (chan T) = rc" by simp
  then have "bc_holds ops T ?sh"
    unfolding bc_holds_def using p(2) h(2,8) keys idle rx ids by simp
  moreover have "bc_exec ops alloc DropSender S = Inr T" using p(1) by (simp add: T)
  ultimately show ?thesis by (auto simp: bc_inv_def)
qed

text \<open>One receiver is rewritten, and the sender may be called.\<close>

lemma update_one:
  assumes "bc_holds ops S sh" and "slab_get ops k (receivers sh) = Some r"
    and "broad_owned (tx_alive S) (card (live S)) (sh\<lparr>receivers := slab_put ops k r' (receivers sh)\<rparr>) rc"
    and "rx_holds (tx_alive S) w r'" and "rs_id r' = rs_id r" and "xs @ elems (rs_buf r') = received S k @ elems (rs_buf r)"
    and "calls = waker_calls (sender sh) \<or> calls = [] \<and> tx_asleep S = None"
  shows "bc_holds ops ((rouse \<lparr>bc_rc = rc, bc_woken = bc_woken (chan S) @ calls\<rparr> S)
      \<lparr>rx_asleep := (rx_asleep (rouse \<lparr>bc_rc = rc, bc_woken = bc_woken (chan S) @ calls\<rparr> S))(k := w),
       received := (received S)(k := xs)\<rparr>) (sh\<lparr>receivers := slab_put ops k r' (receivers sh)\<rparr>)"
proof -
  note h = bc_holdsD [OF assms(1)]
  let ?ch = "\<lparr>bc_rc = rc, bc_woken = bc_woken (chan S) @ calls\<rparr>"
  let ?sh = "sh\<lparr>receivers := slab_put ops k r' (receivers sh)\<rparr>"
  obtain T where T: "T = (rouse ?ch S)\<lparr>rx_asleep := (rx_asleep (rouse ?ch S))(k := w),
       received := (received S)(k := xs)\<rparr>" by blast
  have "tx_asleep T = roused calls (tx_asleep S)" using bc_rouse_asleep(1) [of ?ch S calls] by (simp add: T)
  moreover have "roused calls (tx_asleep S) = None"
  proof (cases "tx_asleep S")
    case (Some x)
    with h(7) have "sender sh = tx_asleep S" by blast
    with Some assms(7) show ?thesis by (auto intro: roused_calls)
  qed simp
  ultimately have frame [simp]: "tx_asleep T = None" "chan T = ?ch" "tx_alive T = tx_alive S" "live T = live S"
    "received T = (received S)(k := xs)" "before T = before S" "bumps T = bumps S" "sending T = sending S"
    by (simp_all add: T)
  have asleep: "rx_asleep T j = (if j = k then w else roused calls (rx_asleep S j))" for j
    using bc_rouse_asleep(2) [of ?ch S calls] by (simp add: T)
  have put: "slab_get ops j (slab_put ops k r' (receivers sh)) = (if j = k then Some r' else slab_get ops j (receivers sh))" for j
    using assms(2) by (simp add: put_law)
  have k: "k \<in> live S" using h(3) [of k] assms(2) by simp
  have rx: "rx_holds (tx_alive S) (rx_asleep T j) q" if "slab_get ops j (receivers ?sh) = Some q" for j q
    using that h(4) [of j q] assms(4) rx_holds_roused [of "tx_alive S" "rx_asleep S j" q calls]
    by (auto simp: put asleep split: if_splits)
  have keys: "\<forall>j. slab_get ops j (receivers ?sh) \<noteq> None \<longleftrightarrow> j \<in> live S" using h(3) k by (auto simp: put)
  have idle: "\<forall>j. j \<notin> live S \<longrightarrow> rx_asleep T j = None" using h(5) k by (auto simp: asleep)
  have ids: "ids_hold ops T ?sh" if "bumps S < 2 ^ 64 - 1"
    using h(9) [OF that] assms(2,5,6) by (auto simp: ids_hold_def put split: if_splits)
  have "bc_rc (chan T) = rc" by simp
  then have "bc_holds ops T ?sh"
    unfolding bc_holds_def using assms(3) h(2,6,8) keys idle rx ids by simp
  then show ?thesis by (simp add: T)
qed

lemma got_same:
  assumes "bc_holds ops S sh" and r: "slab_get ops k (receivers sh) = Some r"
    and T: "bc_holds ops T (sh\<lparr>receivers := slab_put ops k r' (receivers sh)\<rparr>)"
      "received T = (received S)(k := xs)" "xs @ elems (rs_buf r') = received S k @ elems (rs_buf r)"
  shows "got ops T = got ops S"
proof
  fix j show "got ops T j = got ops S j"
    using r T(2,3) by (auto simp: got_def buffered_eq [OF T(1)] buffered_eq [OF assms(1)] put_law)
qed

lemma bc_poll_recv_some:
  assumes "bc_holds ops S sh" and r: "slab_get ops k (receivers sh) = Some r" and m: "card (live S) = Suc m"
    and v: "elems (rs_buf r) = v # vs"
  shows "takes_one ops alloc k cx S"
proof -
  note h = bc_holdsD [OF assms(1)]
  have o: "broad_owned (tx_alive S) (Suc m) sh (bc_rc (chan S))" using h(1) m by simp
  let ?r = "r\<lparr>rs_buf := (rs_buf r)\<lparr>elems := vs\<rparr>\<rparr>"
  from bc_recv_poll_eq(1) [OF o r v, of cx] obtain rc where
    p: "recv_poll ops k cx (chan S) = Inr (Ready (Some v),
        \<lparr>bc_rc = rc, bc_woken = bc_woken (chan S) @ waker_calls (sender sh)\<rparr>)"
    "broad_owned (tx_alive S) (card (live S)) (sh\<lparr>receivers := slab_put ops k ?r (receivers sh)\<rparr>) rc"
    using m by auto
  have x: "(received S k @ [v]) @ elems (rs_buf ?r) = received S k @ elems (rs_buf r)" using v by simp
  have "rx_holds (tx_alive S) None ?r" using h(4) [OF r] v by (auto simp: rx_holds_def vd_len_def)
  from update_one [OF assms(1) r p(2) this _ x, of "waker_calls (sender sh)"] got_same [OF assms(1) r _ _ x] p(1) v
    buffered_eq [OF assms(1), of k] r
  show ?thesis by (auto simp: takes_one_def bc_inv_def)
qed

lemma bc_poll_recv_end:
  assumes "bc_holds ops S sh" and r: "slab_get ops k (receivers sh) = Some r" and m: "card (live S) = Suc m"
    and e: "elems (rs_buf r) = []" and t: "\<not> tx_alive S"
  shows "takes_one ops alloc k cx S"
proof -
  note h = bc_holdsD [OF assms(1)]
  have o: "broad_owned (tx_alive S) (Suc m) sh (bc_rc (chan S))" using h(1) m by simp
  let ?r = "r\<lparr>rs_waker := None\<rparr>"
  from bc_recv_poll_eq(2) [OF o r e t, of cx] obtain rc where
    p: "recv_poll ops k cx (chan S) = Inr (Ready None, (chan S)\<lparr>bc_rc := rc\<rparr>)"
    "broad_owned (tx_alive S) (card (live S)) (sh\<lparr>receivers := slab_put ops k ?r (receivers sh)\<rparr>) rc"
    using m by auto
  have x: "received S k @ elems (rs_buf ?r) = received S k @ elems (rs_buf r)" by simp
  have "tx_asleep S = None" using h(6,7) t by blast
  moreover have "rx_holds (tx_alive S) None ?r" using h(4) [OF r] by (auto simp: rx_holds_def)
  ultimately show ?thesis
    using update_one [OF assms(1) r p(2) _ _ x, of None "[]"] got_same [OF assms(1) r _ _ x] p(1) e
      buffered_eq [OF assms(1), of k] r
    by (cases "chan S") (auto simp: takes_one_def bc_inv_def)
qed

lemma bc_poll_recv_waits:
  assumes "bc_holds ops S sh" and r: "slab_get ops k (receivers sh) = Some r" and m: "card (live S) = Suc m"
    and e: "elems (rs_buf r) = []" and t: "tx_alive S"
  shows "takes_one ops alloc k cx S"
proof -
  note h = bc_holdsD [OF assms(1)]
  have o: "broad_owned (tx_alive S) (Suc m) sh (bc_rc (chan S))" using h(1) m by simp
  let ?r = "r\<lparr>rs_waker := Some cx\<rparr>"
  from bc_recv_poll_eq(3) [OF o r e t, of cx] obtain rc where
    p: "recv_poll ops k cx (chan S) = Inr (Pending,
        \<lparr>bc_rc = rc, bc_woken = bc_woken (chan S) @ waker_calls (sender sh)\<rparr>)"
    "broad_owned (tx_alive S) (card (live S)) (sh\<lparr>receivers := slab_put ops k ?r (receivers sh)\<rparr>) rc"
    using m by auto
  let ?ch = "\<lparr>bc_rc = rc, bc_woken = bc_woken (chan S) @ waker_calls (sender sh)\<rparr>"
  have x: "received S k @ elems (rs_buf ?r) = received S k @ elems (rs_buf r)" by simp
  have "rx_holds (tx_alive S) (Some cx) ?r" using h(4) [OF r] t e by (auto simp: rx_holds_def)
  from update_one [OF assms(1) r p(2) this _ x, of "waker_calls (sender sh)"]
  have i: "bc_holds ops ((rouse ?ch S)\<lparr>rx_asleep := (rx_asleep (rouse ?ch S))(k := Some cx),
      received := (received S)(k := received S k)\<rparr>) (sh\<lparr>receivers := slab_put ops k ?r (receivers sh)\<rparr>)"
    by simp
  have q: "(rouse ?ch S)\<lparr>rx_asleep := (rx_asleep (rouse ?ch S))(k := Some cx),
      received := (received S)(k := received S k)\<rparr> =
      (rouse ?ch S)\<lparr>rx_asleep := (rx_asleep (rouse ?ch S))(k := Some cx)\<rparr>"
    by (simp add: rouse_def Let_def)
  from i got_same [OF assms(1) r i _ x] p(1) e buffered_eq [OF assms(1), of k] r show ?thesis
    unfolding q by (auto simp: takes_one_def bc_inv_def)
qed

lemma bc_poll_recv_ok:
  assumes "bc_holds ops S sh" and "k \<in> live S"
  shows "\<exists>S'. bc_exec ops alloc (PollRecv k cx) S = Inr S' \<and> bc_inv ops S' \<and>
     received S' = (received S)(k := received S k @ take 1 (buffered ops S k)) \<and>
     got ops S' = got ops S"
proof -
  from bc_holdsD(3) [OF assms(1), of k] assms(2) obtain r where r: "slab_get ops k (receivers sh) = Some r" by auto
  obtain m where m: "card (live S) = Suc m" using card_live_pos [OF bc_holdsD(2) [OF assms(1)] assms(2)] by simp
  have "takes_one ops alloc k cx S"
  proof (cases "elems (rs_buf r)")
    case Nil
    with bc_poll_recv_end [OF assms(1) r m] bc_poll_recv_waits [OF assms(1) r m] show ?thesis by blast
  qed (rule bc_poll_recv_some [OF assms(1) r m])
  then show ?thesis by (simp add: takes_one_def)
qed

lemma bc_drop_receiver_ok:
  assumes "bc_holds ops S sh" and "k \<in> live S"
  shows "\<exists>S'. bc_exec ops alloc (DropReceiver k) S = Inr S' \<and> bc_inv ops S'"
proof -
  note h = bc_holdsD [OF assms(1)]
  obtain m where m: "card (live S) = Suc m" "card (live S - {k}) = m"
    using card_live_pos [OF h(2) assms(2)] by simp
  have o: "broad_owned (tx_alive S) (Suc m) sh (bc_rc (chan S))" using h(1) m by simp
  let ?sh = "sh\<lparr>receivers := slab_remove ops k (receivers sh), sender := None\<rparr>"
  from bc_receiver_drop_eq [OF o, of k] obtain rc where
    p: "receiver_drop ops k (chan S) = Inr \<lparr>bc_rc = rc, bc_woken = bc_woken (chan S) @ waker_calls (sender sh)\<rparr>"
    "broad_owned (tx_alive S) m ?sh rc"
    by blast
  let ?ch = "\<lparr>bc_rc = rc, bc_woken = bc_woken (chan S) @ waker_calls (sender sh)\<rparr>"
  obtain T where T: "T = (rouse ?ch S)\<lparr>live := live S - {k}, rx_asleep := (rx_asleep (rouse ?ch S))(k := None)\<rparr>"
    by blast
  have "tx_asleep T = roused (waker_calls (sender sh)) (tx_asleep S)"
    using bc_rouse_asleep(1) [of ?ch S "waker_calls (sender sh)"] by (simp add: T)
  moreover have "roused (waker_calls (sender sh)) (tx_asleep S) = None"
  proof (cases "tx_asleep S")
    case (Some x)
    with h(7) have "sender sh = tx_asleep S" by blast
    then show ?thesis by (auto intro: roused_calls)
  qed simp
  ultimately have frame [simp]: "tx_asleep T = None" "chan T = ?ch" "tx_alive T = tx_alive S" "live T = live S - {k}"
    "received T = received S" "before T = before S" "bumps T = bumps S" "sending T = sending S"
    by (simp_all add: T)
  have asleep: "rx_asleep T j = (if j = k then None else roused (waker_calls (sender sh)) (rx_asleep S j))" for j
    using bc_rouse_asleep(2) [of ?ch S "waker_calls (sender sh)"] by (simp add: T)
  have rx: "rx_holds (tx_alive S) (rx_asleep T j) q" if "slab_get ops j (receivers ?sh) = Some q" for j q
    using that h(4) [of j q] rx_holds_roused [of "tx_alive S" "rx_asleep S j" q "waker_calls (sender sh)"]
    by (auto simp: remove_law asleep split: if_splits)
  have keys: "\<forall>j. slab_get ops j (receivers ?sh) \<noteq> None \<longleftrightarrow> j \<in> live S - {k}"
    using h(3) by (auto simp: remove_law)
  have idle: "\<forall>j. j \<notin> live S - {k} \<longrightarrow> rx_asleep T j = None" using h(5) by (auto simp: asleep)
  have ids: "ids_hold ops T ?sh" if "bumps S < 2 ^ 64 - 1"
    using h(9) [OF that] by (auto simp: ids_hold_def remove_law)
  have "bc_rc (chan T) = rc" by simp
  then have "bc_holds ops T ?sh"
    unfolding bc_holds_def using p(2) m h(2,6,8) keys idle rx ids by simp
  moreover have "bc_exec ops alloc (DropReceiver k) S = Inr T" using p(1) by (simp add: T)
  ultimately show ?thesis by (auto simp: bc_inv_def)
qed

lemma bc_exec_ok:
  assumes "bc_inv ops S" and "bc_enabled op S" and "op = Subscribe \<longrightarrow> card (live S) < 2 ^ 64 - 1"
  shows "\<exists>S'. bc_exec ops alloc op S = Inr S' \<and> bc_inv ops S'"
proof -
  from assms(1) obtain sh where sh: "bc_holds ops S sh" by (auto simp: bc_inv_def)
  show ?thesis
  proof (cases op)
    case Subscribe
    with assms(2,3) subscribe_ok [OF sh] show ?thesis by (simp add: Option.is_none_def)
  next
    case (TrySend v)
    with assms(2) bc_try_send_ok [OF sh, of v] show ?thesis by (auto simp: Option.is_none_def)
  next
    case (StartSend v cx)
    with assms(2) start_send_ok [OF sh, of v cx] show ?thesis by (simp add: Option.is_none_def)
  next
    case (PollSend cx)
    then obtain v where "sending S = Some v" using assms(2) by (auto simp: Option.is_none_def)
    with PollSend bc_poll_send_ok [OF sh this, of cx] show ?thesis by auto
  next
    case CancelSend
    have "bc_holds ops (S\<lparr>sending := None, tx_asleep := None\<rparr>) sh"
      using sh by (simp add: bc_holds_def ids_hold_def)
    with CancelSend show ?thesis by (auto simp: bc_inv_def)
  next
    case DropSender
    with assms(2) bc_drop_sender_ok [OF sh] show ?thesis by (simp add: Option.is_none_def)
  next
    case (PollRecv k cx)
    with assms(2) bc_poll_recv_ok [OF sh, of k cx] show ?thesis by auto
  next
    case (CancelRecv k)
    note h = bc_holdsD [OF sh]
    let ?T = "S\<lparr>rx_asleep := (rx_asleep S)(k := None)\<rparr>"
    have rx: "rx_holds (tx_alive ?T) (rx_asleep ?T j) r" if "slab_get ops j (receivers sh) = Some r" for j r
      using h(4) [OF that] by (simp add: rx_holds_def)
    have "bc_inv ops ?T"
      by (rule bc_holdsI [where sh = sh, OF _ _ _ rx]) (use h in \<open>simp_all add: ids_hold_def\<close>)
    with CancelRecv show ?thesis by simp
  next
    case (DropReceiver k)
    with assms(2) bc_drop_receiver_ok [OF sh, of k] show ?thesis by simp
  qed
qed

lemma bc_start_inv:
  assumes "bc_start ops S"
  shows "bc_inv ops S"
proof -
  have "bc_inv ops (bc_sys_of \<lparr>bc_rc = broad_rc_new sh, bc_woken = []\<rparr>)"
    if "current_id sh = 0" "receivers sh = slab_new ops" "per_receiver sh \<noteq> Some 0" for sh
    using that broad.make_law [of sh] new_law
    by (intro bc_holdsI [where sh = sh]) (simp_all add: bc_sys_of_def ids_hold_def)
  with assms show ?thesis
    by (auto simp: bc_start_def unbounded_channel_def channel_def split: if_splits)
qed

end

end
