(* ===== verification/Broadcast_Props.thy ===== *)
theory Broadcast_Props
  imports Broadcast_System
begin

text \<open>
  The properties of the broadcast channel, for any slab that keeps the documented laws and any
  allocator that keeps the promise of the standard library, with witnesses on the vector slab, and
  the tests of the crate and the examples of its documentation run on the model.
\<close>

section \<open>Reachable states\<close>

lemma subscribe_full:
  assumes "receiver_slab ops alloc" and "bc_holds ops S sh" and "tx_alive S" and "\<not> card (live S) < 2 ^ 64 - 1"
  shows "bc_exec ops alloc Subscribe S = Inl Abort"
proof -
  have o: "broad_owned True (card (live S)) sh (bc_rc (chan S))"
    using bc_holdsD(1) [OF assms(2)] assms(3) by simp
  have weak: "broad_rc_weak rc = Inl Abort" if "broad_owned True (card (live S)) w rc" for w rc
    using that assms(4) by (auto simp: broad_owned_def broad_rc_weak_def checked_increment_eq split: option.splits)
  obtain cap unbounded where c: "(case per_receiver sh of Some c \<Rightarrow> (c, False)
      | None \<Rightarrow> (default_capacity, True)) = (cap, unbounded)"
    by fastforce
  obtain index slab where i: "slab_insert ops
      \<lparr>rs_id = current_id sh, rs_waker = None, rs_buf = vd_with_capacity alloc (unat cap),
       rs_unbounded = unbounded\<rparr> (receivers sh) = (index, slab)"
    by fastforce
  from broad.put_law [OF o, of "sh\<lparr>receivers := slab\<rparr>"] obtain rc where
    p: "broad_put (sh\<lparr>receivers := slab\<rparr>) (bc_rc (chan S)) = Inr rc"
    "broad_owned True (card (live S)) (sh\<lparr>receivers := slab\<rparr>) rc"
    by blast
  have "new_receiver ops alloc (chan S) = Inr (index, (chan S)\<lparr>bc_rc := rc\<rparr>)"
    using broad.get_strong_law [OF o] c i p(1) by (simp add: new_receiver_def)
  with weak [OF p(2)] show ?thesis by (simp add: subscribe_def)
qed

lemma bc_step_inv:
  assumes "receiver_slab ops alloc" and "bc_step ops alloc S T" and "bc_inv ops S"
  shows "bc_inv ops T"
  using assms(2)
proof cases
  case (bc_call op)
  have "op = Subscribe \<longrightarrow> card (live S) < 2 ^ 64 - 1"
    using bc_call subscribe_full [OF assms(1)] assms(3) by (fastforce simp: bc_inv_def)
  from receiver_slab.bc_exec_ok [OF assms(1,3) bc_call(1) this] bc_call(2) show ?thesis by auto
qed

lemma bc_inductive:
  assumes "receiver_slab ops alloc"
  shows "inductive_invariant (bc_start ops) (bc_step ops alloc) (bc_inv ops)"
  by unfold_locales (rule receiver_slab.bc_start_inv [OF assms] bc_step_inv [OF assms]; assumption)+

interpretation bc_vec: inductive_invariant "bc_start vec_slab" "bc_step vec_slab alloc_exact" "bc_inv vec_slab"
  by (rule bc_inductive) (rule vec_receivers.receiver_slab_axioms)

abbreviation bc_reachable ::
  "('s, 't receiver_state) slab_ops \<Rightarrow> (nat \<Rightarrow> nat) \<Rightarrow> ('s, 't) bc_sys \<Rightarrow> bool" where
  "bc_reachable ops alloc \<equiv> reachable (bc_start ops) (bc_step ops alloc)"

lemma bc_reachable_holds:
  assumes "receiver_slab ops alloc" and "bc_reachable ops alloc S"
  obtains sh where "bc_holds ops S sh"
  using inductive_invariant.inv_reachable [OF bc_inductive [OF assms(1)] assms(2)]
  by (auto simp: bc_inv_def)

section \<open>Properties\<close>

text \<open>C34.
  No call on a broadcast channel faults, whatever the order of subscriptions, sends, polls,
  cancellations and drops; the one exception is a subscription when \<open>usize::MAX\<close> receivers are
  alive, which aborts.  The shared allocation is freed exactly when the sender and every receiver
  are gone.
\<close>

theorem broadcast_memory_safe:
  assumes "receiver_slab ops alloc" and "bc_reachable ops alloc S"
  shows "(bc_rc (chan S) = None \<longleftrightarrow> \<not> tx_alive S \<and> live S = {}) \<and>
     (bc_enabled op S \<longrightarrow> (\<exists>S'. bc_exec ops alloc op S = Inr S') \<or>
        op = Subscribe \<and> 2 ^ 64 - 1 \<le> card (live S) \<and> bc_exec ops alloc op S = Inl Abort)"
proof -
  obtain sh where sh: "bc_holds ops S sh" by (rule bc_reachable_holds [OF assms])
  have "bc_rc (chan S) = None \<longleftrightarrow> \<not> tx_alive S \<and> card (live S) = 0"
    using bc_holdsD(1) [OF sh] by (auto simp: broad_owned_def split: option.splits)
  moreover have "bc_enabled op S \<longrightarrow> (\<exists>S'. bc_exec ops alloc op S = Inr S') \<or>
        op = Subscribe \<and> 2 ^ 64 - 1 \<le> card (live S) \<and> bc_exec ops alloc op S = Inl Abort"
  proof (cases "op = Subscribe \<and> \<not> card (live S) < 2 ^ 64 - 1")
    case True
    with subscribe_full [OF assms(1) sh] show ?thesis by auto
  next
    case False
    with receiver_slab.bc_exec_ok [OF assms(1), of S op] sh show ?thesis by (auto simp: bc_inv_def)
  qed
  ultimately show ?thesis using bc_holdsD(2) [OF sh] by simp
qed

text \<open>The buffer of receiver \<open>k\<close> has no room.\<close>

definition clogged :: "('s, 't receiver_state) slab_ops \<Rightarrow> ('s, 't) bc_sys \<Rightarrow> nat \<Rightarrow> bool" where
  "clogged ops S k =
     (case bc_rc (chan S) of
        None \<Rightarrow> False
      | Some i \<Rightarrow>
          (case slab_get ops k (receivers (broad_value i)) of None \<Rightarrow> False | Some r \<Rightarrow> rs_at_capacity r))"

text \<open>
  Where a poll of a \<open>send\<close> of \<open>v\<close> leads to, when the receivers \<open>L\<close> had got \<open>old\<close> as it began.  It has
  completed, reports their number, and each has got the message once; or it is suspended, each has
  got the message at most once, and somebody who has not got it has no room for it.
\<close>

definition sent_to ::
  "('s, 't receiver_state) slab_ops \<Rightarrow> nat set \<Rightarrow> (nat \<Rightarrow> 't list) \<Rightarrow> 't \<Rightarrow> ('s, 't) bc_sys \<Rightarrow> bool" where
  "sent_to ops L old v S \<longleftrightarrow> live S = L \<and>
     (if Option.is_none (sending S) then reached S = Some (card L) \<and> (\<forall>k\<in>L. got ops S k = old k @ [v])
      else sending S = Some v \<and> before S = old \<and> (\<forall>k\<in>L. got ops S k = old k \<or> got ops S k = old k @ [v]) \<and>
        (\<exists>k\<in>L. got ops S k = old k \<and> clogged ops S k))"

lemma clogged_holds:
  assumes "bc_holds ops S sh" and "slab_get ops k (receivers sh) = Some r" and "rs_at_capacity r"
  shows "clogged ops S k"
proof (cases "bc_rc (chan S)")
  case None
  with bc_holdsD(1-3) [OF assms(1)] have "live S = {}" by (simp add: broad_owned_def)
  with assms(2) bc_holdsD(3) [OF assms(1), of k] show ?thesis by simp
next
  case (Some i)
  with bc_holdsD(1) [OF assms(1)] have "broad_value i = sh" by (simp add: broad_owned_def)
  with Some assms(2,3) show ?thesis by (simp add: clogged_def)
qed

text \<open>What receivers have got while a \<open>send\<close> is under way.\<close>

lemma got_under_way:
  assumes "bc_holds ops S sh" and "sending S = Some v" and "bumps S < 2 ^ 64 - 1"
    and "slab_get ops k (receivers sh) = Some r"
  shows "got ops S k = before S k @ (if rs_id r = current_id sh then [v] else [])"
  using bc_holdsD(9) [OF assms(1,3)] assms(2,4) by (simp add: ids_hold_def got_def buffered_eq [OF assms(1)])

lemma suspended_sent_to:
  assumes "bc_holds ops S sh" and "sending S = Some v" and "bumps S < 2 ^ 64 - 1" and "tx_asleep S \<noteq> None"
  shows "sent_to ops (live S) (before S) v S"
proof -
  have "got ops S k = before S k \<or> got ops S k = before S k @ [v]" if k: "k \<in> live S" for k
  proof -
    from k bc_holdsD(3) [OF assms(1), of k] obtain r where "slab_get ops k (receivers sh) = Some r" by auto
    from got_under_way [OF assms(1-3) this] show ?thesis by simp
  qed
  moreover from bc_holdsD(7) [OF assms(1,4)] obtain k r where
    r: "slab_get ops k (receivers sh) = Some r" "rs_id r \<noteq> current_id sh" "rs_at_capacity r" by blast
  moreover have "k \<in> live S" using bc_holdsD(3) [OF assms(1), of k] r(1) by simp
  ultimately show ?thesis
    using got_under_way [OF assms(1-3) r(1)] clogged_holds [OF assms(1) r(1,3)] assms(2) by (auto simp: sent_to_def)
qed

lemma send_poll_sent_to:
  assumes "receiver_slab ops alloc" and "bc_holds ops S sh" and "sending S = Some v" and "bumps S < 2 ^ 64 - 1"
  obtains r ch where "send_poll ops cx v (chan S) = Inr (r, ch)"
    and "sent_to ops (live S) (before S) v (after_send v cx r (rouse ch S))"
proof -
  from receiver_slab.bc_poll_send_ok [OF assms(1-3), of cx] assms(4) obtain r ch where
    p: "send_poll ops cx v (chan S) = Inr (r, ch)" "bc_inv ops (after_send v cx r (rouse ch S))"
    and n: "\<And>n. r = Ready n \<Longrightarrow> n = card (live S) \<and> (\<forall>k\<in>live S. got ops (after_send v cx r (rouse ch S)) k = before S k @ [v])"
    by blast
  have "sent_to ops (live S) (before S) v (after_send v cx r (rouse ch S))"
  proof (cases r)
    case (Ready m)
    with n [of m] show ?thesis by (auto simp: sent_to_def after_send_def)
  next
    case Pending
    let ?T = "after_send v cx r (rouse ch S)"
    from p(2) obtain sh' where "bc_holds ops ?T sh'" by (auto simp: bc_inv_def)
    from suspended_sent_to [OF this, of v] assms(4) Pending show ?thesis by (simp add: after_send_def)
  qed
  with p(1) that show thesis by blast
qed

lemma send_start_sent_to:
  assumes "receiver_slab ops alloc" and "bc_holds ops S sh" and "sending S = None" and "tx_alive S"
    and "bumps S < 2 ^ 64 - 2"
  shows "\<exists>S'. bc_exec ops alloc (StartSend v cx) S = Inr S' \<and> sent_to ops (live S) (got ops S) v S'"
proof -
  from receiver_slab.bumped_holds [OF assms(1-4), of v] obtain rc where
    b: "bump_message_id (chan S) = Inr ((chan S)\<lparr>bc_rc := rc\<rparr>)"
    "bc_holds ops (S\<lparr>chan := (chan S)\<lparr>bc_rc := rc\<rparr>, before := got ops S, bumps := Suc (bumps S), sending := Some v\<rparr>)
      (sh\<lparr>current_id := next_id (current_id sh)\<rparr>)"
    by blast
  let ?T = "S\<lparr>chan := (chan S)\<lparr>bc_rc := rc\<rparr>, before := got ops S, bumps := Suc (bumps S), sending := Some v\<rparr>"
  have t: "sending ?T = Some v" "bumps ?T < 2 ^ 64 - 1" using assms(5) by simp_all
  obtain r ch where r: "send_poll ops cx v (chan ?T) = Inr (r, ch)"
    "sent_to ops (live ?T) (before ?T) v (after_send v cx r (rouse ch ?T))"
    by (rule send_poll_sent_to [OF assms(1) b(2) t, where cx = cx])
  have "after_send v cx r ((rouse ch S)\<lparr>before := got ops S, bumps := Suc (bumps S)\<rparr>) = after_send v cx r (rouse ch ?T)"
    by (simp add: after_send_def rouse_def Let_def split: poll.split)
  with b(1) r show ?thesis by (simp add: send_start_def)
qed

text \<open>C4.
  Guaranteed delivery, whether a \<open>send\<close> completes at its first poll or is suspended and polled again.
  A first poll, on top of what the receivers have got by then, and every later poll, on top of what
  they had got when the \<open>send\<close> began, either completes and reports the number of live receivers, each
  of which then has got the message exactly once; or it suspends the \<open>send\<close>, and then each live
  receiver has got the message at most once, and it waits for one that has not got it and has no room.
  Until it is polled again that each has got it at most once stays true whatever the receivers do.
  (The identifier that tracks this has 64 bits; the statement is for the first \<open>2 ^ 64 - 2\<close> sends.)
\<close>

theorem broadcast_send_delivers:
  assumes "receiver_slab ops alloc" and "bc_reachable ops alloc S"
  shows "(bc_enabled (StartSend v cx) S \<and> bumps S < 2 ^ 64 - 2 \<longrightarrow>
       (\<exists>S'. bc_exec ops alloc (StartSend v cx) S = Inr S' \<and> sent_to ops (live S) (got ops S) v S')) \<and>
    (sending S = Some v \<and> bumps S < 2 ^ 64 - 1 \<longrightarrow>
       (\<forall>k\<in>live S. got ops S k = before S k \<or> got ops S k = before S k @ [v]) \<and>
       (\<exists>S'. bc_exec ops alloc (PollSend cx) S = Inr S' \<and> sent_to ops (live S) (before S) v S'))"
proof -
  obtain sh where sh: "bc_holds ops S sh" by (rule bc_reachable_holds [OF assms])
  have "got ops S k = before S k \<or> got ops S k = before S k @ [v]"
    if s: "sending S = Some v" "bumps S < 2 ^ 64 - 1" and k: "k \<in> live S" for k
  proof -
    from k bc_holdsD(3) [OF sh, of k] obtain r where "slab_get ops k (receivers sh) = Some r" by auto
    from got_under_way [OF sh s this] show ?thesis by simp
  qed
  moreover have "\<exists>S'. bc_exec ops alloc (PollSend cx) S = Inr S' \<and> sent_to ops (live S) (before S) v S'"
    if s: "sending S = Some v" "bumps S < 2 ^ 64 - 1"
  proof -
    obtain r ch where "send_poll ops cx v (chan S) = Inr (r, ch)"
      "sent_to ops (live S) (before S) v (after_send v cx r (rouse ch S))"
      by (rule send_poll_sent_to [OF assms(1) sh s, where cx = cx])
    with s(1) show ?thesis by simp
  qed
  moreover have "\<exists>S'. bc_exec ops alloc (StartSend v cx) S = Inr S' \<and> sent_to ops (live S) (got ops S) v S'"
    if "bc_enabled (StartSend v cx) S" and "bumps S < 2 ^ 64 - 2"
    by (rule send_start_sent_to [OF assms(1) sh]) (use that in \<open>simp_all add: Option.is_none_def\<close>)
  ultimately show ?thesis by blast
qed

text \<open>
  Each receiver receives, in order and without loss, the messages that got into its buffer, and its
  polls neither change what the others have nor what it has got in all.
\<close>

theorem broadcast_receivers_fifo:
  assumes "receiver_slab ops alloc" and "bc_reachable ops alloc S" and "k \<in> live S"
  shows "\<exists>S'. bc_exec ops alloc (PollRecv k cx) S = Inr S' \<and>
     received S' = (received S)(k := received S k @ take 1 (buffered ops S k)) \<and> got ops S' = got ops S"
proof -
  obtain sh where sh: "bc_holds ops S sh" by (rule bc_reachable_holds [OF assms(1,2)])
  from receiver_slab.bc_poll_recv_ok [OF assms(1) sh assms(3), of cx] show ?thesis by blast
qed

text \<open>
  \<open>try_send\<close> gives the message to exactly those receivers whose buffers have room, and reports
  \<open>Ok\<close> with their number when that is everyone, or \<open>UnderCapacity\<close> with it when it is not; with
  no subscribers it reports \<open>Ok(0)\<close>.
\<close>

theorem broadcast_try_send:
  assumes "receiver_slab ops alloc" and "bc_reachable ops alloc S" and "tx_alive S" and "sending S = None"
  shows "\<exists>S' room. bc_exec ops alloc (TrySend v) S = Inr S' \<and> room \<subseteq> live S \<and>
     (\<forall>k\<in>live S. got ops S' k = got ops S k @ (if k \<in> room then [v] else [])) \<and>
     (\<forall>k\<in>live S. buffered ops S k = [] \<longrightarrow> k \<in> room) \<and>
     tried S' = Some (if room = live S then Ok (card room) else Err (UnderCapacity (card room)))"
proof -
  obtain sh where sh: "bc_holds ops S sh" by (rule bc_reachable_holds [OF assms(1,2)])
  note h = bc_holdsD [OF sh]
  let ?room = "{k. \<exists>r. slab_get ops k (receivers sh) = Some r \<and> \<not> rs_at_capacity r}"
  have sub: "?room \<subseteq> live S"
  proof
    fix k assume "k \<in> ?room"
    then show "k \<in> live S" using h(3) [of k] by auto
  qed
  from receiver_slab.bc_try_send_ok [OF assms(1) sh assms(4,3), of v] obtain S' where
    S': "bc_exec ops alloc (TrySend v) S = Inr S'"
    "\<And>k r. slab_get ops k (receivers sh) = Some r \<Longrightarrow>
        got ops S' k = got ops S k @ (if rs_at_capacity r then [] else [v])"
    "tried S' = Some (if card ?room = card (live S) then Ok (card ?room) else Err (UnderCapacity (card ?room)))"
    by (auto simp: Let_def)
  have live: "\<exists>r. slab_get ops k (receivers sh) = Some r" if "k \<in> live S" for k
    using that h(3) [of k] by auto
  have "got ops S' k = got ops S k @ (if k \<in> ?room then [v] else [])" if "k \<in> live S" for k
    using live [OF that] S'(2) [of k] by auto
  moreover have "k \<in> ?room" if k: "k \<in> live S" "buffered ops S k = []" for k
  proof -
    from live [OF k(1)] obtain r where r: "slab_get ops k (receivers sh) = Some r" by blast
    with k(2) have "elems (rs_buf r) = []" by (simp add: buffered_eq [OF sh])
    with h(4) [OF r] have "\<not> rs_at_capacity r" by (auto simp: rx_holds_def rs_at_capacity_def vd_len_def)
    with r show ?thesis by blast
  qed
  moreover have "?room = live S \<longleftrightarrow> card ?room = card (live S)"
    by (rule subset_eq_card [OF h(2) sub])
  ultimately show ?thesis using S'(1,3) sub by (intro exI [of _ S'] exI [of _ ?room]) simp
qed

text \<open>C22.
  No lost wake-up and no deadlock.  A receiver that was told to wait and has not been woken since
  has an empty buffer and a live sender.  A sender that waits does so for some live receiver whose
  buffer holds messages, who therefore is not waiting itself, and who has not got the message
  yet.
\<close>

theorem broadcast_no_lost_wakeup:
  assumes "receiver_slab ops alloc" and "bc_reachable ops alloc S"
  shows "(rx_asleep S k \<noteq> None \<longrightarrow> k \<in> live S \<and> tx_alive S \<and> buffered ops S k = []) \<and>
     (tx_asleep S \<noteq> None \<longrightarrow> sending S \<noteq> None \<and>
        (\<exists>j\<in>live S. buffered ops S j \<noteq> [] \<and> rx_asleep S j = None \<and>
           (bumps S < 2 ^ 64 - 1 \<longrightarrow> got ops S j = before S j)))"
proof -
  obtain sh where sh: "bc_holds ops S sh" by (rule bc_reachable_holds [OF assms])
  note h = bc_holdsD [OF sh]
  have "k \<in> live S \<and> tx_alive S \<and> buffered ops S k = []" if a: "rx_asleep S k \<noteq> None"
  proof -
    from a h(5) [of k] have k: "k \<in> live S" by (cases "k \<in> live S") simp_all
    with h(3) [of k] obtain r where r: "slab_get ops k (receivers sh) = Some r" by auto
    from h(4) [OF r] a have "tx_alive S \<and> elems (rs_buf r) = []" by (simp add: rx_holds_def)
    with k r show ?thesis by (simp add: buffered_eq [OF sh, of k])
  qed
  moreover have "sending S \<noteq> None \<and> (\<exists>j\<in>live S. buffered ops S j \<noteq> [] \<and> rx_asleep S j = None \<and>
      (bumps S < 2 ^ 64 - 1 \<longrightarrow> got ops S j = before S j))" if t: "tx_asleep S \<noteq> None"
  proof -
    from h(7) [OF t] obtain j r where s: "sending S \<noteq> None" and r: "slab_get ops j (receivers sh) = Some r"
      "rs_id r \<noteq> current_id sh" "rs_at_capacity r" by (elim conjE exE)
    have e: "elems (rs_buf r) \<noteq> []" "rx_asleep S j = None"
      using h(4) [OF r(1)] r(3) by (auto simp: rx_holds_def rs_at_capacity_def vd_len_def)
    have "got ops S j = before S j" if b: "bumps S < 2 ^ 64 - 1"
    proof -
      from s obtain v where "sending S = Some v" by auto
      with h(9) [OF b] r have "received S j @ elems (rs_buf r) = before S j" by (simp add: ids_hold_def)
      with buffered_eq [OF sh, of j] r(1) show ?thesis by (simp add: got_def)
    qed
    moreover have "j \<in> live S" using h(3) [of j] r(1) by simp
    ultimately show ?thesis
      using s e buffered_eq [OF sh, of j] r(1) by (intro conjI bexI [of _ j]) simp_all
  qed
  ultimately show ?thesis by blast
qed

section \<open>Scripts and witnesses\<close>

type_synonym vec_sys = "(int receiver_state option list, int) bc_sys"

definition bc_script :: "usize \<Rightarrow> (int bc_op \<times> (vec_sys \<Rightarrow> bool)) list \<Rightarrow> vec_sys res" where
  "bc_script cap calls =
     and_then (channel vec_slab cap) (\<lambda>ch.
     run_script bc_enabled (bc_exec vec_slab alloc_exact) calls (bc_sys_of ch))"

lemma bc_script_reachable:
  assumes "bc_script cap calls = Inr S"
  shows "bc_reachable vec_slab alloc_exact S"
proof -
  from assms obtain ch where c: "channel vec_slab cap = Inr ch"
    "run_script bc_enabled (bc_exec vec_slab alloc_exact) calls (bc_sys_of ch) = Inr S"
    by (auto simp: bc_script_def and_then_eq_Inr)
  then have "bc_start vec_slab (bc_sys_of ch :: vec_sys)" by (auto simp: bc_start_def)
  with run_script_reachable [OF c(2)] show ?thesis by (blast intro: reach_start bc_call)
qed

theorem broadcast_memory_safe_witness:
  "\<exists>S S' :: vec_sys. bc_reachable vec_slab alloc_exact S \<and> \<not> tx_alive S \<and> bc_rc (chan S) \<noteq> None \<and>
     bc_exec vec_slab alloc_exact (DropReceiver 0) S = Inr S'"
proof -
  let ?c = "[(Subscribe, any), (TrySend 4, any), (DropSender, any)]"
  have "passes (bc_script 1 ?c) (\<lambda>S. \<not> tx_alive S \<and> 0 \<in> live S)" by code_simp
  then obtain S where S: "bc_script 1 ?c = Inr S" "\<not> tx_alive S" "0 \<in> live S" by (auto elim: passesE)
  from broadcast_memory_safe [OF vec_receivers.receiver_slab_axioms bc_script_reachable [OF S(1)],
      of "DropReceiver 0"] bc_script_reachable [OF S(1)] S(2,3)
  show ?thesis by auto
qed

definition blocked_send :: "vec_sys res" where
  "blocked_send = bc_script 1
     [(Subscribe, any), (Subscribe, any), (TrySend 4, any), (PollRecv 0 3, any), (StartSend 5 9, any)]"

lemma blocked_send:
  obtains S where "blocked_send = Inr S" "bc_reachable vec_slab alloc_exact S" "sending S = Some 5"
    "bumps S = 2" "0 \<in> live S" "1 \<in> live S" "tx_asleep S = Some 9" "buffered vec_slab S 0 = [5]"
    "buffered vec_slab S 1 = [4]" "received S 0 = [4]" "before S 1 = [4]"
proof -
  have "passes blocked_send (\<lambda>S. sending S = Some 5 \<and> bumps S = 2 \<and> 0 \<in> live S \<and> 1 \<in> live S \<and>
      tx_asleep S = Some 9 \<and> buffered vec_slab S 0 = [5] \<and> buffered vec_slab S 1 = [4] \<and>
      received S 0 = [4] \<and> before S 1 = [4])"
    by code_simp
  then obtain S where S: "blocked_send = Inr S" "sending S = Some 5 \<and> bumps S = 2 \<and> 0 \<in> live S \<and>
      1 \<in> live S \<and> tx_asleep S = Some 9 \<and> buffered vec_slab S 0 = [5] \<and> buffered vec_slab S 1 = [4] \<and>
      received S 0 = [4] \<and> before S 1 = [4]"
    by (rule passesE)
  moreover have "bc_reachable vec_slab alloc_exact S"
    using S(1) bc_script_reachable unfolding blocked_send_def by blast
  ultimately show thesis using that by blast
qed

theorem broadcast_send_delivers_witness:
  "(\<exists>S S' :: vec_sys. bc_reachable vec_slab alloc_exact S \<and> bc_exec vec_slab alloc_exact (StartSend 4 9) S = Inr S' \<and>
      reached S' = Some 2 \<and> got vec_slab S' 0 = [4] \<and> got vec_slab S' 1 = [4]) \<and>
   (\<exists>S S'. blocked_send = Inr S \<and> bc_exec vec_slab alloc_exact (PollSend 9) S = Inr S' \<and>
      sent_to vec_slab (live S) (before S) 5 S')"
proof -
  note d = broadcast_send_delivers [OF vec_receivers.receiver_slab_axioms]
  have "passes (bc_script 1 [(Subscribe, any), (Subscribe, any)]) (\<lambda>S. bc_enabled (StartSend 4 9) S \<and> bumps S = 0 \<and>
      live S = {0, 1} \<and> got vec_slab S 0 = [] \<and> got vec_slab S 1 = [] \<and>
      passes (bc_exec vec_slab alloc_exact (StartSend 4 9) S) (\<lambda>S'. sending S' = None))"
    by code_simp
  then obtain S where S: "bc_script 1 [(Subscribe, any), (Subscribe, any)] = Inr S" "bc_enabled (StartSend 4 9) S"
    "bumps S = 0" "live S = {0, 1}" "got vec_slab S 0 = []" "got vec_slab S 1 = []"
    "passes (bc_exec vec_slab alloc_exact (StartSend 4 9) S) (\<lambda>S'. sending S' = None)"
    by (rule passesE) (elim conjE, rule that)
  from S(3) have b: "bumps S < 2 ^ 64 - 2" by simp
  from d [OF bc_script_reachable [OF S(1)], of 4 9] S(2) b obtain S' where
    S': "bc_exec vec_slab alloc_exact (StartSend 4 9) S = Inr S'" "sent_to vec_slab (live S) (got vec_slab S) 4 S'" by blast
  from S(7) S'(1) have "sending S' = None" by (simp add: passes_def)
  with S' S(4-6) have first: "reached S' = Some 2 \<and> got vec_slab S' 0 = [4] \<and> got vec_slab S' 1 = [4]"
    by (simp add: sent_to_def)
  obtain U where U: "blocked_send = Inr U" "bc_reachable vec_slab alloc_exact U" "sending U = Some 5" "bumps U = 2"
    by (rule blocked_send)
  from U(4) have "bumps U < 2 ^ 64 - 1" by simp
  with d [OF U(2), of 5 9] U(3) have "\<exists>U'. bc_exec vec_slab alloc_exact (PollSend 9) U = Inr U' \<and>
      sent_to vec_slab (live U) (before U) 5 U'" by blast
  with U(1) first S'(1) bc_script_reachable [OF S(1)] show ?thesis by blast
qed

theorem broadcast_receivers_fifo_witness:
  "\<exists>S S'. blocked_send = Inr S \<and> bc_exec vec_slab alloc_exact (PollRecv 0 3) S = Inr S' \<and>
     received S' 0 = [4, 5]"
proof (rule blocked_send)
  fix S assume S: "blocked_send = Inr S" "bc_reachable vec_slab alloc_exact S" "0 \<in> live S"
    "buffered vec_slab S 0 = [5]" "received S 0 = [4]"
  from broadcast_receivers_fifo [OF vec_receivers.receiver_slab_axioms S(2,3), of 3] S(1,4,5)
  show ?thesis by auto
qed

theorem broadcast_try_send_witness:
  "\<exists>S S' :: vec_sys. bc_reachable vec_slab alloc_exact S \<and> live S = {} \<and>
     bc_exec vec_slab alloc_exact (TrySend 1) S = Inr S' \<and> tried S' = Some (Ok 0)"
proof -
  have "passes (bc_script 1 []) (\<lambda>S. tx_alive S \<and> sending S = None \<and> live S = {})" by code_simp
  then obtain S where S: "bc_script 1 [] = Inr S" "tx_alive S" "sending S = None" "live S = {}"
    by (auto elim: passesE)
  from broadcast_try_send [OF vec_receivers.receiver_slab_axioms bc_script_reachable [OF S(1)] S(2,3), of 1]
    bc_script_reachable [OF S(1)] S(4)
  show ?thesis by auto
qed

theorem broadcast_no_lost_wakeup_witness:
  "\<exists>S. blocked_send = Inr S \<and> tx_asleep S = Some 9 \<and>
     (\<exists>j\<in>live S. buffered vec_slab S j \<noteq> [] \<and> rx_asleep S j = None \<and> got vec_slab S j = before S j)"
proof (rule blocked_send)
  fix S assume S: "blocked_send = Inr S" "bc_reachable vec_slab alloc_exact S" "bumps S = 2"
    "tx_asleep S = Some 9"
  have "bumps S < 2 ^ 64 - 1" using S(3) by simp
  with broadcast_no_lost_wakeup [OF vec_receivers.receiver_slab_axioms S(2)] S(1,4) show ?thesis by auto
qed

section \<open>The tests of the crate\<close>

definition flag :: "waker \<Rightarrow> vec_sys \<Rightarrow> bool" where
  "flag k S \<longleftrightarrow> k \<in> set (bc_woken (chan S))"

definition recv_updates_changed_waker :: "vec_sys res" where
  "recv_updates_changed_waker = bc_script 1
     [(Subscribe, any),
      (PollRecv 0 1, \<lambda>S. rx_asleep S 0 = Some 1),
      (PollRecv 0 2, \<lambda>S. rx_asleep S 0 = Some 2),
      (TrySend 1, \<lambda>S. tried S = Some (Ok 1) \<and> flag 2 S)]"

definition buffers_multiple_messages_in_order :: "vec_sys res" where
  "buffers_multiple_messages_in_order = bc_script 2
     [(Subscribe, any),
      (TrySend 1, \<lambda>S. tried S = Some (Ok 1)),
      (TrySend 2, \<lambda>S. tried S = Some (Ok 1)),
      (PollRecv 0 0, \<lambda>S. received S 0 = [1]),
      (PollRecv 0 0, \<lambda>S. received S 0 = [1, 2])]"

definition send_buffers_once_and_resolves :: "vec_sys res" where
  "send_buffers_once_and_resolves = bc_script 2
     [(Subscribe, any),
      (StartSend 1 0, \<lambda>S. reached S = Some 1),
      (PollRecv 0 0, \<lambda>S. received S 0 = [1]),
      (PollRecv 0 0, \<lambda>S. received S 0 = [1] \<and> rx_asleep S 0 = Some 0)]"

definition send_waits_for_capacity :: "vec_sys res" where
  "send_waits_for_capacity = bc_script 1
     [(Subscribe, any),
      (StartSend 1 0, \<lambda>S. reached S = Some 1),
      (StartSend 2 0, \<lambda>S. sending S = Some 2),
      (PollRecv 0 0, \<lambda>S. received S 0 = [1]),
      (PollSend 0, \<lambda>S. sending S = None \<and> reached S = Some 1),
      (PollRecv 0 0, \<lambda>S. received S 0 = [1, 2])]"

definition test_broadcast_receiver_drop :: "vec_sys res" where
  "test_broadcast_receiver_drop = bc_script 1
     [(Subscribe, any), (Subscribe, any),
      (StartSend 1 0, \<lambda>S. reached S = Some 2),
      (PollRecv 0 0, \<lambda>S. received S 0 = [1]),
      (PollRecv 1 0, \<lambda>S. received S 1 = [1]),
      (DropReceiver 1, any),
      (StartSend 2 0, \<lambda>S. reached S = Some 1),
      (PollRecv 0 0, \<lambda>S. received S 0 = [1, 2]),
      (DropReceiver 0, any),
      (StartSend 2 0, \<lambda>S. reached S = Some 0)]"

lemma broadcast_tests_pass:
  "\<not> isl recv_updates_changed_waker"
  "\<not> isl buffers_multiple_messages_in_order"
  "\<not> isl send_buffers_once_and_resolves"
  "\<not> isl send_waits_for_capacity"
  "\<not> isl test_broadcast_receiver_drop"
  by code_simp+

section \<open>The examples of the documentation\<close>

text \<open>\<open>join!\<close> polls its futures in turn; here each of them is ready at its first poll.\<close>

definition subscribe_example :: "vec_sys res" where
  "subscribe_example = bc_script 1
     [(Subscribe, any),
      (Subscribe, any),
      (StartSend 42 0, \<lambda>S. reached S = Some 2),
      (PollRecv 0 0, \<lambda>S. received S 0 = [42]),
      (PollRecv 1 0, \<lambda>S. received S 1 = [42]),
      (DropReceiver 0, any),
      (StartSend 84 0, \<lambda>S. reached S = Some 1),
      (PollRecv 1 0, \<lambda>S. received S 1 = [42, 84]),
      (DropReceiver 1, any),
      (StartSend 126 0, \<lambda>S. reached S = Some 0)]"

definition bc_send_example :: "vec_sys res" where
  "bc_send_example = bc_script 1
     [(Subscribe, any),
      (Subscribe, any),
      (StartSend 42 0, \<lambda>S. reached S = Some 2),
      (PollRecv 0 0, \<lambda>S. received S 0 = [42]),
      (PollRecv 1 0, \<lambda>S. received S 1 = [42]),
      (DropReceiver 0, any),
      (StartSend 84 0, \<lambda>S. reached S = Some 1),
      (PollRecv 1 0, \<lambda>S. received S 1 = [42, 84]),
      (DropReceiver 1, any),
      (StartSend 126 0, \<lambda>S. reached S = Some 0)]"

definition bc_try_send_example :: "vec_sys res" where
  "bc_try_send_example = bc_script 1
     [(Subscribe, any),
      (Subscribe, any),
      (TrySend 1, \<lambda>S. tried S = Some (Ok 2)),
      (TrySend 2, \<lambda>S. tried S = Some (Err (UnderCapacity 0))),
      (PollRecv 1 0, \<lambda>S. received S 1 = [1]),
      (TrySend 3, \<lambda>S. tried S = Some (Err (UnderCapacity 1))),
      (PollRecv 1 0, \<lambda>S. received S 1 = [1, 3])]"

definition bc_recv_example :: "vec_sys res" where
  "bc_recv_example = bc_script 1
     [(Subscribe, any),
      (Subscribe, any),
      (StartSend 42 0, \<lambda>S. reached S = Some 2),
      (PollRecv 0 0, \<lambda>S. received S 0 = [42]),
      (PollRecv 1 0, \<lambda>S. received S 1 = [42]),
      (DropSender, any),
      (PollRecv 0 0, \<lambda>S. received S 0 = [42] \<and> Option.is_none (rx_asleep S 0)),
      (PollRecv 1 0, \<lambda>S. received S 1 = [42] \<and> Option.is_none (rx_asleep S 1))]"

definition unbounded_example :: "vec_sys res" where
  "unbounded_example = run_script bc_enabled (bc_exec vec_slab alloc_exact)
     [(Subscribe, any),
      (Subscribe, any),
      (StartSend 42 0, \<lambda>S. reached S = Some 2),
      (PollRecv 0 0, \<lambda>S. received S 0 = [42]),
      (PollRecv 1 0, \<lambda>S. received S 1 = [42])] (bc_sys_of (unbounded_channel vec_slab))"

lemma broadcast_examples_pass:
  "\<not> isl subscribe_example"
  "\<not> isl bc_send_example"
  "\<not> isl bc_try_send_example"
  "\<not> isl bc_recv_example"
  "\<not> isl unbounded_example"
  by code_simp+

end
