(* ===== verification/Broadcast_Refinement.thy ===== *)
theory Broadcast_Refinement
  imports Broadcast_Props Call_Refinement
begin

text \<open>
  The broadcast channel against its abstract specification: an audience is a set of taken seats, each
  with a list of letters up to a limit, and a host who may be handing out a letter.  There are no
  identifiers, no slab, no shared cell and no wakers.  Which free seat a new member gets is left open;
  everything else is fixed, and any sequence of calls gives the same replies on both.
\<close>

section \<open>The specification\<close>

record 't audience =
  room_for :: "nat option"
  seats :: "nat set"
  mail :: "nat \<Rightarrow> 't list"
  hosted :: bool
  handing :: "'t option"
  informed :: "nat set"

datatype 't bc_reply =
    Seat nat
  | Tried "(nat, under_capacity) result"
  | Spoke "nat poll"
  | Heard "'t option poll"
  | Quiet

definition audience_new :: "nat option \<Rightarrow> 't audience" where
  "audience_new l = \<lparr>room_for = l, seats = {}, mail = (\<lambda>_. []), hosted = True, handing = None, informed = {}\<rparr>"

text \<open>A taken seat cannot be given out: the next one after all of them is, then.\<close>

definition free_seat :: "nat \<Rightarrow> 't audience \<Rightarrow> nat" where
  "free_seat k A = (if k \<in> seats A then Suc (Max (seats A)) else k)"

definition with_room :: "'t audience \<Rightarrow> nat set" where
  "with_room A = {k \<in> seats A. room_for A \<noteq> Some (length (mail A k))}"

definition hand_out :: "nat set \<Rightarrow> 't \<Rightarrow> 't audience \<Rightarrow> 't audience" where
  "hand_out K v A = A\<lparr>mail := (\<lambda>k. if k \<in> K then mail A k @ [v] else mail A k)\<rparr>"

text \<open>A poll of \<open>send\<close>: who has room and has not got the letter gets it; it is done when everyone has.\<close>

definition speak_to :: "'t \<Rightarrow> 't audience \<Rightarrow> 't bc_reply \<times> 't audience" where
  "speak_to v A =
     (let K = with_room A - informed A; B = hand_out K v A in
      if seats A \<subseteq> informed A \<union> K
      then (Spoke (Ready (card (seats A))), B\<lparr>handing := None, informed := {}\<rparr>)
      else (Spoke Pending, B\<lparr>handing := Some v, informed := informed A \<union> K\<rparr>))"

text \<open>\<open>None\<close>: ownership does not allow the call.\<close>

fun a_call :: "nat \<Rightarrow> 't bc_op \<Rightarrow> 't audience \<Rightarrow> ('t bc_reply \<times> 't audience) option" where
  "a_call j Subscribe A =
     (if hosted A \<and> Option.is_none (handing A)
      then Some (Seat (free_seat j A), A\<lparr>seats := insert (free_seat j A) (seats A), mail := (mail A)(free_seat j A := [])\<rparr>)
      else None)"
| "a_call j (TrySend v) A =
     (if hosted A \<and> Option.is_none (handing A)
      then Some (let n = card (with_room A) in Tried (if with_room A = seats A then Ok n else Err (UnderCapacity n)),
                 hand_out (with_room A) v A)
      else None)"
| "a_call j (StartSend v cx) A = (if hosted A \<and> Option.is_none (handing A) then Some (speak_to v A) else None)"
| "a_call j (PollSend cx) A = map_option (\<lambda>v. speak_to v A) (handing A)"
| "a_call j CancelSend A =
     (if Option.is_none (handing A) then None else Some (Quiet, A\<lparr>handing := None, informed := {}\<rparr>))"
| "a_call j DropSender A =
     (if hosted A \<and> Option.is_none (handing A) then Some (Quiet, A\<lparr>hosted := False\<rparr>) else None)"
| "a_call j (PollRecv k cx) A =
     (if k \<notin> seats A then None
      else
        (case mail A k of
           v # vs \<Rightarrow> Some (Heard (Ready (Some v)), A\<lparr>mail := (mail A)(k := vs)\<rparr>)
         | [] \<Rightarrow> Some (Heard (if hosted A then Pending else Ready None), A)))"
| "a_call j (CancelRecv k) A = (if k \<in> seats A then Some (Quiet, A) else None)"
| "a_call j (DropReceiver k) A =
     (if k \<in> seats A
      then Some (Quiet, A\<lparr>seats := seats A - {k}, mail := (mail A)(k := []), informed := informed A - {k}\<rparr>)
      else None)"

text \<open>What a call on the channel gives back to its caller, and the system after it.\<close>

fun bc_result ::
  "('s, 't receiver_state) slab_ops \<Rightarrow> (nat \<Rightarrow> nat) \<Rightarrow> 't bc_op \<Rightarrow> ('s, 't) bc_sys \<Rightarrow> 't bc_reply res" where
  "bc_result ops alloc Subscribe S = and_then (subscribe ops alloc (chan S)) (\<lambda>(k, _). Inr (Seat k))"
| "bc_result ops alloc (TrySend v) S = and_then (try_send ops v (chan S)) (\<lambda>(r, _). Inr (Tried r))"
| "bc_result ops alloc (StartSend v cx) S = and_then (send_start ops cx v (chan S)) (\<lambda>(r, _). Inr (Spoke r))"
| "bc_result ops alloc (PollSend cx) S =
     (case sending S of
        None \<Rightarrow> Inr Quiet
      | Some v \<Rightarrow> and_then (send_poll ops cx v (chan S)) (\<lambda>(r, _). Inr (Spoke r)))"
| "bc_result ops alloc (PollRecv k cx) S = and_then (recv_poll ops k cx (chan S)) (\<lambda>(r, _). Inr (Heard r))"
| "bc_result ops alloc CancelSend S = Inr Quiet"
| "bc_result ops alloc DropSender S = Inr Quiet"
| "bc_result ops alloc (CancelRecv k) S = Inr Quiet"
| "bc_result ops alloc (DropReceiver k) S = Inr Quiet"

definition bc_reply ::
  "('s, 't receiver_state) slab_ops \<Rightarrow> (nat \<Rightarrow> nat) \<Rightarrow> 't bc_op \<Rightarrow> ('s, 't) bc_sys \<Rightarrow>
   ('t bc_reply \<times> ('s, 't) bc_sys) option" where
  "bc_reply ops alloc =
     answer bc_enabled
       (\<lambda>op S. and_then (bc_result ops alloc op S) (\<lambda>r. and_then (bc_exec ops alloc op S) (\<lambda>S. Inr (r, S))))"

section \<open>The audience of a channel\<close>

text \<open>Who has the letter that is being handed out, read from the identifiers in the shared cell.\<close>

definition told :: "('s, 't receiver_state) slab_ops \<Rightarrow> 's shared \<Rightarrow> nat set" where
  "told ops sh = {k. \<exists>r. slab_get ops k (receivers sh) = Some r \<and> rs_id r = current_id sh}"

definition told_in :: "('s, 't receiver_state) slab_ops \<Rightarrow> ('s, 't) bc_sys \<Rightarrow> nat set" where
  "told_in ops S =
     (case sending S of
        None \<Rightarrow> {}
      | Some v \<Rightarrow> (case bc_rc (chan S) of None \<Rightarrow> {} | Some i \<Rightarrow> told ops (broad_value i)))"

definition audience_of ::
  "('s, 't receiver_state) slab_ops \<Rightarrow> nat option \<Rightarrow> ('s, 't) bc_sys \<Rightarrow> 't audience" where
  "audience_of ops l S = \<lparr>room_for = l, seats = live S, mail = buffered ops S, hosted = tx_alive S,
     handing = sending S, informed = told_in ops S\<rparr>"

text \<open>Every receiver has the space that the channel was made with.\<close>

definition fitted ::
  "('s, 't receiver_state) slab_ops \<Rightarrow> (nat \<Rightarrow> nat) \<Rightarrow> nat option \<Rightarrow> 's shared \<Rightarrow> bool" where
  "fitted ops alloc l sh \<longleftrightarrow> map_option (\<lambda>c. alloc (unat c)) (per_receiver sh) = l \<and>
     (\<forall>k r. slab_get ops k (receivers sh) = Some r \<longrightarrow>
        (rs_unbounded r \<longleftrightarrow> l = None) \<and> (\<forall>c. l = Some c \<longrightarrow> capacity (rs_buf r) = c))"

definition seated ::
  "('s, 't receiver_state) slab_ops \<Rightarrow> (nat \<Rightarrow> nat) \<Rightarrow> nat option \<Rightarrow> nat \<Rightarrow> ('s, 't) bc_sys \<Rightarrow> bool" where
  "seated ops alloc l n S \<longleftrightarrow> bc_inv ops S \<and>
     (\<forall>i. bc_rc (chan S) = Some i \<longrightarrow> fitted ops alloc l (broad_value i)) \<and>
     bumps S + n < 2 ^ 64 - 1 \<and> card (live S) + n < 2 ^ 64 - 1"

definition mail_in :: "('s, 't receiver_state) slab_ops \<Rightarrow> 's shared \<Rightarrow> nat \<Rightarrow> 't list" where
  "mail_in ops sh k = (case slab_get ops k (receivers sh) of None \<Rightarrow> [] | Some r \<Rightarrow> elems (rs_buf r))"

definition audience_in ::
  "('s, 't receiver_state) slab_ops \<Rightarrow> nat option \<Rightarrow> nat set \<Rightarrow> 's shared \<Rightarrow> bool \<Rightarrow> 't option \<Rightarrow> 't audience" where
  "audience_in ops l L sh h m = \<lparr>room_for = l, seats = L, mail = mail_in ops sh, hosted = h,
     handing = m, informed = (if m = None then {} else told ops sh)\<rparr>"

lemma audience_in_simps [simp]:
  "room_for (audience_in ops l L sh h m) = l" "seats (audience_in ops l L sh h m) = L"
  "mail (audience_in ops l L sh h m) = mail_in ops sh" "hosted (audience_in ops l L sh h m) = h"
  "handing (audience_in ops l L sh h m) = m"
  "informed (audience_in ops l L sh h m) = (if m = None then {} else told ops sh)"
  by (simp_all add: audience_in_def)

lemma audience_of_simps [simp]:
  "room_for (audience_of ops l S) = l" "seats (audience_of ops l S) = live S"
  "mail (audience_of ops l S) = buffered ops S" "hosted (audience_of ops l S) = tx_alive S"
  "handing (audience_of ops l S) = sending S" "informed (audience_of ops l S) = told_in ops S"
  by (simp_all add: audience_of_def)

lemma audience_eqI:
  assumes "room_for A = room_for B" "seats A = seats B" "\<And>k. mail A k = mail B k" "hosted A = hosted B"
    "handing A = handing B" "informed A = informed B"
  shows "(A :: 't audience) = B"
  using assms by (cases A; cases B) (simp add: fun_eq_iff)

lemma owned_value: "broad_owned p m sh rc \<Longrightarrow> rc = Some i \<Longrightarrow> broad_value i = sh"
  by (simp add: broad_owned_def)

lemma owned_there: "broad_owned p m sh rc \<Longrightarrow> p \<or> 0 < m \<Longrightarrow> \<exists>i. rc = Some i"
  by (auto simp: broad_owned_def split: option.splits)

text \<open>The audience is read from the cell; when that is freed there is nobody left in it.\<close>

lemma audience_of_owned:
  assumes "broad_owned p m sh (bc_rc (chan S))"
    and "p \<or> 0 < m \<or> sending S = None \<and> (\<forall>k. slab_get ops k (receivers sh) = None)"
  shows "audience_of ops l S = audience_in ops l (live S) sh (tx_alive S) (sending S)"
proof (cases "bc_rc (chan S)")
  case None
  with owned_there [OF assms(1)] assms(2) have "sending S = None" "\<And>k. slab_get ops k (receivers sh) = None" by auto
  with None show ?thesis by (intro audience_eqI) (simp_all add: buffered_def mail_in_def told_in_def)
next
  case (Some i)
  with owned_value [OF assms(1) Some] show ?thesis
    by (intro audience_eqI)
      (auto simp: buffered_def mail_in_def told_in_def split: option.splits)
qed

lemma free_seat_other [simp]: "k \<notin> seats A \<Longrightarrow> free_seat k A = k"
  by (simp add: free_seat_def)

lemma fitted_capacity:
  assumes "fitted ops alloc l sh" and "slab_get ops k (receivers sh) = Some r"
  shows "rs_at_capacity r \<longleftrightarrow> l = Some (length (mail_in ops sh k))"
  using assms by (cases l) (auto simp: fitted_def rs_at_capacity_def vd_len_def mail_in_def)

lemma in_seats: "(\<And>k. slab_get ops k s \<noteq> None \<longleftrightarrow> k \<in> L) \<Longrightarrow> k \<in> L \<longleftrightarrow> (\<exists>r. slab_get ops k s = Some r)"
  by (metis not_None_eq)

lemma all_entries:
  assumes "\<And>k. slab_get ops k s \<noteq> None \<longleftrightarrow> k \<in> L"
  shows "(\<forall>k r. slab_get ops k s = Some r \<longrightarrow> P r) \<longleftrightarrow> (\<forall>k \<in> L. \<exists>r. slab_get ops k s = Some r \<and> P r)"
  using in_seats [OF assms] by (metis option.inject)

lemma with_room_in:
  assumes "fitted ops alloc l sh" and "\<And>k. slab_get ops k (receivers sh) \<noteq> None \<longleftrightarrow> k \<in> L"
  shows "with_room (audience_in ops l L sh h m) =
    {k. \<exists>r. slab_get ops k (receivers sh) = Some r \<and> \<not> rs_at_capacity r}"
  using fitted_capacity [OF assms(1)] by (auto simp: with_room_def in_seats [OF assms(2)])

section \<open>Each call\<close>

definition attends ::
  "('s, 't receiver_state) slab_ops \<Rightarrow> (nat \<Rightarrow> nat) \<Rightarrow> nat option \<Rightarrow> 't bc_op \<Rightarrow> ('s, 't) bc_sys \<Rightarrow> bool" where
  "attends ops alloc l op S \<longleftrightarrow> (\<exists>j r T. bc_result ops alloc op S = Inr r \<and> bc_exec ops alloc op S = Inr T \<and>
     a_call j op (audience_of ops l S) = Some (r, audience_of ops l T) \<and>
     (\<forall>i. bc_rc (chan T) = Some i \<longrightarrow> fitted ops alloc l (broad_value i)))"

text \<open>The usual way to show it: the result of the call and the shared state that it leaves.\<close>

lemma attendsI:
  assumes "bc_result ops alloc op S = Inr r" and "bc_exec ops alloc op S = Inr T"
    and "broad_owned p m sh (bc_rc (chan T))" and "fitted ops alloc l sh"
    and "a_call j op (audience_of ops l S) = Some (r, audience_of ops l T)"
  shows "attends ops alloc l op S"
  unfolding attends_def using assms owned_value [OF assms(3)] by blast

lemma mail_swept:
  assumes "\<And>j. slab_get ops j slab = map_option g (slab_get ops j (receivers sh))"
    and "\<And>r. elems (rs_buf (g r)) = elems (rs_buf r) @ (if P r then [v] else [])"
  shows "mail_in ops (sh'\<lparr>receivers := slab\<rparr>) k =
    (if \<exists>r. slab_get ops k (receivers sh) = Some r \<and> P r then mail_in ops sh k @ [v] else mail_in ops sh k)"
  using assms(2) by (cases "slab_get ops k (receivers sh)") (simp_all add: mail_in_def assms(1))

lemma fitted_swept:
  assumes "fitted ops alloc l sh" and "\<And>j. slab_get ops j slab = map_option g (slab_get ops j (receivers sh))"
    and "\<And>r. rs_unbounded (g r) = rs_unbounded r"
    and "\<And>r. rs_unbounded r \<or> capacity (rs_buf (g r)) = capacity (rs_buf r)"
    and "per_receiver sh' = per_receiver sh"
  shows "fitted ops alloc l (sh'\<lparr>receivers := slab\<rparr>)"
  unfolding fitted_def
proof (intro conjI allI impI)
  show "map_option (\<lambda>c. alloc (unat c)) (per_receiver (sh'\<lparr>receivers := slab\<rparr>)) = l"
    using assms(1,5) by (simp add: fitted_def)
  fix k r' assume "slab_get ops k (receivers (sh'\<lparr>receivers := slab\<rparr>)) = Some r'"
  then obtain r where r: "slab_get ops k (receivers sh) = Some r" "r' = g r" using assms(2) by auto
  with assms(1,3) show "rs_unbounded r' \<longleftrightarrow> l = None" by (auto simp: fitted_def)
  fix c assume "l = Some c"
  with assms(1) r(1) have "\<not> rs_unbounded r" "capacity (rs_buf r) = c" by (auto simp: fitted_def)
  with assms(4) [of r] r(2) show "capacity (rs_buf r') = c" by simp
qed

lemma delivered_capacity:
  "rs_unbounded (fst (deliver i v r)) = rs_unbounded r"
  "rs_unbounded r \<or> capacity (rs_buf (fst (deliver i v r))) = capacity (rs_buf r)"
  "rs_unbounded (fst (try_deliver v r)) = rs_unbounded r"
  "rs_unbounded r \<or> capacity (rs_buf (fst (try_deliver v r))) = capacity (rs_buf r)"
  by (auto simp: deliver_def try_deliver_def rs_at_capacity_def vd_push_back_def)

lemma delivered_elems:
  "elems (rs_buf (fst (deliver i v r))) = elems (rs_buf r) @ (if \<not> rs_at_capacity r \<and> rs_id r \<noteq> i then [v] else [])"
  "elems (rs_buf (fst (try_deliver v r))) = elems (rs_buf r) @ (if \<not> rs_at_capacity r then [v] else [])"
  by (auto simp: deliver_def try_deliver_def)

lemma delivered_id: "rs_id (fst (deliver i v r)) = i \<longleftrightarrow> rs_id r = i \<or> \<not> rs_at_capacity r"
  by (auto simp: deliver_def)

context receiver_slab
begin

lemma send_speaks:
  assumes o: "broad_owned True (card L) sh (bc_rc ch)" and fin: "finite L"
    and keys: "\<And>k. slab_get ops k (receivers sh) \<noteq> None \<longleftrightarrow> k \<in> L" and fit: "fitted ops alloc l sh"
  obtains r ch' sh' where "send_poll ops cx v ch = Inr (r, ch')" and "broad_owned True (card L) sh' (bc_rc ch')"
    and "fitted ops alloc l sh'"
    and "speak_to v (audience_in ops l L sh True (Some u)) =
      (Spoke r, audience_in ops l L sh' True (case r of Ready _ \<Rightarrow> None | Pending \<Rightarrow> Some v))"
proof (cases "L = {}")
  case True
  with o have "send_poll ops cx v ch = Inr (Ready 0, ch)" by (intro send_poll_none) simp
  moreover have "speak_to v (audience_in ops l L sh True (Some u)) = (Spoke (Ready 0), audience_in ops l L sh True None)"
    using True by (simp add: speak_to_def with_room_def hand_out_def audience_in_def)
  ultimately show thesis using that [OF _ o fit] by simp
next
  case False
  with fin have m: "0 < card L" by (simp add: card_gt_0_iff)
  let ?i = "current_id sh"
  let ?all = "\<forall>k r. slab_get ops k (receivers sh) = Some r \<longrightarrow> rs_id r = ?i \<or> \<not> rs_at_capacity r"
  obtain rc slab calls where
    p: "send_poll ops cx v ch = Inr (if ?all then Ready (slab_len ops (receivers sh)) else Pending,
        \<lparr>bc_rc = rc, bc_woken = bc_woken ch @ calls\<rparr>)"
    "broad_owned True (card L) (sh\<lparr>sender := Some cx, receivers := slab\<rparr>) rc"
    and sw: "\<And>j. slab_get ops j slab = map_option (\<lambda>r. fst (deliver ?i v r)) (slab_get ops j (receivers sh))"
    by (rule bc_send_poll_eq [OF o m]) (rule that)
  let ?A = "audience_in ops l L sh True (Some u)" and ?sh = "sh\<lparr>sender := Some cx, receivers := slab\<rparr>"
  let ?K = "{k. \<exists>r. slab_get ops k (receivers sh) = Some r \<and> \<not> rs_at_capacity r \<and> rs_id r \<noteq> ?i}"
  have K: "with_room ?A - informed ?A = ?K"
    unfolding with_room_in [OF fit keys] by (auto simp: told_def)
  have mail: "mail_in ops ?sh k = (if k \<in> ?K then mail_in ops sh k @ [v] else mail_in ops sh k)" for k
    using mail_swept [OF sw delivered_elems(1), of "sh\<lparr>sender := Some cx\<rparr>" k] by simp
  have told: "told ops ?sh = told ops sh \<union> ?K" by (auto simp: told_def sw delivered_id)
  have "told ops sh \<union> ?K = {k. \<exists>r. slab_get ops k (receivers sh) = Some r \<and> can_have ?i r}"
    by (auto simp: told_def)
  moreover have "?all \<longleftrightarrow> (\<forall>k \<in> L. \<exists>r. slab_get ops k (receivers sh) = Some r \<and> can_have ?i r)"
    by (rule all_entries [OF keys])
  ultimately have all: "?all \<longleftrightarrow> L \<subseteq> told ops sh \<union> ?K" by (simp add: subset_eq)
  have len: "slab_len ops (receivers sh) = card L" using card_entries [of "receivers sh"] keys by simp
  have "speak_to v ?A = (Spoke (if ?all then Ready (slab_len ops (receivers sh)) else Pending),
      audience_in ops l L ?sh True (if ?all then None else Some v))"
    unfolding speak_to_def Let_def K all len
    by (auto intro!: audience_eqI simp: hand_out_def mail told)
  moreover have "fitted ops alloc l ?sh"
    using fitted_swept [OF fit sw delivered_capacity(1,2), of "sh\<lparr>sender := Some cx\<rparr>"] by simp
  ultimately show thesis
    using that [OF p(1) _ _, of ?sh] p(2) by (cases ?all) simp_all
qed

lemma poll_send_attends:
  assumes "bc_holds ops S sh" and "sending S = Some v" and "fitted ops alloc l sh"
  shows "attends ops alloc l (PollSend cx) S"
proof -
  note h = bc_holdsD [OF assms(1)]
  have t: "tx_alive S" using h(6) assms(2) by simp
  then have o: "broad_owned True (card (live S)) sh (bc_rc (chan S))" using h(1) by simp
  from send_speaks [OF o h(2,3) assms(3), where cx = cx and v = v and u = v] obtain r ch sh' where
    s: "send_poll ops cx v (chan S) = Inr (r, ch)" "broad_owned True (card (live S)) sh' (bc_rc ch)" "fitted ops alloc l sh'"
    "speak_to v (audience_in ops l (live S) sh True (Some v)) =
      (Spoke r, audience_in ops l (live S) sh' True (case r of Ready _ \<Rightarrow> None | Pending \<Rightarrow> Some v))" by blast
  obtain T where T: "T = after_send v cx r (rouse ch S)" by blast
  have f: "chan T = ch" "live T = live S" "tx_alive T = tx_alive S"
    "sending T = (case r of Ready _ \<Rightarrow> None | Pending \<Rightarrow> Some v)"
    by (cases r; simp add: T after_send_def)+
  show ?thesis
  proof (rule attendsI [of _ _ _ _ "Spoke r" T, OF _ _ _ s(3)])
    show "broad_owned True (card (live S)) sh' (bc_rc (chan T))" using s(2) f(1) by simp
    from audience_of_owned [OF this] audience_of_owned [OF h(1)] s(4) f t assms(2)
    show "a_call 0 (PollSend cx) (audience_of ops l S) = Some (Spoke r, audience_of ops l T)" by simp
  qed (use s(1) assms(2) T in simp_all)
qed

lemma speak_to_frame: "speak_to v (A\<lparr>handing := m\<rparr>) = speak_to v A"
  by (cases A) (simp add: speak_to_def with_room_def hand_out_def Let_def cong: if_cong)

lemma start_send_attends:
  assumes "bc_holds ops S sh" and "sending S = None" and "tx_alive S" and "fitted ops alloc l sh"
    and "Suc (bumps S) < 2 ^ 64 - 1"
  shows "attends ops alloc l (StartSend v cx) S"
proof -
  note h = bc_holdsD [OF assms(1)]
  have o: "broad_owned True (card (live S)) sh (bc_rc (chan S))" using h(1) assms(3) by simp
  let ?sh = "sh\<lparr>current_id := next_id (current_id sh)\<rparr>"
  from bump_eq [OF o] obtain rc where
    b: "bump_message_id (chan S) = Inr ((chan S)\<lparr>bc_rc := rc\<rparr>)" "broad_owned True (card (live S)) ?sh rc" by blast
  then have o': "broad_owned True (card (live S)) ?sh (bc_rc ((chan S)\<lparr>bc_rc := rc\<rparr>))" by simp
  have keys: "slab_get ops k (receivers ?sh) \<noteq> None \<longleftrightarrow> k \<in> live S" for k using h(3) by simp
  have fit: "fitted ops alloc l ?sh" using assms(4) by (simp add: fitted_def)
  from send_speaks [OF o' h(2) keys fit, where cx = cx and v = v and u = v] obtain r ch sh' where
    s: "send_poll ops cx v ((chan S)\<lparr>bc_rc := rc\<rparr>) = Inr (r, ch)" "broad_owned True (card (live S)) sh' (bc_rc ch)"
    "fitted ops alloc l sh'"
    "speak_to v (audience_in ops l (live S) ?sh True (Some v)) =
      (Spoke r, audience_in ops l (live S) sh' True (case r of Ready _ \<Rightarrow> None | Pending \<Rightarrow> Some v))" by blast
  obtain T where T: "T = after_send v cx r ((rouse ch S)\<lparr>before := got ops S, bumps := Suc (bumps S)\<rparr>)" by blast
  have f: "chan T = ch" "live T = live S" "tx_alive T = tx_alive S"
    "sending T = (case r of Ready _ \<Rightarrow> None | Pending \<Rightarrow> Some v)"
    by (cases r; simp add: T after_send_def)+
  have "rs_id r \<noteq> next_id (current_id sh)" if "slab_get ops k (receivers sh) = Some r" for k r
    using that bumped_ids [OF assms(1,5)] by (metis Suc_n_not_le_n ids_hold_def)
  then have "told ops ?sh = {}" by (auto simp: told_def)
  then have "audience_of ops l S = (audience_in ops l (live S) ?sh True (Some v))\<lparr>handing := None\<rparr>"
    using audience_of_owned [OF h(1)] assms(2,3) by (intro audience_eqI) (simp_all add: mail_in_def)
  with s(4) have speak: "speak_to v (audience_of ops l S) =
      (Spoke r, audience_in ops l (live S) sh' True (case r of Ready _ \<Rightarrow> None | Pending \<Rightarrow> Some v))"
    by (simp add: speak_to_frame)
  have st: "send_start ops cx v (chan S) = Inr (r, ch)" using b(1) s(1) by (simp add: send_start_def)
  show ?thesis
  proof (rule attendsI [of _ _ _ _ "Spoke r" T, OF _ _ _ s(3)])
    show "broad_owned True (card (live S)) sh' (bc_rc (chan T))" using s(2) f(1) by simp
    from audience_of_owned [OF this] speak f assms(2,3)
    show "a_call 0 (StartSend v cx) (audience_of ops l S) = Some (Spoke r, audience_of ops l T)" by simp
  qed (use st T in simp_all)
qed

lemma try_send_nobody_attends:
  assumes "bc_holds ops S sh" and "sending S = None" and "tx_alive S" and "fitted ops alloc l sh"
    and "live S = {}"
  shows "attends ops alloc l (TrySend v) S"
proof -
  note h = bc_holdsD [OF assms(1)]
  have o: "broad_owned True 0 sh (bc_rc (chan S))" using h(1) assms(3,5) by simp
  from try_send_none [OF o, of v] obtain rc where
    t: "try_send ops v (chan S) = Inr (Ok 0, (chan S)\<lparr>bc_rc := rc\<rparr>)"
    "broad_owned True 0 (sh\<lparr>current_id := next_id (current_id sh)\<rparr>) rc" by blast
  obtain T where T: "T = (rouse ((chan S)\<lparr>bc_rc := rc\<rparr>) S)\<lparr>tried := Some (Ok 0), bumps := Suc (bumps S)\<rparr>" by blast
  show ?thesis
  proof (rule attendsI [of _ _ _ _ "Tried (Ok 0)" T])
    show o': "broad_owned True 0 (sh\<lparr>current_id := next_id (current_id sh)\<rparr>) (bc_rc (chan T))" using t(2) T by simp
    have "mail_in ops (sh\<lparr>current_id := next_id (current_id sh)\<rparr>) = mail_in ops sh" by (simp add: mail_in_def fun_eq_iff)
    with audience_of_owned [OF o'] audience_of_owned [OF o] T assms(2,3,5)
    show "a_call 0 (TrySend v) (audience_of ops l S) = Some (Tried (Ok 0), audience_of ops l T)"
      by (simp add: with_room_def hand_out_def)
    show "fitted ops alloc l (sh\<lparr>current_id := next_id (current_id sh)\<rparr>)" using assms(4) by (simp add: fitted_def)
  qed (use t(1) T in simp_all)
qed

lemma try_send_some_attends:
  assumes "bc_holds ops S sh" and "sending S = None" and "tx_alive S" and "fitted ops alloc l sh"
    and "live S \<noteq> {}"
  shows "attends ops alloc l (TrySend v) S"
proof -
  note h = bc_holdsD [OF assms(1)]
  have o: "broad_owned True (card (live S)) sh (bc_rc (chan S))" using h(1) assms(3) by simp
  have m: "0 < card (live S)" using assms(5) h(2) by (simp add: card_gt_0_iff)
  let ?room = "{k. \<exists>r. slab_get ops k (receivers sh) = Some r \<and> \<not> rs_at_capacity r}"
  let ?all = "\<forall>k r. slab_get ops k (receivers sh) = Some r \<longrightarrow> \<not> rs_at_capacity r"
  let ?r = "let n = card ?room in if ?all then Ok n else Err (UnderCapacity n)"
  obtain rc slab calls where
    p: "try_send ops v (chan S) = Inr (?r, \<lparr>bc_rc = rc, bc_woken = bc_woken (chan S) @ calls\<rparr>)"
    "broad_owned True (card (live S)) (sh\<lparr>current_id := next_id (current_id sh), receivers := slab\<rparr>) rc"
    and sw: "\<And>j. slab_get ops j slab = map_option (\<lambda>r. fst (try_deliver v r)) (slab_get ops j (receivers sh))"
    by (rule bc_try_send_eq [OF o m]) (rule that)
  let ?sh = "sh\<lparr>current_id := next_id (current_id sh), receivers := slab\<rparr>"
  obtain T where T: "T = (rouse \<lparr>bc_rc = rc, bc_woken = bc_woken (chan S) @ calls\<rparr> S)\<lparr>tried := Some ?r, bumps := Suc (bumps S)\<rparr>"
    by blast
  have "?room = live S \<longleftrightarrow> card ?room = card (live S)"
    by (rule subset_eq_card [OF h(2)]) (auto simp: in_seats [OF h(3)])
  then have all: "?all \<longleftrightarrow> ?room = live S" using all_iff_card [OF h(2,3), of "\<lambda>r. \<not> rs_at_capacity r"] by simp
  have mail: "mail_in ops ?sh k = (if k \<in> ?room then mail_in ops sh k @ [v] else mail_in ops sh k)" for k
    using mail_swept [OF sw delivered_elems(2), of "sh\<lparr>current_id := next_id (current_id sh)\<rparr>" k] by simp
  show ?thesis
  proof (rule attendsI [of _ _ _ _ "Tried ?r" T])
    show o': "broad_owned True (card (live S)) ?sh (bc_rc (chan T))" using p(2) T by simp
    have "hand_out ?room v (audience_in ops l (live S) sh True None) = audience_in ops l (live S) ?sh True None"
      by (intro audience_eqI) (simp_all add: hand_out_def mail)
    with audience_of_owned [OF o'] audience_of_owned [OF o] m T assms(2,3)
      with_room_in [OF assms(4) h(3), where h = True and m = None] all
    show "a_call 0 (TrySend v) (audience_of ops l S) = Some (Tried ?r, audience_of ops l T)"
      by (simp add: Let_def)
    show "fitted ops alloc l ?sh"
      using fitted_swept [OF assms(4) sw delivered_capacity(3,4), of "sh\<lparr>current_id := next_id (current_id sh)\<rparr>"] by simp
  qed (use p(1) T in simp_all)
qed

lemma try_send_attends:
  assumes "bc_holds ops S sh" and "sending S = None" and "tx_alive S" and "fitted ops alloc l sh"
  shows "attends ops alloc l (TrySend v) S"
  using assms try_send_nobody_attends try_send_some_attends by (cases "live S = {}") blast+

lemma subscribe_attends:
  assumes "bc_holds ops S sh" and "sending S = None" and "tx_alive S" and "fitted ops alloc l sh"
    and "card (live S) < 2 ^ 64 - 1"
  shows "attends ops alloc l Subscribe S"
proof -
  note h = bc_holdsD [OF assms(1)]
  let ?new = "\<lparr>rs_id = current_id sh, rs_waker = None,
      rs_buf = vd_with_capacity alloc (unat (case per_receiver sh of Some c \<Rightarrow> c | None \<Rightarrow> default_capacity)),
      rs_unbounded = Option.is_none (per_receiver sh)\<rparr> :: 't receiver_state"
  obtain k slab where i: "slab_insert ops ?new (receivers sh) = (k, slab)"
    by (cases "slab_insert ops ?new (receivers sh)")
  have o: "broad_owned True (card (live S)) sh (bc_rc (chan S))" using h(1) assms(3) by simp
  from subscribe_eq [OF o assms(5) i] obtain rc where
    s: "subscribe ops alloc (chan S) = Inr (k, (chan S)\<lparr>bc_rc := rc\<rparr>)"
    "broad_owned True (Suc (card (live S))) (sh\<lparr>receivers := slab\<rparr>) rc" by blast
  have slab: "slab_get ops k (receivers sh) = None"
    "\<And>j. slab_get ops j slab = (if j = k then Some ?new else slab_get ops j (receivers sh))"
    using insert_law [OF i] by auto
  then have new: "k \<notin> live S" using h(3) [of k] by simp
  obtain T where T: "T = (rouse ((chan S)\<lparr>bc_rc := rc\<rparr>) S)\<lparr>live := insert k (live S), received := (received S)(k := [])\<rparr>"
    by blast
  have mail: "mail_in ops (sh\<lparr>receivers := slab\<rparr>) = (mail_in ops sh)(k := [])"
    by (auto simp: mail_in_def fun_eq_iff slab(2))
  show ?thesis
  proof (rule attendsI [of _ _ _ _ "Seat k" T])
    show o': "broad_owned True (Suc (card (live S))) (sh\<lparr>receivers := slab\<rparr>) (bc_rc (chan T))" using s(2) T by simp
    with audience_of_owned [OF o'] audience_of_owned [OF o] T assms(2,3) new
    show "a_call k Subscribe (audience_of ops l S) = Some (Seat k, audience_of ops l T)"
      by simp (simp add: audience_in_def mail)
    show "fitted ops alloc l (sh\<lparr>receivers := slab\<rparr>)"
      using assms(4) by (cases "per_receiver sh") (auto simp: fitted_def slab(2) split: if_splits)
  qed (use s(1) T in simp_all)
qed

lemma drop_sender_attends:
  assumes "bc_holds ops S sh" and "sending S = None" and "tx_alive S" and "fitted ops alloc l sh"
  shows "attends ops alloc l DropSender S"
proof -
  note h = bc_holdsD [OF assms(1)]
  have o: "broad_owned True (card (live S)) sh (bc_rc (chan S))" using h(1) assms(3) by simp
  obtain rc slab calls where
    p: "sender_drop ops (chan S) = Inr \<lparr>bc_rc = rc, bc_woken = bc_woken (chan S) @ calls\<rparr>"
    "broad_owned False (card (live S)) (sh\<lparr>receivers := slab\<rparr>) rc"
    and sw: "\<And>j. slab_get ops j slab = map_option (\<lambda>r. fst (take_waker r)) (slab_get ops j (receivers sh))"
    by (rule bc_sender_drop_eq [OF o]) (rule that)
  obtain T where T: "T = (rouse \<lparr>bc_rc = rc, bc_woken = bc_woken (chan S) @ calls\<rparr> S)\<lparr>tx_alive := False\<rparr>" by blast
  have mail: "mail_in ops (sh\<lparr>receivers := slab\<rparr>) = mail_in ops sh"
    by (auto simp: mail_in_def sw take_waker_def fun_eq_iff split: option.split)
  have "slab_get ops k slab = None" if "card (live S) = 0" for k
    using that h(2) h(3) [of k] by (simp add: sw)
  then have n: "False \<or> 0 < card (live S) \<or> sending T = None \<and> (\<forall>k. slab_get ops k (receivers (sh\<lparr>receivers := slab\<rparr>)) = None)"
    using assms(2) by (auto simp: T)
  show ?thesis
  proof (rule attendsI [of _ _ _ _ Quiet T])
    show o': "broad_owned False (card (live S)) (sh\<lparr>receivers := slab\<rparr>) (bc_rc (chan T))" using p(2) T by simp
    from audience_of_owned [OF o' n] audience_of_owned [OF o] T assms(2,3)
    show "a_call 0 DropSender (audience_of ops l S) = Some (Quiet, audience_of ops l T)"
      by simp (simp add: audience_in_def mail)
    show "fitted ops alloc l (sh\<lparr>receivers := slab\<rparr>)"
      using fitted_swept [OF assms(4) sw, of sh] by (simp add: take_waker_def)
  qed (use p(1) T in simp_all)
qed

lemma drop_receiver_attends:
  assumes "bc_holds ops S sh" and "k \<in> live S" and "fitted ops alloc l sh"
  shows "attends ops alloc l (DropReceiver k) S"
proof -
  note h = bc_holdsD [OF assms(1)]
  obtain m where m: "card (live S) = Suc m" "card (live S - {k}) = m"
    using card_live_pos [OF h(2) assms(2)] by simp
  have o: "broad_owned (tx_alive S) (Suc m) sh (bc_rc (chan S))" using h(1) m by simp
  let ?sh = "sh\<lparr>receivers := slab_remove ops k (receivers sh), sender := None\<rparr>"
  from bc_receiver_drop_eq [OF o, of k] obtain rc where
    p: "receiver_drop ops k (chan S) = Inr \<lparr>bc_rc = rc, bc_woken = bc_woken (chan S) @ waker_calls (sender sh)\<rparr>"
    "broad_owned (tx_alive S) m ?sh rc"
    by blast
  let ?ch = "\<lparr>bc_rc = rc, bc_woken = bc_woken (chan S) @ waker_calls (sender sh)\<rparr>"
  obtain T where T: "T = (rouse ?ch S)\<lparr>live := live S - {k}, rx_asleep := (rx_asleep (rouse ?ch S))(k := None)\<rparr>"
    by blast
  have "slab_get ops j (slab_remove ops k (receivers sh)) = None" if "m = 0" for j
    using that m(2) h(2) h(3) [of j] by (auto simp: remove_law)
  then have n: "tx_alive S \<or> 0 < m \<or> sending T = None \<and> (\<forall>j. slab_get ops j (receivers ?sh) = None)"
    using h(6) by (cases "sending S") (auto simp: T)
  have told: "told ops ?sh = told ops sh - {k}" by (auto simp: told_def remove_law)
  have mail: "mail_in ops ?sh = (mail_in ops sh)(k := [])" by (auto simp: mail_in_def fun_eq_iff remove_law)
  show ?thesis
  proof (rule attendsI [of _ _ _ _ Quiet T])
    show o': "broad_owned (tx_alive S) m ?sh (bc_rc (chan T))" using p(2) T by simp
    from audience_of_owned [OF o' n] audience_of_owned [OF o] T assms(2)
    show "a_call 0 (DropReceiver k) (audience_of ops l S) = Some (Quiet, audience_of ops l T)"
      by simp (simp add: audience_in_def mail told)
    show "fitted ops alloc l ?sh" using assms(3) by (simp add: fitted_def remove_law)
  qed (use p(1) T in simp_all)
qed

text \<open>A poll that leaves the receiver's state as \<open>r'\<close>.\<close>

lemma recv_leaves:
  assumes S: "bc_holds ops S sh" "fitted ops alloc l sh" "slab_get ops k (receivers sh) = Some r"
    and p: "recv_poll ops k cx (chan S) = Inr (x, ch)" "card (live S) = Suc m"
      "broad_owned (tx_alive S) (Suc m) (sh\<lparr>receivers := slab_put ops k r' (receivers sh)\<rparr>) (bc_rc ch)"
    and r': "rs_unbounded r' = rs_unbounded r" "capacity (rs_buf r') = capacity (rs_buf r)" "rs_id r' = rs_id r"
    and a: "a_call 0 (PollRecv k cx) (audience_in ops l (live S) sh (tx_alive S) (sending S)) = Some (Heard x,
      (audience_in ops l (live S) sh (tx_alive S) (sending S))\<lparr>mail := (mail_in ops sh)(k := elems (rs_buf r'))\<rparr>)"
  shows "attends ops alloc l (PollRecv k cx) S"
proof -
  let ?sh = "sh\<lparr>receivers := slab_put ops k r' (receivers sh)\<rparr>"
  have put: "slab_get ops j (slab_put ops k r' (receivers sh)) = (if j = k then Some r' else slab_get ops j (receivers sh))" for j
    using S(3) by (simp add: put_law)
  have mail: "mail_in ops ?sh = (mail_in ops sh)(k := elems (rs_buf r'))" by (auto simp: mail_in_def fun_eq_iff put)
  have told: "told ops ?sh = told ops sh" using S(3) r'(3) by (auto simp: told_def put)
  obtain T where T: "bc_exec ops alloc (PollRecv k cx) S = Inr T" "bc_rc (chan T) = bc_rc ch" "live T = live S"
    "tx_alive T = tx_alive S" "sending T = sending S"
    using p(1) by (cases x) auto
  show ?thesis
  proof (rule attendsI [of _ _ _ _ "Heard x" T, OF _ T(1)])
    show o': "broad_owned (tx_alive S) (Suc m) ?sh (bc_rc (chan T))" using p(3) T(2) by simp
    have "audience_of ops l T = (audience_in ops l (live S) sh (tx_alive S) (sending S))
        \<lparr>mail := (mail_in ops sh)(k := elems (rs_buf r'))\<rparr>"
      using audience_of_owned [OF o'] T(3-5) mail told by (simp add: audience_in_def)
    moreover have "audience_of ops l S = audience_in ops l (live S) sh (tx_alive S) (sending S)"
      using audience_of_owned [OF bc_holdsD(1) [OF S(1)]] p(2) by simp
    ultimately show "a_call 0 (PollRecv k cx) (audience_of ops l S) = Some (Heard x, audience_of ops l T)"
      using a by simp
    show "fitted ops alloc l ?sh" using S(2,3) r'(1,2) by (auto simp: fitted_def put)
  qed (use p(1) in simp)
qed

lemma recv_attends:
  assumes "bc_holds ops S sh" and "k \<in> live S" and "fitted ops alloc l sh"
  shows "attends ops alloc l (PollRecv k cx) S"
proof -
  note h = bc_holdsD [OF assms(1)]
  obtain r where r: "slab_get ops k (receivers sh) = Some r" using in_seats [OF h(3)] assms(2) by blast
  obtain m where m: "card (live S) = Suc m" using card_live_pos [OF h(2) assms(2)] by simp
  have o: "broad_owned (tx_alive S) (Suc m) sh (bc_rc (chan S))" using h(1) m by simp
  have mk: "mail_in ops sh k = elems (rs_buf r)" using r by (simp add: mail_in_def)
  note leaves = recv_leaves [OF assms(1,3) r _ m]
  have same: "(audience_in ops l (live S) sh (tx_alive S) (sending S))\<lparr>mail := (mail_in ops sh)(k := elems (rs_buf r))\<rparr> =
      audience_in ops l (live S) sh (tx_alive S) (sending S)"
    by (intro audience_eqI) (simp_all add: mk)
  show ?thesis
  proof (cases "elems (rs_buf r)")
    case (Cons v vs)
    from bc_recv_poll_eq(1) [OF o r Cons, of cx] obtain rc where
      p: "recv_poll ops k cx (chan S) = Inr (Ready (Some v), \<lparr>bc_rc = rc, bc_woken = bc_woken (chan S) @ waker_calls (sender sh)\<rparr>)"
      "broad_owned (tx_alive S) (Suc m) (sh\<lparr>receivers := slab_put ops k (r\<lparr>rs_buf := (rs_buf r)\<lparr>elems := vs\<rparr>\<rparr>) (receivers sh)\<rparr>) rc"
      by blast
    show ?thesis
      by (rule leaves [where r' = "r\<lparr>rs_buf := (rs_buf r)\<lparr>elems := vs\<rparr>\<rparr>", OF p(1)]) (use p(2) mk Cons assms(2) in simp_all)
  next
    case Nil
    show ?thesis
    proof (cases "tx_alive S")
      case True
      from bc_recv_poll_eq(3) [OF o r Nil True, of cx] obtain rc where
        p: "recv_poll ops k cx (chan S) = Inr (Pending, \<lparr>bc_rc = rc, bc_woken = bc_woken (chan S) @ waker_calls (sender sh)\<rparr>)"
        "broad_owned (tx_alive S) (Suc m) (sh\<lparr>receivers := slab_put ops k (r\<lparr>rs_waker := Some cx\<rparr>) (receivers sh)\<rparr>) rc"
        by blast
      show ?thesis
        by (rule leaves [where r' = "r\<lparr>rs_waker := Some cx\<rparr>", OF p(1)]) (use p(2) mk Nil True same assms(2) in simp_all)
    next
      case False
      from bc_recv_poll_eq(2) [OF o r Nil False, of cx] obtain rc where
        p: "recv_poll ops k cx (chan S) = Inr (Ready None, (chan S)\<lparr>bc_rc := rc\<rparr>)"
        "broad_owned (tx_alive S) (Suc m) (sh\<lparr>receivers := slab_put ops k (r\<lparr>rs_waker := None\<rparr>) (receivers sh)\<rparr>) rc"
        by blast
      show ?thesis
        by (rule leaves [where r' = "r\<lparr>rs_waker := None\<rparr>", OF p(1)]) (use p(2) mk Nil False same assms(2) in simp_all)
    qed
  qed
qed

lemma cancels_attend:
  assumes "bc_holds ops S sh"
  shows "sending S = Some v \<Longrightarrow> fitted ops alloc l sh \<Longrightarrow> attends ops alloc l CancelSend S"
    and "k \<in> live S \<Longrightarrow> fitted ops alloc l sh \<Longrightarrow> attends ops alloc l (CancelRecv k) S"
proof -
  note h = bc_holdsD [OF assms]
  show "attends ops alloc l CancelSend S" if "sending S = Some v" "fitted ops alloc l sh"
    by (rule attendsI [where sh = sh and T = "S\<lparr>sending := None, tx_asleep := None\<rparr>" and j = 0])
      (use h(1) that in \<open>auto simp: audience_of_def buffered_def told_in_def fun_eq_iff split: option.split\<close>)
  show "attends ops alloc l (CancelRecv k) S" if "k \<in> live S" "fitted ops alloc l sh"
    by (rule attendsI [where sh = sh and T = "S\<lparr>rx_asleep := (rx_asleep S)(k := None)\<rparr>" and j = 0])
      (use h(1) that in \<open>auto simp: audience_of_def buffered_def told_in_def fun_eq_iff split: option.split\<close>)
qed

lemma seated_attends:
  assumes "seated ops alloc l (Suc n) S" and "bc_enabled op S"
  shows "attends ops alloc l op S"
proof -
  from assms(1) obtain sh where sh: "bc_holds ops S sh" by (auto simp: seated_def bc_inv_def)
  note h = bc_holdsD [OF sh]
  have fit: "fitted ops alloc l sh" if "tx_alive S \<or> live S \<noteq> {}"
  proof -
    from that h(2) have "tx_alive S \<or> 0 < card (live S)" by (simp add: card_gt_0_iff)
    from owned_there [OF h(1) this] obtain i where i: "bc_rc (chan S) = Some i" by blast
    with assms(1) owned_value [OF h(1) i] show ?thesis by (simp add: seated_def)
  qed
  have b: "Suc (bumps S) < 2 ^ 64 - 1" "card (live S) < 2 ^ 64 - 1" using assms(1) by (simp_all add: seated_def)
  show ?thesis
  proof (cases op)
    case (PollSend cx)
    with assms(2) obtain v where "sending S = Some v" by (auto simp: Option.is_none_def)
    with PollSend poll_send_attends [OF sh this] fit h(6) show ?thesis by simp
  next
    case CancelSend
    with assms(2) obtain v where "sending S = Some v" by (auto simp: Option.is_none_def)
    with CancelSend cancels_attend(1) [OF sh this] fit h(6) show ?thesis by simp
  next
    case (CancelRecv k)
    with assms(2) cancels_attend(2) [OF sh, of k] fit show ?thesis by auto
  next
    case (PollRecv k cx)
    with assms(2) recv_attends [OF sh, of k] fit show ?thesis by auto
  next
    case (DropReceiver k)
    with assms(2) drop_receiver_attends [OF sh, of k] fit show ?thesis by auto
  qed (use assms(2) b fit subscribe_attends [OF sh] try_send_attends [OF sh] start_send_attends [OF sh]
        drop_sender_attends [OF sh] in \<open>simp_all add: Option.is_none_def\<close>)
qed

lemma disabled_answers:
  "\<not> bc_enabled op S \<Longrightarrow> sending S \<noteq> None \<longrightarrow> tx_alive S \<Longrightarrow> a_call j op (audience_of ops l S) = None"
  by (cases op) (auto simp: Option.is_none_def)

lemma after_send_counts [simp]: "bumps (after_send v cx r S) = bumps S" "live (after_send v cx r S) = live S"
  by (cases r; simp add: after_send_def)+

lemma exec_counts:
  assumes "bc_exec ops alloc op S = Inr T" and "finite (live S)"
  shows "bumps T \<le> Suc (bumps S) \<and> card (live T) \<le> Suc (card (live S))"
proof (cases op)
  case (PollSend cx)
  with assms(1) show ?thesis by (cases "sending S") (auto simp: and_then_eq_Inr)
next
  case (PollRecv k cx)
  with assms(1) obtain x ch where "recv_poll ops k cx (chan S) = Inr (x, ch)" by (auto simp: and_then_eq_Inr)
  with PollRecv assms(1) show ?thesis by (cases x) auto
next
  case (DropReceiver k)
  with assms show ?thesis using card_Diff1_le [of "live S" k] by (auto simp: and_then_eq_Inr)
qed (use assms in \<open>auto simp: and_then_eq_Inr card_insert_if split: poll.splits\<close>)

lemma seated_keeps:
  assumes "seated ops alloc l (Suc n) S" and "bc_reply ops alloc op S = Some (r, T)"
  shows "seated ops alloc l n T"
proof -
  from assms(2) have e: "bc_enabled op S" "bc_exec ops alloc op S = Inr T"
    by (auto simp: bc_reply_def answer_Some and_then_eq_Inr)
  from assms(1) have i: "bc_inv ops S" "finite (live S)" "card (live S) < 2 ^ 64 - 1"
    by (auto simp: seated_def bc_inv_def dest: bc_holdsD(2))
  from bc_exec_ok [OF i(1) e(1)] i(3) e(2) have "bc_inv ops T" by auto
  moreover have "\<forall>j. bc_rc (chan T) = Some j \<longrightarrow> fitted ops alloc l (broad_value j)"
    using seated_attends [OF assms(1) e(1)] e(2) by (auto simp: attends_def)
  ultimately show ?thesis
    using assms(1) exec_counts [OF e(2) i(2)] by (auto simp: seated_def)
qed

lemma seated_answers:
  assumes "seated ops alloc l (Suc n) S"
  shows "\<exists>j. map_option (\<lambda>(r, S). (r, audience_of ops l S)) (bc_reply ops alloc op S) = a_call j op (audience_of ops l S)"
proof (cases "bc_enabled op S")
  case True
  from seated_attends [OF assms True] obtain j r T where
    "bc_result ops alloc op S = Inr r" "bc_exec ops alloc op S = Inr T"
    "a_call j op (audience_of ops l S) = Some (r, audience_of ops l T)" by (auto simp: attends_def)
  with True show ?thesis by (intro exI [of _ j]) (simp add: bc_reply_def)
next
  case False
  moreover have "sending S \<noteq> None \<longrightarrow> tx_alive S"
    using assms by (auto simp: seated_def bc_inv_def dest: bc_holdsD(6))
  ultimately show ?thesis
    using disabled_answers [of op S 0 l] False by (intro exI [of _ 0]) (simp add: bc_reply_def)
qed

end

lemma bc_simulation:
  assumes "receiver_slab ops alloc"
  shows "call_simulation (bc_reply ops alloc) a_call (audience_of ops l) (seated ops alloc l)"
  by unfold_locales (rule receiver_slab.seated_answers [OF assms] receiver_slab.seated_keeps [OF assms]; assumption)+

interpretation vec_calls: call_simulation "bc_reply vec_slab alloc_exact" a_call "audience_of vec_slab l"
  "seated vec_slab alloc_exact l" for l
  by (rule bc_simulation) (rule vec_receivers.receiver_slab_axioms)

text \<open>The space of each receiver that the channel was made for.\<close>

definition space_of :: "(nat \<Rightarrow> nat) \<Rightarrow> ('s, 't) bc_sys \<Rightarrow> nat option" where
  "space_of alloc S =
     (case bc_rc (chan S) of
        None \<Rightarrow> None
      | Some i \<Rightarrow> map_option (\<lambda>c. alloc (unat c)) (per_receiver (broad_value i)))"

lemma start_seated:
  assumes "receiver_slab ops alloc" and "bc_start ops S" and "n < 2 ^ 64 - 1"
  shows "seated ops alloc (space_of alloc S) n S" and "audience_of ops l S = audience_new l"
proof -
  from assms(1) have none: "slab_get ops k (slab_new ops) = None" for k
    by (rule slab_laws.new_law [OF receiver_slab.axioms(1)])
  from assms(2) have f: "live S = {}" "bumps S = 0" "tx_alive S" "sending S = None"
    by (auto simp: bc_start_def bc_sys_of_def)
  have r: "receivers (broad_value i) = slab_new ops" if "bc_rc (chan S) = Some i" for i
    using assms(2) that
    by (auto simp: bc_start_def bc_sys_of_def channel_def unbounded_channel_def broad_rc_new_def split: if_splits)
  then have "fitted ops alloc (space_of alloc S) (broad_value i)" if "bc_rc (chan S) = Some i" for i
    using that none by (simp add: fitted_def space_of_def)
  with receiver_slab.bc_start_inv [OF assms(1,2)] f assms(3) show "seated ops alloc (space_of alloc S) n S"
    by (simp add: seated_def)
  show "audience_of ops l S = audience_new l"
    using r none f
    by (intro audience_eqI) (auto simp: audience_new_def buffered_def told_in_def split: option.split)
qed

text \<open>
  A run of the specification: two members of an audience with room for one letter each, a letter that
  one of them blocks, and what the other does meanwhile.
\<close>

lemma a_call_example:
  "map_option fst (run_calls (\<lambda>(k, op). a_call k op) (zip [0, 1, 0, 0, 0, 0, 0, 0]
       [Subscribe, Subscribe, TrySend 4, PollRecv 0 3, StartSend 5 9, PollRecv 0 3, DropReceiver 1, PollSend 9])
       (audience_new (Some 1) :: nat audience)) =
     Some [Seat 0, Seat 1, Tried (Ok 2), Heard (Ready (Some 4)), Spoke Pending, Heard (Ready (Some 5)), Quiet,
       Spoke (Ready 1)]"
  by code_simp

section \<open>Properties\<close>

text \<open>C13.
  The broadcast channel is its specification.  For any sequence of fewer than \<open>2 ^ 64 - 1\<close> calls on a new
  channel, over any slab that keeps the documented laws, the code completes every call with a reply
  exactly when the audience allows the whole sequence, the replies are equal one by one, and at the end
  every receiver holds the same messages and the same receivers have got the message under way; only
  which free key a new receiver gets is the slab's choice.
\<close>

theorem broadcast_refines_audience:
  assumes "receiver_slab ops alloc" and "bc_start ops S" and "length calls < 2 ^ 64 - 1"
  shows "\<exists>keys. length keys = length calls \<and>
     map_option (\<lambda>(replies, T). (replies, audience_of ops (space_of alloc S) T)) (run_calls (bc_reply ops alloc) calls S) =
       run_calls (\<lambda>(key, call). a_call key call) (zip keys calls) (audience_new (space_of alloc S))"
  using call_simulation.runs_simulate [OF bc_simulation [OF assms(1)] start_seated(1) [OF assms]]
    start_seated(2) [OF assms] by simp

theorem broadcast_refines_audience_witness:
  "\<exists>keys. map_option fst (run_calls (\<lambda>(key, call). a_call key call)
       (zip keys [Subscribe, Subscribe, TrySend 4, PollRecv 1 3, StartSend 5 9, DropReceiver 0, PollSend 9])
       (audience_new (Some 1) :: int audience)) =
     Some [Seat 0, Seat 1, Tried (Ok 2), Heard (Ready (Some 4)), Spoke Pending, Quiet, Spoke (Ready 1)]"
proof -
  let ?calls = "[Subscribe, Subscribe, TrySend 4, PollRecv 1 3, StartSend 5 9, DropReceiver 0, PollSend 9] :: int bc_op list"
  let ?rs = "[Seat 0, Seat 1, Tried (Ok 2), Heard (Ready (Some 4)), Spoke Pending, Quiet, Spoke (Ready 1)]"
  let ?run = "\<lambda>S. run_calls (bc_reply vec_slab alloc_exact) ?calls S"
  have "passes (channel vec_slab 1) (\<lambda>ch. map_option fst (?run (bc_sys_of ch)) = Some ?rs \<and>
      space_of alloc_exact (bc_sys_of ch :: vec_sys) = Some 1)"
    by code_simp
  then obtain ch where ch: "channel vec_slab 1 = Inr ch" "map_option fst (?run (bc_sys_of ch)) = Some ?rs"
    "space_of alloc_exact (bc_sys_of ch :: vec_sys) = Some 1" by (auto elim: passesE)
  have "bc_start vec_slab (bc_sys_of ch :: vec_sys)" using ch(1) by (auto simp: bc_start_def)
  from broadcast_refines_audience [OF vec_receivers.receiver_slab_axioms this, of ?calls] ch(3) obtain keys where
    "map_option (\<lambda>(rs, T). (rs, audience_of vec_slab (Some 1) T)) (?run (bc_sys_of ch)) =
      run_calls (\<lambda>(key, call). a_call key call) (zip keys ?calls) (audience_new (Some 1))"
    by auto
  from arg_cong [OF this, of "map_option fst"] have "map_option fst (?run (bc_sys_of ch)) =
      map_option fst (run_calls (\<lambda>(key, call). a_call key call) (zip keys ?calls) (audience_new (Some 1) :: int audience))"
    by (simp add: option.map_comp o_def case_prod_beta del: run_calls.simps)
  with ch(2) show ?thesis by metis
qed

end
