(* ===== verification/Broadcast_Tasks.thy ===== *)
theory Broadcast_Tasks
  imports Broadcast_System
begin

text \<open>
  One sending task and many receiving tasks on an executor: \<open>test_broadcast\<close> of
  \<open>tests/broadcast.rs\<close>, for any number of receivers and messages.  The executor runs any task that
  was woken since it was last run: task 0 sends, and the task that owns the receiver with key \<open>k\<close>
  in the slab has the waker \<open>Suc k\<close>.  \<open>yield_now\<close> wakes the task itself and suspends.
\<close>

section \<open>The tasks\<close>

datatype 't speaker = Speaking "'t list" | Transmitting 't "'t list" | Spoken

datatype 't listener = Listening "'t list" | Hearing "'t list" | Left "'t list"

text \<open>
  \<open>Speaking ns\<close>: at the head of the loop, with \<open>ns\<close> still to be sent.  \<open>Transmitting n ns\<close>: in
  \<open>tx.send(n).await\<close>.  The count that \<open>send\<close> returns is ignored; the end of the task drops the sender.
\<close>

fun speak ::
  "('s, 't receiver_state) slab_ops \<Rightarrow> ('t \<Rightarrow> bool) \<Rightarrow> 't list \<Rightarrow> 's broadcast \<Rightarrow>
   ('t speaker \<times> bool \<times> 's broadcast) res" where
  "speak ops yields [] ch = and_then (sender_drop ops ch) (\<lambda>ch. Inr (Spoken, False, ch))"
| "speak ops yields (n # ns) ch =
     and_then (send_start ops 0 n ch) (\<lambda>(r, ch).
     case r of
       Pending \<Rightarrow> Inr (Transmitting n ns, False, ch)
     | Ready _ \<Rightarrow> if yields n then Inr (Speaking ns, True, ch) else speak ops yields ns ch)"

fun speaker_poll ::
  "('s, 't receiver_state) slab_ops \<Rightarrow> ('t \<Rightarrow> bool) \<Rightarrow> 't speaker \<Rightarrow> 's broadcast \<Rightarrow>
   ('t speaker \<times> bool \<times> 's broadcast) res" where
  "speaker_poll ops yields (Speaking ns) ch = speak ops yields ns ch"
| "speaker_poll ops yields (Transmitting n ns) ch =
     and_then (send_poll ops 0 n ch) (\<lambda>(r, ch).
     case r of
       Pending \<Rightarrow> Inr (Transmitting n ns, False, ch)
     | Ready _ \<Rightarrow> if yields n then Inr (Speaking ns, True, ch) else speak ops yields ns ch)"
| "speaker_poll ops yields Spoken ch = Inr (Spoken, False, ch)"

text \<open>
  The receiving loop polls once more than there are messages in its buffer, which is the fuel it is
  given: that the slab gives back what was put into it is a law of the slab, not of its type.
\<close>

definition in_buffer :: "('s, 't receiver_state) slab_ops \<Rightarrow> 's broadcast \<Rightarrow> nat \<Rightarrow> 't list" where
  "in_buffer ops ch k =
     (case bc_rc ch of
        None \<Rightarrow> []
      | Some i \<Rightarrow> (case slab_get ops k (receivers (broad_value i)) of None \<Rightarrow> [] | Some r \<Rightarrow> elems (rs_buf r)))"

fun listen ::
  "('s, 't receiver_state) slab_ops \<Rightarrow> ('t \<Rightarrow> bool) \<Rightarrow> nat \<Rightarrow> nat \<Rightarrow> 't list \<Rightarrow> 's broadcast \<Rightarrow>
   ('t listener \<times> bool \<times> 's broadcast) res" where
  "listen ops yields 0 k out ch = Inl (Panic ''out of fuel'')"
| "listen ops yields (Suc fuel) k out ch =
     and_then (recv_poll ops k (Suc k) ch) (\<lambda>(r, ch).
     case r of
       Pending \<Rightarrow> Inr (Hearing out, False, ch)
     | Ready None \<Rightarrow> and_then (receiver_drop ops k ch) (\<lambda>ch. Inr (Left out, False, ch))
     | Ready (Some v) \<Rightarrow>
         if yields v then Inr (Listening (out @ [v]), True, ch) else listen ops yields fuel k (out @ [v]) ch)"

fun listener_poll ::
  "('s, 't receiver_state) slab_ops \<Rightarrow> ('t \<Rightarrow> bool) \<Rightarrow> nat \<Rightarrow> 't listener \<Rightarrow> 's broadcast \<Rightarrow>
   ('t listener \<times> bool \<times> 's broadcast) res" where
  "listener_poll ops yields k (Listening out) ch = listen ops yields (Suc (length (in_buffer ops ch k))) k out ch"
| "listener_poll ops yields k (Hearing out) ch = listen ops yields (Suc (length (in_buffer ops ch k))) k out ch"
| "listener_poll ops yields k (Left out) ch = Inr (Left out, False, ch)"

section \<open>The executor\<close>

record ('s, 't) club =
  air :: "'s broadcast"
  speaker :: "'t speaker"
  listener :: "nat \<Rightarrow> 't listener"
  audience :: "nat set"
  awake :: "waker set"

record 't manners =
  speaker_yields :: "'t \<Rightarrow> bool"
  listener_yields :: "'t \<Rightarrow> bool"

fun is_spoken :: "'t speaker \<Rightarrow> bool" where
  "is_spoken Spoken = True"
| "is_spoken _ = False"

fun is_left :: "'t listener \<Rightarrow> bool" where
  "is_left (Left out) = True"
| "is_left _ = False"

fun runnable :: "waker \<Rightarrow> ('s, 't) club \<Rightarrow> bool" where
  "runnable 0 S \<longleftrightarrow> 0 \<in> awake S \<and> \<not> is_spoken (speaker S)"
| "runnable (Suc k) S \<longleftrightarrow> Suc k \<in> awake S \<and> k \<in> audience S \<and> \<not> is_left (listener S k)"

text \<open>The tasks that are awake after task \<open>w\<close> has run, which may have woken itself and others.\<close>

definition awake_after :: "waker \<Rightarrow> bool \<Rightarrow> 's broadcast \<Rightarrow> 's broadcast \<Rightarrow> waker set \<Rightarrow> waker set" where
  "awake_after w again old new ws =
     ws - {w} \<union> (if again then {w} else {}) \<union> set (drop (length (bc_woken old)) (bc_woken new))"

fun run_club ::
  "('s, 't receiver_state) slab_ops \<Rightarrow> 't manners \<Rightarrow> waker \<Rightarrow> ('s, 't) club \<Rightarrow> ('s, 't) club res" where
  "run_club ops prog 0 S =
     and_then (speaker_poll ops (speaker_yields prog) (speaker S) (air S)) (\<lambda>(p, again, ch).
     Inr (S\<lparr>air := ch, speaker := p, awake := awake_after 0 again (air S) ch (awake S)\<rparr>))"
| "run_club ops prog (Suc k) S =
     and_then (listener_poll ops (listener_yields prog) k (listener S k) (air S)) (\<lambda>(l, again, ch).
     Inr (S\<lparr>air := ch, listener := (listener S)(k := l), awake := awake_after (Suc k) again (air S) ch (awake S)\<rparr>))"

text \<open>All receivers subscribe before the tasks run.\<close>

fun gather ::
  "('s, 't receiver_state) slab_ops \<Rightarrow> (nat \<Rightarrow> nat) \<Rightarrow> nat \<Rightarrow> 's broadcast \<Rightarrow> (nat set \<times> 's broadcast) res" where
  "gather ops alloc 0 ch = Inr ({}, ch)"
| "gather ops alloc (Suc n) ch =
     and_then (subscribe ops alloc ch) (\<lambda>(k, ch).
     and_then (gather ops alloc n ch) (\<lambda>(ks, ch). Inr (insert k ks, ch)))"

definition open_club :: "'t list \<Rightarrow> nat set \<times> 's broadcast \<Rightarrow> ('s, 't) club" where
  "open_club ns kc =
     \<lparr>air = snd kc, speaker = Speaking ns, listener = (\<lambda>_. Listening []), audience = fst kc,
      awake = insert 0 (Suc ` fst kc)\<rparr>"

definition club_start ::
  "('s, 't receiver_state) slab_ops \<Rightarrow> (nat \<Rightarrow> nat) \<Rightarrow> nat \<Rightarrow> 't list \<Rightarrow> ('s, 't) club \<Rightarrow> bool" where
  "club_start ops alloc n ns S \<longleftrightarrow>
     (\<exists>ch kc. (ch = unbounded_channel ops \<or> (\<exists>cap. channel ops cap = Inr ch)) \<and>
        gather ops alloc n ch = Inr kc \<and> S = open_club ns kc)"

inductive club_step ::
  "('s, 't receiver_state) slab_ops \<Rightarrow> 't manners \<Rightarrow> ('s, 't) club \<Rightarrow> ('s, 't) club \<Rightarrow> bool"
  for ops prog where
  run_club: "runnable w S \<Longrightarrow> run_club ops prog w S = Inr S' \<Longrightarrow> club_step ops prog S S'"

inductive_cases club_stepE: "club_step ops prog S S'"

text \<open>The test, with its numbers of receivers and messages.\<close>

definition test_manners :: "nat manners" where
  "test_manners = \<lparr>speaker_yields = (\<lambda>n. n mod 5 = 0), listener_yields = (\<lambda>v. v mod 3 = 0)\<rparr>"

definition test_broadcast ::
  "('s, nat receiver_state) slab_ops \<Rightarrow> (nat \<Rightarrow> nat) \<Rightarrow> nat \<Rightarrow> nat \<Rightarrow> ('s, nat) club res" where
  "test_broadcast ops alloc rxs n =
     and_then (channel ops 2) (\<lambda>tx.
     and_then (gather ops alloc rxs tx) (\<lambda>kc. Inr (open_club [0..<n] kc)))"

fun run_clubs ::
  "('s, 't receiver_state) slab_ops \<Rightarrow> 't manners \<Rightarrow> waker list \<Rightarrow> ('s, 't) club \<Rightarrow> ('s, 't) club res" where
  "run_clubs ops prog [] S = Inr S"
| "run_clubs ops prog (w # ws) S =
     (if runnable w S then and_then (run_club ops prog w S) (run_clubs ops prog ws) else Inl (Panic ''asleep''))"

section \<open>The invariant\<close>

fun heard :: "'t listener \<Rightarrow> 't list" where
  "heard (Listening out) = out"
| "heard (Hearing out) = out"
| "heard (Left out) = out"

text \<open>What a receiver has still to get, given whether it has got the message of the send under way.\<close>

fun unheard :: "'t speaker \<Rightarrow> bool \<Rightarrow> 't list" where
  "unheard (Speaking ns) has = ns"
| "unheard (Transmitting n ns) has = (if has then ns else n # ns)"
| "unheard Spoken has = []"

fun to_come :: "'t speaker \<Rightarrow> nat" where
  "to_come (Speaking ns) = length ns"
| "to_come (Transmitting n ns) = length ns"
| "to_come Spoken = 0"

fun is_transmitting :: "'t speaker \<Rightarrow> bool" where
  "is_transmitting (Transmitting n ns) = True"
| "is_transmitting _ = False"

text \<open>The waker of a receiver's task while it sleeps.\<close>

definition asleep_as :: "waker set \<Rightarrow> nat \<Rightarrow> waker option" where
  "asleep_as ws k = (if Suc k \<in> ws then None else Some (Suc k))"

definition in_room :: "('s, 't) club \<Rightarrow> nat set" where
  "in_room S = {k \<in> audience S. \<not> is_left (listener S k)}"

text \<open>
  Of each receiver: what it received, what is buffered for it and what is to come are all the
  messages, in order; and a task that sleeps waits for something that has not happened.
\<close>

definition hears :: "'t list \<Rightarrow> ('s, 't) club \<Rightarrow> msg_id \<Rightarrow> nat \<Rightarrow> 't receiver_state \<Rightarrow> bool" where
  "hears ns S i k r \<longleftrightarrow>
     rx_holds (\<not> is_spoken (speaker S)) (asleep_as (awake S) k) r \<and> rs_waker r \<in> {None, Some (Suc k)} \<and>
     unat (rs_id r) \<le> unat i \<and>
     heard (listener S k) @ elems (rs_buf r) @ unheard (speaker S) (rs_id r = i) = ns"

definition blocked :: "('s, 't receiver_state) slab_ops \<Rightarrow> 's shared \<Rightarrow> bool" where
  "blocked ops sh \<longleftrightarrow> sender sh = Some 0 \<and>
     (\<exists>k r. slab_get ops k (receivers sh) = Some r \<and> rs_id r \<noteq> current_id sh \<and> rs_at_capacity r)"

definition club_holds ::
  "('s, 't receiver_state) slab_ops \<Rightarrow> 't list \<Rightarrow> ('s, 't) club \<Rightarrow> 's shared \<Rightarrow> bool" where
  "club_holds ops ns S sh \<longleftrightarrow>
     broad_owned (\<not> is_spoken (speaker S)) (card (in_room S)) sh (bc_rc (air S)) \<and> finite (audience S) \<and>
     (\<forall>k. slab_get ops k (receivers sh) \<noteq> None \<longleftrightarrow> k \<in> in_room S) \<and>
     (\<forall>k r. slab_get ops k (receivers sh) = Some r \<longrightarrow> hears ns S (current_id sh) k r) \<and>
     (\<forall>k\<in>audience S. is_left (listener S k) \<longrightarrow> is_spoken (speaker S) \<and> heard (listener S k) = ns) \<and>
     sender sh \<in> {None, Some 0} \<and>
     (\<not> is_spoken (speaker S) \<longrightarrow> unat (current_id sh) + to_come (speaker S) = length ns) \<and>
     (0 \<notin> awake S \<and> \<not> is_spoken (speaker S) \<longrightarrow> is_transmitting (speaker S) \<and> blocked ops sh)"

definition club_inv :: "('s, 't receiver_state) slab_ops \<Rightarrow> 't list \<Rightarrow> ('s, 't) club \<Rightarrow> bool" where
  "club_inv ops ns S \<longleftrightarrow> length ns < 2 ^ 64 \<and> (\<exists>sh. club_holds ops ns S sh)"

definition club_done :: "('s, 't) club \<Rightarrow> bool" where
  "club_done S \<longleftrightarrow> is_spoken (speaker S) \<and> (\<forall>k\<in>audience S. is_left (listener S k))"

text \<open>The channel while the receivers subscribe.\<close>

definition seated ::
  "('s, 't receiver_state) slab_ops \<Rightarrow> nat set \<Rightarrow> 's shared \<Rightarrow> 's broadcast \<Rightarrow> bool" where
  "seated ops ks sh ch \<longleftrightarrow>
     broad_owned True (card ks) sh (bc_rc ch) \<and> finite ks \<and> current_id sh = 0 \<and> sender sh = None \<and>
     per_receiver sh \<noteq> Some 0 \<and> (\<forall>k. slab_get ops k (receivers sh) \<noteq> None \<longleftrightarrow> k \<in> ks) \<and>
     (\<forall>k r. slab_get ops k (receivers sh) = Some r \<longrightarrow>
        rs_id r = 0 \<and> rs_waker r = None \<and> elems (rs_buf r) = [] \<and> rx_holds True None r)"

lemma club_holdsD:
  assumes "club_holds ops ns S sh"
  shows "broad_owned (\<not> is_spoken (speaker S)) (card (in_room S)) sh (bc_rc (air S))" "finite (audience S)"
    "\<And>k. slab_get ops k (receivers sh) \<noteq> None \<longleftrightarrow> k \<in> in_room S"
    "\<And>k r. slab_get ops k (receivers sh) = Some r \<Longrightarrow> hears ns S (current_id sh) k r"
    "\<And>k. k \<in> audience S \<Longrightarrow> is_left (listener S k) \<Longrightarrow> is_spoken (speaker S) \<and> heard (listener S k) = ns"
    "sender sh \<in> {None, Some 0}"
    "\<not> is_spoken (speaker S) \<Longrightarrow> unat (current_id sh) + to_come (speaker S) = length ns"
    "0 \<notin> awake S \<Longrightarrow> \<not> is_spoken (speaker S) \<Longrightarrow> is_transmitting (speaker S) \<and> blocked ops sh"
  using assms unfolding club_holds_def by blast+

lemma club_holdsI:
  assumes "broad_owned (\<not> is_spoken (speaker S)) (card (in_room S)) sh (bc_rc (air S))" "finite (audience S)"
    "\<And>k. slab_get ops k (receivers sh) \<noteq> None \<longleftrightarrow> k \<in> in_room S"
    "\<And>k r. slab_get ops k (receivers sh) = Some r \<Longrightarrow> hears ns S (current_id sh) k r"
    "\<And>k. k \<in> audience S \<Longrightarrow> is_left (listener S k) \<Longrightarrow> is_spoken (speaker S) \<and> heard (listener S k) = ns"
    "sender sh \<in> {None, Some 0}"
    "\<not> is_spoken (speaker S) \<Longrightarrow> unat (current_id sh) + to_come (speaker S) = length ns"
    "0 \<notin> awake S \<Longrightarrow> \<not> is_spoken (speaker S) \<Longrightarrow> is_transmitting (speaker S) \<and> blocked ops sh"
  shows "club_holds ops ns S sh"
  using assms unfolding club_holds_def by blast

lemma finite_in_room: "finite (audience S) \<Longrightarrow> finite (in_room S)"
  by (simp add: in_room_def)

lemma in_buffer_owned:
  assumes "broad_owned s m sh (bc_rc ch)" and "s \<or> 0 < m"
  shows "in_buffer ops ch k =
     (case slab_get ops k (receivers sh) of None \<Rightarrow> [] | Some r \<Rightarrow> elems (rs_buf r))"
  by (rule broad_ownedE [OF assms]) (simp add: in_buffer_def)

lemma in_buffer_eq:
  assumes "club_holds ops ns S sh"
  shows "in_buffer ops (air S) k =
     (case slab_get ops k (receivers sh) of None \<Rightarrow> [] | Some r \<Rightarrow> elems (rs_buf r))"
proof (cases "bc_rc (air S)")
  case None
  with club_holdsD(1,2) [OF assms] finite_in_room [of S] have "in_room S = {}" by (simp add: broad_owned_def)
  then have "slab_get ops k (receivers sh) = None" using club_holdsD(3) [OF assms] by blast
  with None show ?thesis by (simp add: in_buffer_def)
next
  case (Some i)
  with club_holdsD(1) [OF assms] have "broad_value i = sh" by (simp add: broad_owned_def)
  with Some show ?thesis by (simp add: in_buffer_def)
qed

text \<open>How much a receiver's task has still to do, and how much the others have to do for it.\<close>

fun listener_work :: "nat \<Rightarrow> 't listener \<Rightarrow> nat" where
  "listener_work m (Listening out) = 2 * (m - length out) + 2"
| "listener_work m (Hearing out) = 2 * (m - length out) + 1"
| "listener_work m (Left out) = 0"

fun speaker_work :: "'t speaker \<Rightarrow> nat" where
  "speaker_work (Speaking ns) = 2 * length ns + 2"
| "speaker_work (Transmitting n ns) = 2 * length ns + 3"
| "speaker_work Spoken = 0"

definition share :: "('s, 't receiver_state) slab_ops \<Rightarrow> nat \<Rightarrow> ('s, 't) club \<Rightarrow> nat \<Rightarrow> nat" where
  "share ops m S k =
     3 * (m - length (heard (listener S k)) - length (in_buffer ops (air S) k) + of_bool (\<not> is_spoken (speaker S))) +
     4 * listener_work m (listener S k) + 2 * of_bool (Suc k \<in> awake S)"

definition club_work :: "('s, 't receiver_state) slab_ops \<Rightarrow> nat \<Rightarrow> ('s, 't) club \<Rightarrow> nat" where
  "club_work ops m S =
     (\<Sum>k\<in>audience S. share ops m S k) + 4 * speaker_work (speaker S) + of_bool (0 \<in> awake S)"

definition eases :: "('s, 't receiver_state) slab_ops \<Rightarrow> nat \<Rightarrow> ('s, 't) club \<Rightarrow> ('s, 't) club \<Rightarrow> bool" where
  "eases ops m S T \<longleftrightarrow> audience T = audience S \<and> (\<forall>k\<in>audience S. share ops m T k \<le> share ops m S k)"

lemma eases_trans: "eases ops m S T \<Longrightarrow> eases ops m T U \<Longrightarrow> eases ops m S U"
  unfolding eases_def using order_trans by metis

lemma asleep_as_roused:
  assumes "\<And>w. w \<noteq> 0 \<Longrightarrow> w \<in> ws' \<longleftrightarrow> w \<in> ws \<or> w \<in> set calls"
  shows "asleep_as ws' k = roused calls (asleep_as ws k)"
  using assms [of "Suc k"] by (simp add: asleep_as_def roused_def)

section \<open>A poll of a send\<close>

lemma hears_deliver:
  assumes "hears ns S i k r" and "speaker S = Transmitting n ms"
    and "set (snd (snd (deliver i n r))) \<subseteq> set calls"
    and "\<And>w. w \<noteq> 0 \<Longrightarrow> w \<in> awake T \<longleftrightarrow> w \<in> awake S \<or> w \<in> set calls"
    and "\<not> is_spoken (speaker T)" and "listener T k = listener S k"
    and "unheard (speaker T) (rs_id (fst (deliver i n r)) = i) = unheard (speaker S) (rs_id (fst (deliver i n r)) = i)"
  shows "hears ns T i k (fst (deliver i n r))"
proof -
  let ?r = "fst (deliver i n r)"
  note h = assms(1) [unfolded hears_def]
  have "rx_holds (\<not> is_spoken (speaker S)) (asleep_as (awake S) k) r" using h by blast
  from rx_holds_deliver [OF this assms(3)] have "rx_holds (\<not> is_spoken (speaker T)) (asleep_as (awake T) k) ?r"
    using assms(2,5) asleep_as_roused [where ws = "awake S" and ws' = "awake T", OF assms(4)] by simp
  moreover have "rs_waker ?r \<in> {None, Some (Suc k)}" "unat (rs_id ?r) \<le> unat i"
    using h by (auto simp: deliver_def)
  moreover have "heard (listener T k) @ elems (rs_buf ?r) @ unheard (speaker T) (rs_id ?r = i) = ns"
    using h assms(2,6) unfolding assms(7) by (auto simp: deliver_def)
  ultimately show ?thesis unfolding hears_def by blast
qed

lemma share_deliver:
  assumes "hears ns S i k r" and "speaker S = Transmitting n ms"
    and "in_buffer ops (air S) k = elems (rs_buf r)" and "in_buffer ops (air T) k = elems (rs_buf (fst (deliver i n r)))"
    and "Suc k \<in> awake T \<longleftrightarrow> Suc k \<in> awake S \<or> Suc k \<in> set (snd (snd (deliver i n r)))"
    and "\<not> is_spoken (speaker T)" and "listener T k = listener S k"
  shows "share ops (length ns) T k \<le> share ops (length ns) S k"
proof (cases "rs_id r = i \<or> rs_at_capacity r")
  case True
  with assms show ?thesis by (auto simp: share_def deliver_def)
next
  case False
  then have d: "deliver i n r = (r\<lparr>rs_buf := vd_push_back n (rs_buf r), rs_id := i\<rparr>, 1, waker_calls (rs_waker r))"
    by (simp add: deliver_def)
  have "heard (listener S k) @ elems (rs_buf r) @ n # ms = ns"
    using assms(1,2) False by (auto simp: hears_def)
  from arg_cong [OF this, of length]
  have "length ns = length (heard (listener S k)) + length (elems (rs_buf r)) + Suc (length ms)" by simp
  then show ?thesis using assms(2-4,6,7) by (simp add: share_def d)
qed

text \<open>
  The slab after a poll of the send, which called the wakers \<open>calls\<close>.  The waker of a receiver is
  that of its task, and the invariant goes over to any state \<open>T\<close> with that slab.
\<close>

lemma delivered_own:
  assumes "club_holds ops ns S sh" and "slab_get ops k (receivers sh) = Some r" and "w \<in> set (snd (snd (deliver i n r)))"
  shows "w = Suc k"
  using assms(3) club_holdsD(4) [OF assms(1,2)] by (auto simp: hears_def deliver_def split: if_splits)

lemma delivered_club:
  assumes S: "club_holds ops ns S sh" "speaker S = Transmitting n ms"
    and sw: "swept ops (\<lambda>r. fst (deliver (current_id sh) n r)) (receivers sh) slab"
    and calls: "\<And>k r. slab_get ops k (receivers sh) = Some r \<Longrightarrow> set (snd (snd (deliver (current_id sh) n r))) \<subseteq> set calls"
    and o: "broad_owned True (card (in_room S)) (sh\<lparr>sender := Some 0, receivers := slab\<rparr>) (bc_rc (air T))"
    and T: "listener T = listener S" "audience T = audience S" "\<not> is_spoken (speaker T)"
      "to_come (speaker T) = to_come (speaker S)" "\<And>w. w \<noteq> 0 \<Longrightarrow> w \<in> awake T \<longleftrightarrow> w \<in> awake S \<or> w \<in> set calls"
      "\<And>k r. slab_get ops k slab = Some r \<Longrightarrow>
         unheard (speaker T) (rs_id r = current_id sh) = unheard (speaker S) (rs_id r = current_id sh)"
      "0 \<notin> awake T \<Longrightarrow> is_transmitting (speaker T) \<and> blocked ops (sh\<lparr>sender := Some 0, receivers := slab\<rparr>)"
  shows "club_holds ops ns T (sh\<lparr>sender := Some 0, receivers := slab\<rparr>)"
proof -
  note h = club_holdsD [OF S(1)]
  have room: "in_room T = in_room S" using T(1,2) by (simp add: in_room_def)
  have keys: "slab_get ops k slab \<noteq> None \<longleftrightarrow> k \<in> in_room S" for k using sweptD(1) [OF sw, of k] h(3) by simp
  have "hears ns T (current_id sh) k r'" if s': "slab_get ops k slab = Some r'" for k r'
  proof -
    from sweptD(2) [OF sw s'] obtain r where
      r: "slab_get ops k (receivers sh) = Some r" "r' = fst (deliver (current_id sh) n r)" by blast
    show ?thesis
      unfolding r(2)
      by (rule hears_deliver [OF h(4) [OF r(1)] S(2) calls [OF r(1)] T(5,3)]) (use T(1) T(6) [OF s'] r(2) in simp_all)
  qed
  then show ?thesis
    using o keys h(2,5,7) T(1-4,7) S(2) room by (intro club_holdsI) simp_all
qed

lemma delivered_eases:
  assumes S: "club_holds ops ns S sh" "speaker S = Transmitting n ms"
    and sw: "swept ops (\<lambda>r. fst (deliver (current_id sh) n r)) (receivers sh) slab"
    and calls: "set calls = {w. \<exists>k r. slab_get ops k (receivers sh) = Some r \<and>
        w \<in> set (snd (snd (deliver (current_id sh) n r)))}"
    and o: "broad_owned True m (sh\<lparr>sender := w0, receivers := slab\<rparr>) (bc_rc (air T))"
    and T: "listener T = listener S" "audience T = audience S" "\<not> is_spoken (speaker T)"
      "\<And>w. w \<noteq> 0 \<Longrightarrow> w \<in> awake T \<longleftrightarrow> w \<in> awake S \<or> w \<in> set calls"
  shows "eases ops (length ns) S T"
proof -
  note h = club_holdsD [OF S(1)] and own = delivered_own [OF S(1)]
  have b: "in_buffer ops (air T) k = (case slab_get ops k slab of None \<Rightarrow> [] | Some r \<Rightarrow> elems (rs_buf r))" for k
    using in_buffer_owned [OF o, of ops k] by simp
  have "share ops (length ns) T k \<le> share ops (length ns) S k" for k
  proof (cases "slab_get ops k (receivers sh)")
    case None
    then have "Suc k \<notin> set calls" unfolding calls using own by fastforce
    moreover have "slab_get ops k slab = None" using sw None by (simp add: swept_def)
    ultimately show ?thesis
      using None b [of k] in_buffer_eq [OF S(1), of k] T(1,3) T(4) [of "Suc k"] S(2) by (simp add: share_def)
  next
    case (Some r)
    have "Suc k \<in> set calls \<longleftrightarrow> Suc k \<in> set (snd (snd (deliver (current_id sh) n r)))"
    proof
      assume "Suc k \<in> set calls"
      then obtain k' r' where k': "slab_get ops k' (receivers sh) = Some r'"
        "Suc k \<in> set (snd (snd (deliver (current_id sh) n r')))"
        unfolding calls by blast
      with own [OF k'] Some show "Suc k \<in> set (snd (snd (deliver (current_id sh) n r)))" by simp
    qed (use Some in \<open>auto simp: calls\<close>)
    with Some b [of k] in_buffer_eq [OF S(1), of k] T(1,3) T(4) [of "Suc k"] sweptD(3) [OF sw Some]
      share_deliver [OF h(4) [OF Some] S(2), of ops T]
    show ?thesis by simp
  qed
  then show ?thesis unfolding eases_def using T(2) by simp
qed

context receiver_slab
begin

text \<open>
  The sending task is awake while it runs.  A poll of its send delivers to the receivers with room;
  the send either waits, or is through and the task goes on.
\<close>

text \<open>A sweep of a send keeps the invariant, whether it waits for some receiver or is done.\<close>

lemma sweep_keeps:
  assumes S: "club_holds ops ns S sh" "speaker S = Transmitting n ms" "0 \<in> awake S"
    and sw: "swept ops (\<lambda>r. fst (deliver (current_id sh) n r)) (receivers sh) slab"
    and calls: "\<And>k r. slab_get ops k (receivers sh) = Some r \<Longrightarrow> set (snd (snd (deliver (current_id sh) n r))) \<subseteq> set calls"
    and o: "broad_owned True (card (in_room S)) (sh\<lparr>sender := Some 0, receivers := slab\<rparr>) (bc_rc ch)"
  shows "\<not> (\<forall>k r. slab_get ops k (receivers sh) = Some r \<longrightarrow> can_have (current_id sh) r) \<Longrightarrow>
      club_holds ops ns (S\<lparr>air := ch, awake := awake S - {0} \<union> set calls\<rparr>) (sh\<lparr>sender := Some 0, receivers := slab\<rparr>)"
    and "\<forall>k r. slab_get ops k (receivers sh) = Some r \<longrightarrow> can_have (current_id sh) r \<Longrightarrow>
      club_holds ops ns (S\<lparr>air := ch, speaker := Speaking ms, awake := awake S \<union> set calls\<rparr>)
        (sh\<lparr>sender := Some 0, receivers := slab\<rparr>)"
proof -
  note T = delivered_club [OF S(1,2) sw calls]
  let ?sh = "sh\<lparr>sender := Some 0, receivers := slab\<rparr>"
  let ?p = "S\<lparr>air := ch, awake := awake S - {0} \<union> set calls\<rparr>"
  let ?r = "S\<lparr>air := ch, speaker := Speaking ms, awake := awake S \<union> set calls\<rparr>"
  show "club_holds ops ns ?p ?sh" if "\<not> (\<forall>k r. slab_get ops k (receivers sh) = Some r \<longrightarrow> can_have (current_id sh) r)"
  proof (rule T)
    from that obtain k r where r: "slab_get ops k (receivers sh) = Some r" "\<not> can_have (current_id sh) r" by blast
    then have "slab_get ops k slab = Some r" using sw by (simp add: swept_def deliver_def)
    with r S(2) show "is_transmitting (speaker ?p) \<and> blocked ops ?sh" by (auto simp: blocked_def)
  qed (use S(2) o in auto)
  show "club_holds ops ns ?r ?sh" if all: "\<forall>k r. slab_get ops k (receivers sh) = Some r \<longrightarrow> can_have (current_id sh) r"
  proof (rule T)
    fix k r' assume "slab_get ops k slab = Some r'"
    from sweptD(2) [OF sw this] obtain r where
      "slab_get ops k (receivers sh) = Some r" "r' = fst (deliver (current_id sh) n r)" by blast
    with all have "rs_id r' = current_id sh" by (auto simp: deliver_def)
    then show "unheard (speaker ?r) (rs_id r' = current_id sh) = unheard (speaker S) (rs_id r' = current_id sh)"
      using S(2) by simp
  qed (use S(2,3) o in auto)
qed

lemma send_polled:
  assumes "club_holds ops ns S sh" and "speaker S = Transmitting n ms" and "0 \<in> awake S"
  obtains r ch calls sh' where "send_poll ops 0 n (air S) = Inr (r, ch)"
    and "bc_woken ch = bc_woken (air S) @ calls" and "0 \<notin> set calls"
    and "r = Pending \<Longrightarrow> club_holds ops ns (S\<lparr>air := ch, awake := awake S - {0} \<union> set calls\<rparr>) sh'"
    and "r \<noteq> Pending \<Longrightarrow> club_holds ops ns (S\<lparr>air := ch, speaker := Speaking ms, awake := awake S \<union> set calls\<rparr>) sh'"
    and "\<forall>T. air T = ch \<longrightarrow> listener T = listener S \<longrightarrow> audience T = audience S \<longrightarrow> \<not> is_spoken (speaker T) \<longrightarrow>
        (\<forall>w. w \<noteq> 0 \<longrightarrow> (w \<in> awake T \<longleftrightarrow> w \<in> awake S \<or> w \<in> set calls)) \<longrightarrow> eases ops (length ns) S T"
proof (cases "in_room S = {}")
  case True
  note h = club_holdsD [OF assms(1)]
  have o: "broad_owned True 0 sh (bc_rc (air S))" using h(1) True assms(2) by simp
  from send_poll_none [OF o, of 0 n] have p: "send_poll ops 0 n (air S) = Inr (Ready 0, air S)" .
  have none: "slab_get ops k (receivers sh) = None" for k using h(3) [of k] True by blast
  have T: "club_holds ops ns (S\<lparr>air := air S, speaker := Speaking ms, awake := awake S \<union> set []\<rparr>) sh"
    using h(1,2,3,5,6,7) assms(2,3) none by (intro club_holdsI) (simp_all add: in_room_def)
  show thesis
    by (rule that [OF p _ _ _ T]) (use assms(2) in \<open>auto simp: eases_def share_def\<close>)
next
  case False
  note h = club_holdsD [OF assms(1)]
  have m: "0 < card (in_room S)" using False finite_in_room [OF h(2)] by (simp add: card_gt_0_iff)
  let ?all = "\<forall>k r. slab_get ops k (receivers sh) = Some r \<longrightarrow> can_have (current_id sh) r"
  let ?r = "if ?all then Ready (slab_len ops (receivers sh)) else Pending"
  have o: "broad_owned True (card (in_room S)) sh (bc_rc (air S))" using h(1) assms(2) by simp
  obtain rc slab calls where
    p: "send_poll ops 0 n (air S) = Inr (?r, \<lparr>bc_rc = rc, bc_woken = bc_woken (air S) @ calls\<rparr>)"
    and o': "broad_owned True (card (in_room S)) (sh\<lparr>sender := Some 0, receivers := slab\<rparr>) rc"
    and sw': "\<And>j. slab_get ops j slab = map_option (\<lambda>r. fst (deliver (current_id sh) n r)) (slab_get ops j (receivers sh))"
    and calls: "set calls = {w. \<exists>k r. slab_get ops k (receivers sh) = Some r \<and>
        w \<in> set (snd (snd (deliver (current_id sh) n r)))}"
    by (rule bc_send_poll_eq [OF o m]) (rule that)
  have sw: "swept ops (\<lambda>r. fst (deliver (current_id sh) n r)) (receivers sh) slab" using sw' by (simp add: swept_def)
  have z: "0 \<notin> set calls" unfolding calls using delivered_own [OF assms(1)] by fastforce
  have sub: "set (snd (snd (deliver (current_id sh) n r))) \<subseteq> set calls" if "slab_get ops k (receivers sh) = Some r" for k r
    unfolding calls using that by blast
  let ?ch = "\<lparr>bc_rc = rc, bc_woken = bc_woken (air S) @ calls\<rparr>"
  let ?sh = "sh\<lparr>sender := Some 0, receivers := slab\<rparr>"
  have o2: "broad_owned True (card (in_room S)) ?sh (bc_rc ?ch)" using o' by simp
  note T = sweep_keeps [OF assms sw sub o2]
  have e: "\<forall>T. air T = ?ch \<longrightarrow> listener T = listener S \<longrightarrow> audience T = audience S \<longrightarrow> \<not> is_spoken (speaker T) \<longrightarrow>
      (\<forall>w. w \<noteq> 0 \<longrightarrow> (w \<in> awake T \<longleftrightarrow> w \<in> awake S \<or> w \<in> set calls)) \<longrightarrow> eases ops (length ns) S T"
    by (intro allI impI delivered_eases [OF assms(1,2) sw calls]) (use o' in simp_all)
  have pending: "(if b then Ready i else Pending) = Pending \<longleftrightarrow> \<not> b" for b and i :: nat by simp
  show thesis
  proof (rule that [OF p _ z _ _ e])
    show "club_holds ops ns (S\<lparr>air := ?ch, awake := awake S - {0} \<union> set calls\<rparr>) ?sh" if "?r = Pending"
      using that unfolding pending by (rule T(1) [rotated]) assumption
    show "club_holds ops ns (S\<lparr>air := ?ch, speaker := Speaking ms, awake := awake S \<union> set calls\<rparr>) ?sh" if "?r \<noteq> Pending"
      using that unfolding pending not_not by (rule T(2) [rotated]) assumption
  qed simp
qed

text \<open>What a run of the sending task amounts to.\<close>

definition spoke :: "'t list \<Rightarrow> ('s, 't) club \<Rightarrow> ('t speaker \<times> bool \<times> 's broadcast) res \<Rightarrow> bool" where
  "spoke ns S res \<longleftrightarrow> (\<exists>p again ch calls sh.
     res = Inr (p, again, ch) \<and> bc_woken ch = bc_woken (air S) @ calls \<and> 0 \<notin> set calls \<and>
     club_holds ops ns (S\<lparr>air := ch, speaker := p, awake := awake S - {0} \<union> (if again then {0} else {}) \<union> set calls\<rparr>) sh \<and>
     eases ops (length ns) S (S\<lparr>air := ch, speaker := p, awake := awake S - {0} \<union> (if again then {0} else {}) \<union> set calls\<rparr>) \<and>
     (speaker_work p < speaker_work (speaker S) \<or> speaker_work p = speaker_work (speaker S) \<and> \<not> again))"

text \<open>The identifier of a new send is one that no receiver has.\<close>

lemma bumped:
  assumes "club_holds ops ns S sh" and "speaker S = Speaking (n # ms)" and "0 \<in> awake S" and "length ns < 2 ^ 64"
  obtains rc where "bump_message_id (air S) = Inr ((air S)\<lparr>bc_rc := rc\<rparr>)"
    and "club_holds ops ns (S\<lparr>air := (air S)\<lparr>bc_rc := rc\<rparr>, speaker := Transmitting n ms\<rparr>)
        (sh\<lparr>current_id := next_id (current_id sh)\<rparr>)"
    and "eases ops (length ns) S (S\<lparr>air := (air S)\<lparr>bc_rc := rc\<rparr>, speaker := Transmitting n ms\<rparr>)"
proof -
  note h = club_holdsD [OF assms(1)]
  let ?sh = "sh\<lparr>current_id := next_id (current_id sh)\<rparr>"
  have o: "broad_owned True (card (in_room S)) sh (bc_rc (air S))" using h(1) assms(2) by simp
  from bump_eq [OF o] obtain rc where
    b: "bump_message_id (air S) = Inr ((air S)\<lparr>bc_rc := rc\<rparr>)" "broad_owned True (card (in_room S)) ?sh rc" by blast
  obtain T where T: "T = S\<lparr>air := (air S)\<lparr>bc_rc := rc\<rparr>, speaker := Transmitting n ms\<rparr>" by blast
  have id: "unat (next_id (current_id sh)) = Suc (unat (current_id sh))"
    using h(7) assms(2,4) by (intro next_id_eq) simp
  have fresh: "rs_id r \<noteq> next_id (current_id sh)" if "slab_get ops k (receivers sh) = Some r" for k r
    using h(4) [OF that] id by (auto simp: hears_def)
  have "hears ns T (current_id ?sh) k r" if s: "slab_get ops k (receivers ?sh) = Some r" for k r
    using h(4) [of k r] s fresh [of k r] id assms(2) by (simp add: hears_def T)
  then have "club_holds ops ns T ?sh"
    using h(2,3,5,6,7) b(2) id assms(2,3) by (intro club_holdsI) (simp_all add: T in_room_def)
  moreover have "eases ops (length ns) S T"
    using in_buffer_eq [OF assms(1)] in_buffer_eq [OF calculation] assms(2)
    by (simp add: eases_def share_def T)
  ultimately show thesis using b(1) unfolding T by (rule that [rotated])
qed

lemma closed:
  assumes "club_holds ops ns S sh" and "speaker S = Speaking []" and "0 \<in> awake S"
  shows "spoke ns S (and_then (sender_drop ops (air S)) (\<lambda>ch. Inr (Spoken, False, ch)))"
proof -
  note h = club_holdsD [OF assms(1)]
  have o: "broad_owned True (card (in_room S)) sh (bc_rc (air S))" using h(1) assms(2) by simp
  obtain rc slab calls where d: "sender_drop ops (air S) = Inr \<lparr>bc_rc = rc, bc_woken = bc_woken (air S) @ calls\<rparr>"
    and o': "broad_owned False (card (in_room S)) (sh\<lparr>receivers := slab\<rparr>) rc"
    and sw: "\<And>j. slab_get ops j slab = map_option (\<lambda>r. fst (take_waker r)) (slab_get ops j (receivers sh))"
    and calls: "set calls = {w. \<exists>k r. slab_get ops k (receivers sh) = Some r \<and> w \<in> set (snd (snd (take_waker r)))}"
    by (rule bc_sender_drop_eq [OF o]) (rule that)
  let ?sh = "sh\<lparr>receivers := slab\<rparr>"
  have own: "w = Suc k" if "slab_get ops k (receivers sh) = Some r" "w \<in> set (snd (snd (take_waker r)))" for w k r
    using that(2) h(4) [OF that(1)] by (auto simp: hears_def take_waker_def)
  have z: "0 \<notin> set calls" unfolding calls using own by fastforce
  obtain T where T: "T = S\<lparr>air := \<lparr>bc_rc = rc, bc_woken = bc_woken (air S) @ calls\<rparr>, speaker := Spoken,
      awake := awake S - {0} \<union> (if False then {0} else {}) \<union> set calls\<rparr>" by blast
  have "hears ns T (current_id ?sh) k r'" if s': "slab_get ops k slab = Some r'" for k r'
  proof -
    from s' obtain r where r: "slab_get ops k (receivers sh) = Some r" "r' = fst (take_waker r)" by (auto simp: sw)
    have "set (snd (snd (take_waker r))) \<subseteq> set calls" unfolding calls using r(1) by blast
    from rx_holds_take_waker [OF _ this] h(4) [OF r(1)]
    have "rx_holds False (roused calls (asleep_as (awake S) k)) r'" unfolding hears_def r(2) by blast
    also have "roused calls (asleep_as (awake S) k) = asleep_as (awake T) k"
      by (subst asleep_as_roused [where ws = "awake S" and calls = calls]) (auto simp: T)
    finally show ?thesis using h(4) [OF r(1)] assms(2) r(2) by (simp add: hears_def T take_waker_def)
  qed
  moreover have "slab_get ops k slab \<noteq> None \<longleftrightarrow> k \<in> in_room S" for k using h(3) [of k] by (simp add: sw)
  moreover have "\<not> is_left (listener S k)" if "k \<in> audience S" for k using h(5) [OF that] assms(2) by auto
  ultimately have t: "club_holds ops ns T ?sh"
    using h(2,6) o' assms(2) by (intro club_holdsI) (simp_all add: T in_room_def)
  have "in_buffer ops (air T) k = in_buffer ops (air S) k" for k
    unfolding in_buffer_eq [OF t] in_buffer_eq [OF assms(1)]
    by (simp add: sw take_waker_def split: option.split)
  then have "eases ops (length ns) S T" using assms(2) by (auto simp: eases_def share_def T)
  with t d z assms(2) show ?thesis unfolding spoke_def T
    by (intro exI [of _ Spoken] exI [of _ False] exI [of _ "\<lparr>bc_rc = rc, bc_woken = bc_woken (air S) @ calls\<rparr>"]
        exI [of _ calls] exI [of _ ?sh]) simp
qed

text \<open>The loop, entered with the task awake.\<close>

lemma spoke_after:
  assumes "spoke ns T res" and "eases ops (length ns) S T"
    and "bc_woken (air T) = bc_woken (air S) @ calls" and "0 \<notin> set calls"
    and "T = S\<lparr>air := ch, speaker := q, awake := awake S \<union> set calls\<rparr>"
    and "speaker_work q < speaker_work (speaker S)"
  shows "spoke ns S res"
proof -
  from assms(1) obtain p again ch' more sh where t: "res = Inr (p, again, ch')" "bc_woken ch' = bc_woken (air T) @ more"
    "0 \<notin> set more"
    "club_holds ops ns (T\<lparr>air := ch', speaker := p, awake := awake T - {0} \<union> (if again then {0} else {}) \<union> set more\<rparr>) sh"
    "eases ops (length ns) T (T\<lparr>air := ch', speaker := p, awake := awake T - {0} \<union> (if again then {0} else {}) \<union> set more\<rparr>)"
    "speaker_work p < speaker_work (speaker T) \<or> speaker_work p = speaker_work (speaker T) \<and> \<not> again"
    unfolding spoke_def by blast
  have "awake T - {0} \<union> (if again then {0} else {}) \<union> set more =
      awake S - {0} \<union> (if again then {0} else {}) \<union> set (calls @ more)"
    using assms(4,5) by auto
  then have u: "T\<lparr>air := ch', speaker := p, awake := awake T - {0} \<union> (if again then {0} else {}) \<union> set more\<rparr> =
      S\<lparr>air := ch', speaker := p, awake := awake S - {0} \<union> (if again then {0} else {}) \<union> set (calls @ more)\<rparr>"
    using assms(5) by simp
  have "eases ops (length ns) S (S\<lparr>air := ch', speaker := p, awake := awake S - {0} \<union> (if again then {0} else {}) \<union> set (calls @ more)\<rparr>)"
    using eases_trans [OF assms(2) t(5)] unfolding u .
  moreover have "speaker_work p < speaker_work (speaker S)" using t(6) assms(5,6) by auto
  ultimately show ?thesis
    using t(1-4) assms(3,4) unfolding spoke_def u
    by (intro exI [of _ p] exI [of _ again] exI [of _ ch'] exI [of _ "calls @ more"] exI [of _ sh]) simp
qed

text \<open>From a poll of a send on, with \<open>rest\<close> for the rest of the loop.\<close>

lemma poll_spoke:
  assumes "club_holds ops ns S sh" and "speaker S = Transmitting n ms" and "0 \<in> awake S"
    and rest: "\<And>T sh. club_holds ops ns T sh \<Longrightarrow> speaker T = Speaking ms \<Longrightarrow> 0 \<in> awake T \<Longrightarrow> spoke ns T (rest (air T))"
  shows "spoke ns S (and_then (send_poll ops 0 n (air S)) (\<lambda>(r, ch).
     case r of
       Pending \<Rightarrow> Inr (Transmitting n ms, False, ch)
     | Ready _ \<Rightarrow> if yields n then Inr (Speaking ms, True, ch) else rest ch))"
proof -
  obtain r ch calls sh' where s: "send_poll ops 0 n (air S) = Inr (r, ch)" "bc_woken ch = bc_woken (air S) @ calls"
      "0 \<notin> set calls"
    and p: "r = Pending \<Longrightarrow> club_holds ops ns (S\<lparr>air := ch, awake := awake S - {0} \<union> set calls\<rparr>) sh'"
    and q: "r \<noteq> Pending \<Longrightarrow> club_holds ops ns (S\<lparr>air := ch, speaker := Speaking ms, awake := awake S \<union> set calls\<rparr>) sh'"
    and e: "\<forall>T. air T = ch \<longrightarrow> listener T = listener S \<longrightarrow> audience T = audience S \<longrightarrow> \<not> is_spoken (speaker T) \<longrightarrow>
        (\<forall>w. w \<noteq> 0 \<longrightarrow> (w \<in> awake T \<longleftrightarrow> w \<in> awake S \<or> w \<in> set calls)) \<longrightarrow> eases ops (length ns) S T"
    by (rule send_polled [OF assms(1-3)]) (rule that)
  show ?thesis
  proof (cases r)
    case Pending
    have u: "S\<lparr>air := ch, speaker := Transmitting n ms, awake := awake S - {0} \<union> (if False then {0} else {}) \<union> set calls\<rparr> =
        S\<lparr>air := ch, awake := awake S - {0} \<union> set calls\<rparr>"
      using assms(2) by (cases S) simp
    have "eases ops (length ns) S (S\<lparr>air := ch, awake := awake S - {0} \<union> set calls\<rparr>)"
      by (rule e [rule_format]) (use assms(2) in auto)
    with s p [OF Pending] Pending show ?thesis unfolding spoke_def
      by (intro exI [of _ "Transmitting n ms"] exI [of _ False] exI [of _ ch] exI [of _ calls] exI [of _ sh'])
        (unfold u, simp add: assms(2))
  next
    case (Ready c)
    obtain T where T: "T = S\<lparr>air := ch, speaker := Speaking ms, awake := awake S \<union> set calls\<rparr>" by blast
    have t: "club_holds ops ns T sh'" using q Ready T by simp
    have ease: "eases ops (length ns) S T" by (rule e [rule_format]) (auto simp: T)
    show ?thesis
    proof (cases "yields n")
      case True
      have u: "S\<lparr>air := ch, speaker := Speaking ms, awake := awake S - {0} \<union> (if True then {0} else {}) \<union> set calls\<rparr> = T"
        using assms(3) by (auto simp: T intro!: arg_cong [where f = "\<lambda>ws. S\<lparr>air := ch, speaker := Speaking ms, awake := ws\<rparr>"])
      show ?thesis using s t ease Ready True unfolding spoke_def
        by (intro exI [of _ "Speaking ms"] exI [of _ True] exI [of _ ch] exI [of _ calls] exI [of _ sh'])
          (unfold u, simp add: assms(2))
    next
      case False
      have "spoke ns T (rest (air T))" by (rule rest [OF t]) (use assms(3) in \<open>simp_all add: T\<close>)
      from spoke_after [OF this ease _ s(3) T] s(1,2) Ready False assms(2) show ?thesis by (simp add: T)
    qed
  qed
qed

lemma speak_spoke:
  assumes "club_holds ops ns S sh" and "speaker S = Speaking ms" and "0 \<in> awake S" and "length ns < 2 ^ 64"
  shows "spoke ns S (speak ops yields ms (air S))"
  using assms(1-3)
proof (induction ms arbitrary: S sh)
  case Nil
  with closed show ?case by simp
next
  case (Cons n ms)
  obtain rc where b: "bump_message_id (air S) = Inr ((air S)\<lparr>bc_rc := rc\<rparr>)"
    "club_holds ops ns (S\<lparr>air := (air S)\<lparr>bc_rc := rc\<rparr>, speaker := Transmitting n ms\<rparr>)
        (sh\<lparr>current_id := next_id (current_id sh)\<rparr>)"
    "eases ops (length ns) S (S\<lparr>air := (air S)\<lparr>bc_rc := rc\<rparr>, speaker := Transmitting n ms\<rparr>)"
    by (rule bumped [OF Cons.prems assms(4)])
  obtain T where T: "T = S\<lparr>air := (air S)\<lparr>bc_rc := rc\<rparr>, speaker := Transmitting n ms, awake := awake S \<union> set []\<rparr>" by blast
  have T': "T = S\<lparr>air := (air S)\<lparr>bc_rc := rc\<rparr>, speaker := Transmitting n ms\<rparr>" by (cases S) (simp add: T)
  have "spoke ns T (and_then (send_poll ops 0 n (air T)) (\<lambda>(r, ch).
     case r of
       Pending \<Rightarrow> Inr (Transmitting n ms, False, ch)
     | Ready _ \<Rightarrow> if yields n then Inr (Speaking ms, True, ch) else speak ops yields ms ch))"
    by (rule poll_spoke [OF b(2) [folded T']]) (use Cons.IH Cons.prems(3) in \<open>simp_all add: T'\<close>)
  from spoke_after [OF this b(3) [folded T'] _ _ T] b(1) Cons.prems(2) show ?case
    by (simp add: send_start_def T)
qed

lemma speaker_spoke:
  assumes "club_holds ops ns S sh" and "\<not> is_spoken (speaker S)" and "0 \<in> awake S" and "length ns < 2 ^ 64"
  shows "spoke ns S (speaker_poll ops yields (speaker S) (air S))"
proof (cases "speaker S")
  case (Speaking ms)
  with speak_spoke [OF assms(1) _ assms(3,4)] show ?thesis by simp
next
  case (Transmitting n ms)
  have "spoke ns S (and_then (send_poll ops 0 n (air S)) (\<lambda>(r, ch).
     case r of
       Pending \<Rightarrow> Inr (Transmitting n ms, False, ch)
     | Ready _ \<Rightarrow> if yields n then Inr (Speaking ms, True, ch) else speak ops yields ms ch))"
    by (rule poll_spoke [OF assms(1) Transmitting assms(3)]) (use speak_spoke assms(4) in blast)
  then show ?thesis by (simp add: Transmitting)
qed (use assms(2) in simp)

text \<open>What a run of a receiving task amounts to.\<close>

definition listened :: "'t list \<Rightarrow> nat \<Rightarrow> ('s, 't) club \<Rightarrow> ('t listener \<times> bool \<times> 's broadcast) res \<Rightarrow> bool" where
  "listened ns k S res \<longleftrightarrow> (\<exists>l again ch calls sh T.
     res = Inr (l, again, ch) \<and> bc_woken ch = bc_woken (air S) @ calls \<and> set calls \<subseteq> {0} \<and>
     T = S\<lparr>air := ch, listener := (listener S)(k := l),
        awake := awake S - {Suc k} \<union> (if again then {Suc k} else {}) \<union> set calls\<rparr> \<and>
     club_holds ops ns T sh \<and> share ops (length ns) T k + 2 \<le> share ops (length ns) S k \<and>
     (\<forall>j. j \<noteq> k \<longrightarrow> share ops (length ns) T j = share ops (length ns) S j))"

text \<open>One receiver is rewritten, by its task.\<close>

lemma retuned:
  assumes "club_holds ops ns S sh" and "slab_get ops k (receivers sh) = Some r"
    and "broad_owned (\<not> is_spoken (speaker S)) (card (in_room S)) (sh\<lparr>receivers := slab_put ops k r' (receivers sh)\<rparr>) rc"
    and "\<not> is_left l" and "heard l @ elems (rs_buf r') = heard (listener S k) @ elems (rs_buf r)"
    and "rs_id r' = rs_id r" and "rs_waker r' \<in> {None, Some (Suc k)}"
    and "rx_holds (\<not> is_spoken (speaker S)) (asleep_as ws k) r'"
    and "calls = waker_calls (sender sh) \<or> calls = [] \<and> is_spoken (speaker S)"
    and "\<And>w. w \<noteq> Suc k \<Longrightarrow> w \<in> ws \<longleftrightarrow> w \<in> awake S \<or> w \<in> set calls"
    and T: "T = S\<lparr>air := \<lparr>bc_rc = rc, bc_woken = bc_woken (air S) @ calls\<rparr>, listener := (listener S)(k := l), awake := ws\<rparr>"
  shows "club_holds ops ns T (sh\<lparr>receivers := slab_put ops k r' (receivers sh)\<rparr>)"
    and "in_buffer ops (air T) k = elems (rs_buf r')"
    and "\<And>j. j \<noteq> k \<Longrightarrow> share ops m T j = share ops m S j"
proof -
  note h = club_holdsD [OF assms(1)]
  let ?sh = "sh\<lparr>receivers := slab_put ops k r' (receivers sh)\<rparr>"
  have put: "slab_get ops j (receivers ?sh) = (if j = k then Some r' else slab_get ops j (receivers sh))" for j
    using assms(2) by (simp add: put_law)
  have k: "k \<in> in_room S" using h(3) [of k] assms(2) by simp
  have calls: "set calls \<subseteq> {0}" using h(6) assms(9) by auto
  have room: "in_room T = in_room S" using k assms(4) by (auto simp: in_room_def T)
  have other: "asleep_as ws j = asleep_as (awake S) j" if "j \<noteq> k" for j
    using that calls assms(10) [of "Suc j"] by (auto simp: asleep_as_def)
  have "hears ns T (current_id ?sh) j q" if "slab_get ops j (receivers ?sh) = Some q" for j q
  proof (cases "j = k")
    case True
    with that put have "q = r'" by simp
    moreover have "(heard l @ elems (rs_buf r')) @ unheard (speaker S) (rs_id r = current_id sh) = ns"
      using h(4) [OF assms(2)] unfolding assms(5) by (simp add: hears_def)
    ultimately show ?thesis using True assms(6,7,8) h(4) [OF assms(2)] by (simp add: hears_def T)
  next
    case False
    with that put h(4) [of j q] other show ?thesis by (simp add: hears_def T)
  qed
  moreover have "0 \<in> awake T" if "\<not> is_spoken (speaker S)"
  proof (cases "0 \<in> awake S")
    case False
    with h(8) that have "sender sh = Some 0" by (simp add: blocked_def)
    with that assms(9) assms(10) [of 0] show ?thesis by (simp add: T)
  qed (use assms(10) [of 0] in \<open>simp add: T\<close>)
  moreover have "slab_get ops j (receivers ?sh) \<noteq> None \<longleftrightarrow> j \<in> in_room T" for j
    using h(3) [of j] k put room by simp
  ultimately show holds: "club_holds ops ns T ?sh"
    using assms(3,4) h(2,5,6,7) room by (intro club_holdsI) (auto simp: T split: if_splits)
  show "in_buffer ops (air T) k = elems (rs_buf r')" using in_buffer_eq [OF holds, of k] put by simp
  fix j assume j: "j \<noteq> k"
  have "in_buffer ops (air T) j = in_buffer ops (air S) j"
    using in_buffer_eq [OF holds, of j] in_buffer_eq [OF assms(1), of j] put j by simp
  moreover have "Suc j \<in> ws \<longleftrightarrow> Suc j \<in> awake S" using j calls assms(10) [of "Suc j"] by auto
  ultimately show "share ops m T j = share ops m S j" using j by (simp add: share_def T)
qed

text \<open>The end of a receiving task: its receiver is dropped.\<close>

lemma hung_up:
  assumes "club_holds ops ns S sh" and "slab_get ops k (receivers sh) = Some r" and "elems (rs_buf r) = []"
    and "is_spoken (speaker S)"
  shows "listened ns k S (and_then (receiver_drop ops k (air S)) (\<lambda>ch. Inr (Left (heard (listener S k)), False, ch)))"
proof -
  note h = club_holdsD [OF assms(1)]
  let ?sh = "sh\<lparr>receivers := slab_remove ops k (receivers sh), sender := None\<rparr>"
  let ?l = "Left (heard (listener S k))"
  have k: "k \<in> in_room S" using h(3) [of k] assms(2) by simp
  then have m: "card (in_room S) = Suc (card (in_room S - {k}))"
    using finite_in_room [OF h(2)] by (rule card_Suc_Diff1 [symmetric, rotated])
  have o: "broad_owned False (Suc (card (in_room S - {k}))) sh (bc_rc (air S))" using h(1) m assms(4) by simp
  from bc_receiver_drop_eq [OF o, of k] obtain rc where
    d: "receiver_drop ops k (air S) = Inr \<lparr>bc_rc = rc, bc_woken = bc_woken (air S) @ waker_calls (sender sh)\<rparr>"
    "broad_owned False (card (in_room S - {k})) ?sh rc"
    by blast
  let ?calls = "waker_calls (sender sh)"
  obtain T where T: "T = S\<lparr>air := \<lparr>bc_rc = rc, bc_woken = bc_woken (air S) @ ?calls\<rparr>,
      listener := (listener S)(k := ?l), awake := awake S - {Suc k} \<union> (if False then {Suc k} else {}) \<union> set ?calls\<rparr>" by blast
  have calls: "set ?calls \<subseteq> {0}" using h(6) by auto
  have room: "in_room T = in_room S - {k}" by (auto simp: in_room_def T)
  have all: "heard (listener S k) = ns" using h(4) [OF assms(2)] assms(3,4) by (cases "speaker S") (simp_all add: hears_def)
  have "hears ns T (current_id ?sh) j q" if "slab_get ops j (receivers ?sh) = Some q" for j q
  proof -
    have j: "j \<noteq> k" "slab_get ops j (receivers sh) = Some q" using that by (simp_all add: remove_law split: if_splits)
    then have "asleep_as (awake T) j = asleep_as (awake S) j" using calls by (auto simp: asleep_as_def T)
    with j(1) h(4) [OF j(2)] show ?thesis by (simp add: hears_def T)
  qed
  moreover have "slab_get ops j (receivers ?sh) \<noteq> None \<longleftrightarrow> j \<in> in_room T" for j
    using h(3) [of j] room by (simp add: remove_law)
  ultimately have t: "club_holds ops ns T ?sh"
    using d(2) h(2,5) room assms(4) all by (intro club_holdsI) (auto simp: T split: if_splits)
  have "share ops (length ns) T j = share ops (length ns) S j" if j: "j \<noteq> k" for j
  proof -
    have "in_buffer ops (air T) j = in_buffer ops (air S) j"
      using in_buffer_eq [OF t, of j] in_buffer_eq [OF assms(1), of j] j by (simp add: remove_law)
    moreover have "Suc j \<in> awake T \<longleftrightarrow> Suc j \<in> awake S" using j calls by (auto simp: T)
    ultimately show ?thesis using j by (simp add: share_def T)
  qed
  moreover have "share ops (length ns) T k + 2 \<le> share ops (length ns) S k"
    using k assms(4) all by (cases "listener S k") (auto simp: share_def T in_room_def)
  ultimately show ?thesis
    using d(1) t calls T unfolding listened_def
    by (intro exI [of _ ?l] exI [of _ False] exI [of _ "\<lparr>bc_rc = rc, bc_woken = bc_woken (air S) @ ?calls\<rparr>"]
        exI [of _ ?calls] exI [of _ ?sh] exI [of _ T]) simp
qed

lemma listened_after:
  assumes "listened ns k T res" and "share ops (length ns) T k \<le> share ops (length ns) S k"
    and "\<And>j. j \<noteq> k \<Longrightarrow> share ops (length ns) T j = share ops (length ns) S j"
    and "bc_woken (air T) = bc_woken (air S) @ calls" and "set calls \<subseteq> {0}"
    and "T = S\<lparr>air := ch, listener := (listener S)(k := l), awake := awake S \<union> set calls\<rparr>"
  shows "listened ns k S res"
proof -
  from assms(1) obtain l' again ch' more sh U where u: "res = Inr (l', again, ch')"
    "bc_woken ch' = bc_woken (air T) @ more" "set more \<subseteq> {0}"
    "U = T\<lparr>air := ch', listener := (listener T)(k := l'),
        awake := awake T - {Suc k} \<union> (if again then {Suc k} else {}) \<union> set more\<rparr>"
    "club_holds ops ns U sh" "share ops (length ns) U k + 2 \<le> share ops (length ns) T k"
    "\<forall>j. j \<noteq> k \<longrightarrow> share ops (length ns) U j = share ops (length ns) T j"
    unfolding listened_def by blast
  have "awake T - {Suc k} \<union> (if again then {Suc k} else {}) \<union> set more =
      awake S - {Suc k} \<union> (if again then {Suc k} else {}) \<union> set (calls @ more)"
    using assms(5,6) by auto
  then have "U = S\<lparr>air := ch', listener := (listener S)(k := l'),
      awake := awake S - {Suc k} \<union> (if again then {Suc k} else {}) \<union> set (calls @ more)\<rparr>"
    using assms(6) u(4) by simp
  then show ?thesis
    using u assms(2-5) unfolding listened_def
    by (intro exI [of _ l'] exI [of _ again] exI [of _ ch'] exI [of _ "calls @ more"] exI [of _ sh] exI [of _ U]) simp
qed

text \<open>The three outcomes of a poll: a message, the wait for one, and the end of the messages.\<close>

lemma at_seat:
  assumes "club_holds ops ns S sh" and "slab_get ops k (receivers sh) = Some r"
  obtains m where "card (in_room S) = Suc m" and "broad_owned (\<not> is_spoken (speaker S)) (Suc m) sh (bc_rc (air S))"
    and "\<not> is_left (listener S k)" and "rx_holds (\<not> is_spoken (speaker S)) (asleep_as (awake S) k) r"
    and "rs_waker r \<in> {None, Some (Suc k)}"
    and "heard (listener S k) @ elems (rs_buf r) @ unheard (speaker S) (rs_id r = current_id sh) = ns"
    and "set (waker_calls (sender sh)) \<subseteq> {0}" and "in_buffer ops (air S) k = elems (rs_buf r)"
proof -
  note h = club_holdsD [OF assms(1)]
  have k: "k \<in> in_room S" using h(3) [of k] assms(2) by simp
  then obtain m where m: "card (in_room S) = Suc m"
    using finite_in_room [OF h(2)] by (metis card_Suc_Diff1)
  show thesis
    using h(1,6) h(4) [OF assms(2)] k m in_buffer_eq [OF assms(1), of k] assms(2)
    by (intro that [of m]) (auto simp: hears_def in_room_def)
qed

lemma heard_one:
  assumes "club_holds ops ns S sh" and "slab_get ops k (receivers sh) = Some r" and "Suc k \<in> awake S"
    and "elems (rs_buf r) = v # vs"
  obtains ch T calls where "recv_poll ops k (Suc k) (air S) = Inr (Ready (Some v), ch)"
    and "T = S\<lparr>air := ch, listener := (listener S)(k := Listening (heard (listener S k) @ [v])), awake := awake S \<union> set calls\<rparr>"
    and "bc_woken ch = bc_woken (air S) @ calls" and "set calls \<subseteq> {0}"
    and "club_holds ops ns T (sh\<lparr>receivers := slab_put ops k (r\<lparr>rs_buf := (rs_buf r)\<lparr>elems := vs\<rparr>\<rparr>) (receivers sh)\<rparr>)"
    and "share ops (length ns) T k + 2 \<le> share ops (length ns) S k"
    and "\<And>j. j \<noteq> k \<Longrightarrow> share ops (length ns) T j = share ops (length ns) S j"
proof -
  let ?p = "\<not> is_spoken (speaker S)" and ?calls = "waker_calls (sender sh)"
  let ?r = "r\<lparr>rs_buf := (rs_buf r)\<lparr>elems := vs\<rparr>\<rparr>"
  obtain m where m: "card (in_room S) = Suc m" "broad_owned ?p (Suc m) sh (bc_rc (air S))" "\<not> is_left (listener S k)"
    and rx: "rx_holds ?p (asleep_as (awake S) k) r" "rs_waker r \<in> {None, Some (Suc k)}"
    "heard (listener S k) @ elems (rs_buf r) @ unheard (speaker S) (rs_id r = current_id sh) = ns"
    and calls: "set ?calls \<subseteq> {0}" and b: "in_buffer ops (air S) k = elems (rs_buf r)"
    by (rule at_seat [OF assms(1,2)])
  from bc_recv_poll_eq(1) [OF m(2) assms(2,4), of "Suc k"] m obtain rc where
    p: "recv_poll ops k (Suc k) (air S) = Inr (Ready (Some v), \<lparr>bc_rc = rc, bc_woken = bc_woken (air S) @ ?calls\<rparr>)"
    "broad_owned ?p (card (in_room S)) (sh\<lparr>receivers := slab_put ops k ?r (receivers sh)\<rparr>) rc"
    by auto
  obtain T where T: "T = S\<lparr>air := \<lparr>bc_rc = rc, bc_woken = bc_woken (air S) @ ?calls\<rparr>,
      listener := (listener S)(k := Listening (heard (listener S k) @ [v])), awake := awake S \<union> set ?calls\<rparr>" by blast
  have "rx_holds ?p (asleep_as (awake S \<union> set ?calls) k) ?r"
    using rx(1) assms(3,4) by (auto simp: rx_holds_def vd_len_def asleep_as_def)
  with assms(4) rx(2) have t: "club_holds ops ns T (sh\<lparr>receivers := slab_put ops k ?r (receivers sh)\<rparr>)"
    "in_buffer ops (air T) k = vs" "\<And>j. j \<noteq> k \<Longrightarrow> share ops (length ns) T j = share ops (length ns) S j"
    using retuned [OF assms(1,2) p(2) _ _ _ _ _ _ _ T] by simp_all
  have "share ops (length ns) T k + 2 \<le> share ops (length ns) S k"
    using rx(3) assms(3,4) b t(2) m(3) by (cases "listener S k") (auto simp: share_def T)
  then show thesis using p(1) t calls by (intro that [OF _ T]) simp_all
qed

lemma waits_for_more:
  assumes "club_holds ops ns S sh" and "slab_get ops k (receivers sh) = Some r" and "Suc k \<in> awake S"
    and "elems (rs_buf r) = []" and "\<not> is_spoken (speaker S)"
  obtains ch where "recv_poll ops k (Suc k) (air S) = Inr (Pending, ch)"
    and "listened ns k S (Inr (Hearing (heard (listener S k)), False, ch))"
proof -
  let ?p = "\<not> is_spoken (speaker S)" and ?calls = "waker_calls (sender sh)" and ?r = "r\<lparr>rs_waker := Some (Suc k)\<rparr>"
  let ?l = "Hearing (heard (listener S k))"
  obtain m where m: "card (in_room S) = Suc m" "broad_owned ?p (Suc m) sh (bc_rc (air S))" "\<not> is_left (listener S k)"
    and rx: "rx_holds ?p (asleep_as (awake S) k) r"
    and calls: "set ?calls \<subseteq> {0}" and b: "in_buffer ops (air S) k = elems (rs_buf r)"
    by (rule at_seat [OF assms(1,2)])
  from bc_recv_poll_eq(3) [OF m(2) assms(2,4,5), of "Suc k"] m obtain rc where
    p: "recv_poll ops k (Suc k) (air S) = Inr (Pending, \<lparr>bc_rc = rc, bc_woken = bc_woken (air S) @ ?calls\<rparr>)"
    "broad_owned ?p (card (in_room S)) (sh\<lparr>receivers := slab_put ops k ?r (receivers sh)\<rparr>) rc"
    by auto
  obtain T where T: "T = S\<lparr>air := \<lparr>bc_rc = rc, bc_woken = bc_woken (air S) @ ?calls\<rparr>,
      listener := (listener S)(k := ?l), awake := awake S - {Suc k} \<union> (if False then {Suc k} else {}) \<union> set ?calls\<rparr>" by blast
  have "rx_holds ?p (asleep_as (awake S - {Suc k} \<union> (if False then {Suc k} else {}) \<union> set ?calls) k) ?r"
    using rx assms(4,5) calls by (auto simp: rx_holds_def asleep_as_def)
  with assms(4) have t: "club_holds ops ns T (sh\<lparr>receivers := slab_put ops k ?r (receivers sh)\<rparr>)"
    "in_buffer ops (air T) k = []" "\<And>j. j \<noteq> k \<Longrightarrow> share ops (length ns) T j = share ops (length ns) S j"
    using retuned [OF assms(1,2) p(2) _ _ _ _ _ _ _ T] by simp_all
  have "Suc k \<notin> awake T" using calls by (auto simp: T)
  then have "share ops (length ns) T k + 2 \<le> share ops (length ns) S k"
    using b assms(3,4) t(2) m(3) by (cases "listener S k") (auto simp: share_def T)
  with p(1) t calls T have "listened ns k S (Inr (?l, False, \<lparr>bc_rc = rc, bc_woken = bc_woken (air S) @ ?calls\<rparr>))"
    unfolding listened_def
    by (intro exI [of _ ?l] exI [of _ False] exI [of _ "\<lparr>bc_rc = rc, bc_woken = bc_woken (air S) @ ?calls\<rparr>"]
        exI [of _ ?calls] exI [of _ "sh\<lparr>receivers := slab_put ops k ?r (receivers sh)\<rparr>"] exI [of _ T]) simp
  with p(1) show thesis by (rule that)
qed

lemma leaves:
  assumes "club_holds ops ns S sh" and "slab_get ops k (receivers sh) = Some r" and "Suc k \<in> awake S"
    and "elems (rs_buf r) = []" and "is_spoken (speaker S)"
  obtains ch where "recv_poll ops k (Suc k) (air S) = Inr (Ready None, ch)"
    and "listened ns k S (and_then (receiver_drop ops k ch) (\<lambda>ch. Inr (Left (heard (listener S k)), False, ch)))"
proof -
  let ?p = "\<not> is_spoken (speaker S)" and ?r = "r\<lparr>rs_waker := None\<rparr>"
  obtain m where m: "card (in_room S) = Suc m" "broad_owned ?p (Suc m) sh (bc_rc (air S))" "\<not> is_left (listener S k)"
    and rx: "rx_holds ?p (asleep_as (awake S) k) r" and b: "in_buffer ops (air S) k = elems (rs_buf r)"
    by (rule at_seat [OF assms(1,2)])
  have "\<not> ?p" using assms(5) by simp
  from bc_recv_poll_eq(2) [OF m(2) assms(2,4) this, of "Suc k"] m obtain rc where
    p: "recv_poll ops k (Suc k) (air S) = Inr (Ready None, (air S)\<lparr>bc_rc := rc\<rparr>)"
    "broad_owned ?p (card (in_room S)) (sh\<lparr>receivers := slab_put ops k ?r (receivers sh)\<rparr>) rc"
    by auto
  have ch: "(air S)\<lparr>bc_rc := rc\<rparr> = \<lparr>bc_rc = rc, bc_woken = bc_woken (air S)\<rparr>" by (cases "air S") simp
  obtain T where T: "T = S\<lparr>air := \<lparr>bc_rc = rc, bc_woken = bc_woken (air S) @ []\<rparr>,
      listener := (listener S)(k := Hearing (heard (listener S k))), awake := awake S \<union> set []\<rparr>" by blast
  have "rx_holds ?p (asleep_as (awake S \<union> set []) k) ?r"
    using rx assms(3) by (auto simp: rx_holds_def asleep_as_def)
  with assms(4,5) have t: "club_holds ops ns T (sh\<lparr>receivers := slab_put ops k ?r (receivers sh)\<rparr>)"
    "in_buffer ops (air T) k = []" "\<And>j. j \<noteq> k \<Longrightarrow> share ops (length ns) T j = share ops (length ns) S j"
    using retuned [OF assms(1,2) p(2) _ _ _ _ _ _ _ T] by simp_all
  have "listened ns k T (and_then (receiver_drop ops k (air T)) (\<lambda>ch. Inr (Left (heard (listener T k)), False, ch)))"
    by (rule hung_up [OF t(1), of k ?r]) (use assms(2,4,5) in \<open>simp_all add: put_law T\<close>)
  moreover have "share ops (length ns) T k \<le> share ops (length ns) S k"
    using b assms(4) t(2) m(3) by (cases "listener S k") (auto simp: share_def T)
  ultimately show thesis using listened_after [OF _ _ t(3) _ _ T] p(1) by (intro that) (simp_all add: T ch)
qed

lemma listen_listened:
  assumes "club_holds ops ns S sh" and "slab_get ops k (receivers sh) = Some r" and "Suc k \<in> awake S"
    and "length (elems (rs_buf r)) < fuel"
  shows "listened ns k S (listen ops yields fuel k (heard (listener S k)) (air S))"
  using assms
proof (induction fuel arbitrary: S sh r)
  case (Suc fuel)
  show ?case
  proof (cases "elems (rs_buf r)")
    case (Cons v vs)
    let ?l = "Listening (heard (listener S k) @ [v])"
    let ?r = "r\<lparr>rs_buf := (rs_buf r)\<lparr>elems := vs\<rparr>\<rparr>"
    let ?sh = "sh\<lparr>receivers := slab_put ops k ?r (receivers sh)\<rparr>"
    obtain ch T calls where
      p: "recv_poll ops k (Suc k) (air S) = Inr (Ready (Some v), ch)"
      and T: "T = S\<lparr>air := ch, listener := (listener S)(k := ?l), awake := awake S \<union> set calls\<rparr>"
      and c: "bc_woken ch = bc_woken (air S) @ calls" "set calls \<subseteq> {0}" and t: "club_holds ops ns T ?sh"
      and s: "share ops (length ns) T k + 2 \<le> share ops (length ns) S k"
        "\<And>j. j \<noteq> k \<Longrightarrow> share ops (length ns) T j = share ops (length ns) S j"
      by (rule heard_one [OF Suc.prems(1-3) Cons]) (rule that)
    show ?thesis
    proof (cases "yields v")
      case True
      have "T = S\<lparr>air := ch, listener := (listener S)(k := ?l),
          awake := awake S - {Suc k} \<union> (if True then {Suc k} else {}) \<union> set calls\<rparr>"
        using Suc.prems(3) by (simp add: T insert_absorb)
      with p t s c True show ?thesis unfolding listened_def
        by (intro exI [of _ ?l] exI [of _ True] exI [of _ ch] exI [of _ calls] exI [of _ ?sh] exI [of _ T]) simp
    next
      case False
      have "listened ns k T (listen ops yields fuel k (heard (listener T k)) (air T))"
        by (rule Suc.IH [OF t, of ?r]) (use Suc.prems(2,3,4) Cons in \<open>simp_all add: put_law T\<close>)
      from listened_after [OF this _ s(2) _ c(2) T] s(1) c(1) p False show ?thesis by (simp add: T)
    qed
  next
    case Nil
    show ?thesis
    proof (cases "is_spoken (speaker S)")
      case True
      from leaves [OF Suc.prems(1-3) Nil True] show ?thesis by fastforce
    next
      case False
      from waits_for_more [OF Suc.prems(1-3) Nil False] show ?thesis by fastforce
    qed
  qed
qed simp

section \<open>Every run of a task\<close>

lemma club_awake_after:
  "bc_woken new = bc_woken old @ calls \<Longrightarrow>
     awake_after w again old new ws = ws - {w} \<union> (if again then {w} else {}) \<union> set calls"
  by (simp add: awake_after_def)

lemma run_speaker_ok:
  assumes "club_holds ops ns S sh" and "length ns < 2 ^ 64" and "runnable 0 S"
  shows "\<exists>S'. run_club ops prog 0 S = Inr S' \<and> club_inv ops ns S' \<and>
     club_work ops (length ns) S' < club_work ops (length ns) S"
proof -
  from assms(3) have a: "0 \<in> awake S" "\<not> is_spoken (speaker S)" by simp_all
  from speaker_spoke [OF assms(1) a(2,1) assms(2), of "speaker_yields prog"] obtain p again ch calls sh' T where
    r: "speaker_poll ops (speaker_yields prog) (speaker S) (air S) = Inr (p, again, ch)"
    and c: "bc_woken ch = bc_woken (air S) @ calls" "0 \<notin> set calls"
    and T: "T = S\<lparr>air := ch, speaker := p, awake := awake S - {0} \<union> (if again then {0} else {}) \<union> set calls\<rparr>"
    and t: "club_holds ops ns T sh'" "eases ops (length ns) S T"
    and less: "speaker_work p < speaker_work (speaker S) \<or> speaker_work p = speaker_work (speaker S) \<and> \<not> again"
    unfolding spoke_def by blast
  have "(\<Sum>k\<in>audience S. share ops (length ns) T k) \<le> (\<Sum>k\<in>audience S. share ops (length ns) S k)"
    using t(2) unfolding eases_def by (blast intro: sum_mono)
  moreover have "0 \<in> awake T \<Longrightarrow> again" using c(2) by (auto simp: T split: if_splits)
  moreover have "audience T = audience S" "speaker T = p" by (simp_all add: T)
  ultimately have "club_work ops (length ns) T < club_work ops (length ns) S"
    using less a(1) by (cases "0 \<in> awake T"; elim disjE) (simp_all add: club_work_def)
  moreover have "run_club ops prog 0 S = Inr T" using r club_awake_after [OF c(1)] by (simp add: T)
  moreover have "club_inv ops ns T" using t(1) assms(2) by (auto simp: club_inv_def)
  ultimately show ?thesis by blast
qed

lemma run_listener_ok:
  assumes "club_holds ops ns S sh" and "length ns < 2 ^ 64" and "runnable (Suc k) S"
  shows "\<exists>S'. run_club ops prog (Suc k) S = Inr S' \<and> club_inv ops ns S' \<and>
     club_work ops (length ns) S' < club_work ops (length ns) S"
proof -
  from assms(3) have a: "Suc k \<in> awake S" "k \<in> audience S" "\<not> is_left (listener S k)" by simp_all
  with club_holdsD(3) [OF assms(1), of k] obtain r where r: "slab_get ops k (receivers sh) = Some r" by (auto simp: in_room_def)
  have "listened ns k S (listen ops (listener_yields prog) (Suc (length (in_buffer ops (air S) k))) k
      (heard (listener S k)) (air S))"
    by (rule listen_listened [OF assms(1) r a(1)]) (simp add: in_buffer_eq [OF assms(1)] r)
  moreover have "listener_poll ops (listener_yields prog) k (listener S k) (air S) =
      listen ops (listener_yields prog) (Suc (length (in_buffer ops (air S) k))) k (heard (listener S k)) (air S)"
    using a(3) by (cases "listener S k") simp_all
  ultimately obtain l again ch calls sh' T where
    p: "listener_poll ops (listener_yields prog) k (listener S k) (air S) = Inr (l, again, ch)"
    and c: "bc_woken ch = bc_woken (air S) @ calls"
    and T: "T = S\<lparr>air := ch, listener := (listener S)(k := l),
      awake := awake S - {Suc k} \<union> (if again then {Suc k} else {}) \<union> set calls\<rparr>"
    and t: "club_holds ops ns T sh'" "share ops (length ns) T k + 2 \<le> share ops (length ns) S k"
      "\<forall>j. j \<noteq> k \<longrightarrow> share ops (length ns) T j = share ops (length ns) S j"
    unfolding listened_def by auto
  have "(\<Sum>j\<in>audience S - {k}. share ops (length ns) T j) = (\<Sum>j\<in>audience S - {k}. share ops (length ns) S j)"
    using t(3) by (intro sum.cong) auto
  with t(2) have "(\<Sum>j\<in>audience S. share ops (length ns) T j) + 2 \<le> (\<Sum>j\<in>audience S. share ops (length ns) S j)"
    unfolding sum.remove [OF club_holdsD(2) [OF assms(1)] a(2)] by simp
  moreover have "audience T = audience S" "speaker T = speaker S" by (simp_all add: T)
  ultimately have "club_work ops (length ns) T < club_work ops (length ns) S" by (simp add: club_work_def)
  moreover have "run_club ops prog (Suc k) S = Inr T" using p club_awake_after [OF c] by (simp add: T)
  moreover have "club_inv ops ns T" using t(1) assms(2) by (auto simp: club_inv_def)
  ultimately show ?thesis by blast
qed

lemma run_club_ok:
  assumes "club_inv ops ns S" and "runnable w S"
  shows "\<exists>S'. run_club ops prog w S = Inr S' \<and> club_inv ops ns S' \<and>
     club_work ops (length ns) S' < club_work ops (length ns) S"
proof -
  from assms(1) obtain sh where "club_holds ops ns S sh" "length ns < 2 ^ 64" by (auto simp: club_inv_def)
  with assms(2) run_speaker_ok run_listener_ok show ?thesis by (cases w) blast+
qed

lemma club_can_run:
  assumes "club_inv ops ns S" and "\<not> club_done S"
  shows "\<exists>w. runnable w S"
proof -
  from assms(1) obtain sh where h: "club_holds ops ns S sh" by (auto simp: club_inv_def)
  note hd = club_holdsD [OF h]
  have up: "runnable (Suc k) S"
    if "slab_get ops k (receivers sh) = Some r" "is_spoken (speaker S) \<or> elems (rs_buf r) \<noteq> []" for k r
    using hd(3) [of k] hd(4) [OF that(1)] that
    by (auto simp: hears_def rx_holds_def asleep_as_def in_room_def split: if_splits)
  show ?thesis
  proof (cases "is_spoken (speaker S)")
    case True
    with assms(2) obtain k where "k \<in> in_room S" by (auto simp: club_done_def in_room_def)
    with hd(3) [of k] obtain r where "slab_get ops k (receivers sh) = Some r" by auto
    with up True show ?thesis by blast
  next
    case False
    show ?thesis
    proof (cases "0 \<in> awake S")
      case True
      with False have "runnable 0 S" by simp
      then show ?thesis ..
    next
      case f: False
      from hd(8) [OF f False] obtain k r where r: "slab_get ops k (receivers sh) = Some r" "rs_at_capacity r"
        by (auto simp: blocked_def)
      with hd(4) [OF r(1)] have "elems (rs_buf r) \<noteq> []"
        by (auto simp: hears_def rx_holds_def rs_at_capacity_def vd_len_def)
      with up r(1) show ?thesis by blast
    qed
  qed
qed

section \<open>The start\<close>

lemma seat_one:
  assumes "seated ops ks sh ch" and "card ks < 2 ^ 64 - 1"
  obtains k ch' sh' where "subscribe ops alloc ch = Inr (k, ch')" and "k \<notin> ks" and "seated ops (insert k ks) sh' ch'"
proof -
  have s: "broad_owned True (card ks) sh (bc_rc ch)" "finite ks" "current_id sh = 0" "sender sh = None"
    "per_receiver sh \<noteq> Some 0" "\<forall>k. slab_get ops k (receivers sh) \<noteq> None \<longleftrightarrow> k \<in> ks"
    "\<forall>k r. slab_get ops k (receivers sh) = Some r \<longrightarrow>
        rs_id r = 0 \<and> rs_waker r = None \<and> elems (rs_buf r) = [] \<and> rx_holds True None r"
    using assms(1) unfolding seated_def by blast+
  let ?r = "\<lparr>rs_id = current_id sh, rs_waker = None,
        rs_buf = vd_with_capacity alloc (unat (case per_receiver sh of Some c \<Rightarrow> c | None \<Rightarrow> default_capacity)),
        rs_unbounded = Option.is_none (per_receiver sh)\<rparr>"
  obtain k slab where i: "slab_insert ops ?r (receivers sh) = (k, slab)" by (metis surj_pair)
  note il = insert_law [OF i]
  then have k: "k \<notin> ks" using s(6) by blast
  from subscribe_eq [OF s(1) assms(2) i] obtain rc where
    rc: "subscribe ops alloc ch = Inr (k, ch\<lparr>bc_rc := rc\<rparr>)" "broad_owned True (Suc (card ks)) (sh\<lparr>receivers := slab\<rparr>) rc"
    by blast
  have "rx_holds True None ?r"
  proof (cases "per_receiver sh")
    case (Some c)
    with s(5) have "0 < unat c" by (auto simp: unat_gt_0)
    with alloc_law [of "unat c"] Some show ?thesis by (simp add: rx_holds_def vd_len_def)
  qed (simp add: rx_holds_def)
  then have "seated ops (insert k ks) (sh\<lparr>receivers := slab\<rparr>) (ch\<lparr>bc_rc := rc\<rparr>)"
    using s il rc(2) k by (simp add: seated_def)
  with rc(1) k show thesis by (rule that)
qed

lemma gather_seats:
  assumes "seated ops ks sh ch" and "card ks + n < 2 ^ 64"
  shows "\<exists>new ch' sh'. gather ops alloc n ch = Inr (new, ch') \<and> ks \<inter> new = {} \<and> finite new \<and> card new = n \<and>
     seated ops (ks \<union> new) sh' ch'"
  using assms
proof (induction n arbitrary: ks sh ch)
  case (Suc n)
  have f: "finite ks" using Suc.prems(1) by (simp add: seated_def)
  from Suc.prems(2) have "card ks < 2 ^ 64 - 1" by simp
  from seat_one [OF Suc.prems(1) this] obtain k ch1 sh1 where
    k: "subscribe ops alloc ch = Inr (k, ch1)" "k \<notin> ks" "seated ops (insert k ks) sh1 ch1" .
  have "card (insert k ks) + n < 2 ^ 64" using Suc.prems(2) k(2) f by simp
  from Suc.IH [OF k(3) this] obtain new ch' sh' where
    g: "gather ops alloc n ch1 = Inr (new, ch')" "insert k ks \<inter> new = {}" "finite new" "card new = n"
    "seated ops (insert k ks \<union> new) sh' ch'" by blast
  have "insert k ks \<union> new = ks \<union> insert k new" by blast
  with g(5) have "seated ops (ks \<union> insert k new) sh' ch'" by simp
  moreover have "gather ops alloc (Suc n) ch = Inr (insert k new, ch')" using k(1) g(1) by simp
  moreover have "ks \<inter> insert k new = {}" "card (insert k new) = Suc n" using k(2) g(2-4) by auto
  ultimately show ?case using g(3) by blast
qed auto

lemma club_seated:
  assumes "club_start ops alloc n ns S" and "n < 2 ^ 64"
  obtains kc sh where "S = open_club ns kc" and "finite (fst kc)" and "card (fst kc) = n" and "seated ops (fst kc) sh (snd kc)"
proof -
  from assms(1) obtain ch kc where c: "ch = unbounded_channel ops \<or> (\<exists>cap. channel ops cap = Inr ch)"
    and g: "gather ops alloc n ch = Inr kc" and S: "S = open_club ns kc"
    unfolding club_start_def by blast
  have "seated ops {} sh \<lparr>bc_rc = broad_rc_new sh, bc_woken = []\<rparr>"
    if "current_id sh = 0" "receivers sh = slab_new ops" "per_receiver sh \<noteq> Some 0" "sender sh = None" for sh
    using that broad.make_law [of sh] new_law by (simp add: seated_def)
  moreover from c obtain sh where "ch = \<lparr>bc_rc = broad_rc_new sh, bc_woken = []\<rparr>" "current_id sh = 0"
      "receivers sh = slab_new ops" "per_receiver sh \<noteq> Some 0" "sender sh = None"
    by (auto simp: unbounded_channel_def channel_def split: if_splits)
  ultimately have "\<exists>sh. seated ops {} sh ch" by blast
  then obtain sh where "seated ops {} sh ch" ..
  from gather_seats [OF this, of n] assms(2) g S show thesis by (auto intro: that)
qed

lemma club_start_audience: "club_start ops alloc n ns S \<Longrightarrow> n < 2 ^ 64 \<Longrightarrow> card (audience S) = n"
  by (erule club_seated) (simp_all add: open_club_def)

lemma club_start_inv:
  assumes "club_start ops alloc n ns S" and "n < 2 ^ 64" and "length ns < 2 ^ 64"
  shows "club_inv ops ns S" and "club_work ops (length ns) S = n * (11 * length ns + 13) + 8 * length ns + 9"
proof -
  from club_seated [OF assms(1,2)] obtain kc sh where
    S: "S = open_club ns kc" and k: "finite (fst kc)" "card (fst kc) = n" "seated ops (fst kc) sh (snd kc)" .
  have room: "in_room S = fst kc" by (auto simp: S open_club_def in_room_def)
  have s: "broad_owned True n sh (bc_rc (snd kc))" "current_id sh = 0" "sender sh = None"
    "\<And>k. slab_get ops k (receivers sh) \<noteq> None \<longleftrightarrow> k \<in> fst kc"
    "\<And>k r. slab_get ops k (receivers sh) = Some r \<Longrightarrow>
        rs_id r = 0 \<and> rs_waker r = None \<and> elems (rs_buf r) = [] \<and> rx_holds True None r"
    using k(2,3) unfolding seated_def by blast+
  have "hears ns S (current_id sh) k r" if "slab_get ops k (receivers sh) = Some r" for k r
    using s(4) [of k] s(5) [OF that] that by (simp add: hears_def S open_club_def asleep_as_def)
  then have holds: "club_holds ops ns S sh"
    using s k(1,2) room by (intro club_holdsI) (simp_all add: S open_club_def)
  with assms(3) show "club_inv ops ns S" by (auto simp: club_inv_def)
  have "in_buffer ops (snd kc) k = []" for k
    using in_buffer_eq [OF holds, of k] s(5) [of k] by (simp add: S open_club_def split: option.splits)
  then have "share ops (length ns) S k = 11 * length ns + 13" if "k \<in> fst kc" for k
    using that by (simp add: share_def S open_club_def)
  then show "club_work ops (length ns) S = n * (11 * length ns + 13) + 8 * length ns + 9"
    using k(2) by (simp add: club_work_def S open_club_def)
qed

lemma club_bounded:
  assumes "n < 2 ^ 64" and "length ns < 2 ^ 64"
  shows "bounded_runs (club_start ops alloc n ns) (club_step ops prog) (club_inv ops ns) club_done (club_work ops (length ns))"
proof unfold_locales
  fix S
  assume S: "club_inv ops ns S" "\<not> club_done S"
  from club_can_run [OF this] obtain w where "runnable w S" ..
  with run_club_ok [OF S(1) this, of prog] show "\<exists>T. club_step ops prog S T" by (auto intro: club_step.run_club)
next
  fix S T
  assume S: "club_inv ops ns S" "club_step ops prog S T"
  then obtain w where "runnable w S" "run_club ops prog w S = Inr T" by (auto elim: club_stepE)
  with run_club_ok [OF S(1), of w prog] show "club_work ops (length ns) T < club_work ops (length ns) S" by simp
next
  fix S T
  assume S: "club_step ops prog S T" "club_inv ops ns S"
  then obtain w where "runnable w S" "run_club ops prog w S = Inr T" by (auto elim: club_stepE)
  with run_club_ok [OF S(2), of w prog] show "club_inv ops ns T" by simp
qed (use club_start_inv assms in blast)

lemma club_done_all:
  assumes "club_inv ops ns S" and "club_done S"
  shows "(\<forall>k\<in>audience S. listener S k = Left ns) \<and> speaker S = Spoken \<and> bc_rc (air S) = None"
proof -
  from assms(1) obtain sh where h: "club_holds ops ns S sh" by (auto simp: club_inv_def)
  note hd = club_holdsD [OF h]
  have "listener S k = Left ns" if "k \<in> audience S" for k
    using hd(5) [OF that] assms(2) that by (cases "listener S k") (auto simp: club_done_def)
  moreover have "in_room S = {}" using assms(2) by (auto simp: club_done_def in_room_def)
  moreover have "speaker S = Spoken" using assms(2) by (cases "speaker S") (simp_all add: club_done_def)
  ultimately show ?thesis using hd(1) by (simp add: broad_owned_def split: option.splits)
qed

end

section \<open>Every receiver gets every message\<close>

lemma run_club_audience: "run_club ops prog w S = Inr T \<Longrightarrow> audience T = audience S"
  by (cases w) (auto simp: and_then_eq_Inr)

lemma club_steps_audience: "(club_step ops prog ^^ m) S T \<Longrightarrow> audience T = audience S"
  by (induction m arbitrary: T) (auto elim!: club_stepE dest!: run_club_audience)

text \<open>C7.
  The tasks of the crate's test, for any number of receivers and any messages, on a bounded or an
  unbounded channel and for any slab that keeps the laws, always finish.  However the executor
  chooses among the tasks that are awake and wherever they yield, no call faults, there is no
  deadlock, and no run has more than \<open>n * (11 * l + 13) + 8 * l + 9\<close> polls for \<open>n\<close> receivers and \<open>l\<close>
  messages.  A run that cannot go on has brought every message to each of the \<open>n\<close> receivers, in order,
  and has freed the channel.
\<close>

theorem broadcast_every_schedule_delivers:
  assumes "receiver_slab ops alloc" and "club_start ops alloc n ns S" and "n < 2 ^ 64" and "length ns < 2 ^ 64"
    and "(club_step ops prog ^^ m) S T"
  shows "m \<le> n * (11 * length ns + 13) + 8 * length ns + 9 \<and>
     (\<forall>w. runnable w T \<longrightarrow> (\<exists>U. run_club ops prog w T = Inr U)) \<and>
     (card (audience T) = n \<and> (\<forall>k\<in>audience T. listener T k = Left ns) \<and> speaker T = Spoken \<and> bc_rc (air T) = None
      \<or> (\<exists>U. club_step ops prog T U))"
proof -
  have r: "club_inv ops ns T \<and> m \<le> club_work ops (length ns) S \<and> (club_done T \<or> (\<exists>U. club_step ops prog T U))"
    by (rule bounded_runs.run_continues [OF receiver_slab.club_bounded [OF assms(1,3,4)] assms(5,2)])
  have "\<exists>U. run_club ops prog w T = Inr U" if "runnable w T" for w
    using receiver_slab.run_club_ok [OF assms(1) _ that, of ns prog] r by blast
  moreover have "card (audience T) = n"
    using club_steps_audience [OF assms(5)] receiver_slab.club_start_audience [OF assms(1-3)] by simp
  ultimately show ?thesis
    using r receiver_slab.club_start_inv(2) [OF assms(1-4)] receiver_slab.club_done_all [OF assms(1), of ns T] by auto
qed

lemma run_clubs_steps: "run_clubs ops prog ws S = Inr T \<Longrightarrow> (club_step ops prog ^^ length ws) S T"
proof (induction ws arbitrary: S)
  case (Cons w ws)
  then obtain U where "runnable w S" "run_club ops prog w S = Inr U" "run_clubs ops prog ws U = Inr T"
    by (auto simp: and_then_eq_Inr split: if_splits)
  with Cons.IH [of U] have "club_step ops prog S U" "(club_step ops prog ^^ length ws) U T" by (auto intro: run_club)
  then show ?case unfolding list.size(4) add_Suc_right by (simp only: add_0_right relpowp_Suc_I2)
qed simp

theorem broadcast_every_schedule_delivers_witness:
  "\<exists>S T. test_broadcast vec_slab alloc_exact 2 3 = Inr S \<and>
     run_clubs vec_slab test_manners [1, 2, 0, 0, 1, 2, 0, 1, 2] S = Inr T \<and>
     (\<forall>k\<in>audience T. listener T k = Left [0, 1, 2]) \<and> card (audience T) = 2 \<and> bc_rc (air T) = None"
proof -
  let ?ws = "[1, 2, 0, 0, 1, 2, 0, 1, 2]"
  have "passes (and_then (test_broadcast vec_slab alloc_exact 2 3) (run_clubs vec_slab test_manners ?ws))
      (\<lambda>T. \<not> runnable 0 T \<and> \<not> runnable 1 T \<and> \<not> runnable 2 T \<and> audience T = {0, 1})"
    by code_simp
  then obtain S T where S: "test_broadcast vec_slab alloc_exact 2 3 = Inr S"
    and T: "run_clubs vec_slab test_manners ?ws S = Inr T" "\<not> runnable 0 T" "\<not> runnable 1 T" "\<not> runnable 2 T"
      "audience T = {0, 1}"
    by (elim passesE conjE) (cases "test_broadcast vec_slab alloc_exact 2 3"; simp del: run_clubs.simps)
  have start: "club_start vec_slab alloc_exact 2 [0..<3] S"
    using S unfolding club_start_def test_broadcast_def by (auto simp: and_then_eq_Inr)
  have "\<not> club_step vec_slab test_manners T U" for U
  proof
    assume "club_step vec_slab test_manners T U"
    then obtain w where "runnable w T" by (auto elim: club_stepE)
    with T(2-5) show False by (cases w) (auto simp: numeral_2_eq_2)
  qed
  with broadcast_every_schedule_delivers [OF vec_receivers.receiver_slab_axioms start _ _ run_clubs_steps [OF T(1)]]
  have "(\<forall>k\<in>audience T. listener T k = Left [0, 1, 2]) \<and> card (audience T) = 2 \<and> bc_rc (air T) = None"
    by (simp add: upt_rec)
  with S T(1) show ?thesis by blast
qed

end
