(* ===== verification/Spec2Isabelle.thy ===== *)
theory Spec2Isabelle
  imports Wait_List_Refinement Mutex_Tasks Semaphore_Refinement Semaphore_Props Semaphore_Tasks Once_Cell_Props Once_Cell_Tasks Spsc_Tests Spsc_Refinement Spsc_Tasks Oneshot_Refinement Oneshot_Tasks Broadcast_Refinement Broadcast_Tasks
begin

text \<open>
  A verification library for the crate \<open>unsync\<close>: unsynchronised primitives for single-threaded
  async Rust.  The crate has two layers of mechanisms and five primitives on top of them:

    \<^item> \<open>src/wait_list.rs\<close>, an intrusive queue of waiting futures, on which \<open>src/semaphore.rs\<close> and
      \<open>src/once_cell.rs\<close> are built;
    \<^item> \<open>src/bi_rc.rs\<close>, a cell shared by two owners, on which \<open>src/oneshot.rs\<close> and \<open>src/spsc.rs\<close> are
      built, and \<open>src/broad_rc.rs\<close>, a cell shared by one strong and many weak owners, on which
      \<open>src/broadcast.rs\<close> is built.

  \<^bold>\<open>How the code is modelled.\<close>  Each operation is a function on an explicit state that returns
  \<open>fault + result\<close> (\<open>res\<close> in \<open>Unsync_Prelude\<close>).  A panic, an abort and a use of a dangling pointer
  or of the wrong field of a union are the faults, so a theorem that a call returns \<open>Inr\<close> says that
  it does none of these.  An \<open>async fn\<close> is split at its suspension points: a function for its first
  poll, one for its later polls and one for dropping it while it is suspended, which runs the
  destructors of the locals that are alive there.  Destructors are called where the compiler
  inserts them.  A waker is a number, \<open>will_wake\<close> is equality, and calling wakers appends to a
  trace in the state.  \<open>usize\<close> is \<open>64 word\<close>; an addition that overflows panics, as in a build with
  overflow checks, unless the code calls \<open>checked_add\<close> or \<open>wrapping_sub\<close>.

  \<^bold>\<open>The theories.\<close>

    \<^item> \<open>Unsync_Prelude\<close>: faults, results, polls, wakers, \<open>usize\<close> arithmetic, pointer stores,
      reachability with the locale \<open>inductive_invariant\<close>, runs that must end with its extension
      \<open>bounded_runs\<close>, and scripts, which run a list of calls and check what is observed after each.
    \<^item> \<open>Call_Refinement\<close>: the contract of a refinement by calls, as the locales \<open>call_simulation\<close> (the
      specification may leave a choice open, and an invariant may spend a budget of calls) and
      \<open>call_refinement\<close> (it leaves none), from which the replies of whole sequences of calls agree; four
      components interpret them.
    \<^item> \<open>Wait_List\<close> (the code of \<open>wait_list.rs\<close> over a store of pinned waiters), \<open>Wait_List_Links\<close>
      (the doubly linked list in the store is a list of addresses, and what \<open>enqueue\<close> and \<open>dequeue\<close>
      do to it), \<open>Wait_List_Spec\<close> (the abstract queue: who is parked, who was released with what,
      who was woken; the locale \<open>wait_list_spec\<close> states the contract and its interpretation \<open>wl\<close>
      proves that the code refines it), \<open>Wait_List_System\<close> (any sequence of public calls, with its
      properties, the module's tests and the examples of its documentation),
      \<open>Wait_List_Refinement\<close> (any sequence of calls gives the replies of the abstract queue),
      \<open>Wait_List_Rouse\<close> (whoever leaves the queue is woken, for the systems of tasks below).
    \<^item> \<open>Mutex\<close>: the mutex that the documentation of \<open>WaitList\<close> builds; \<open>Mutex_Tasks\<close>: tasks that read
      a number behind it and write it back.
    \<^item> \<open>Semaphore\<close> (the code), \<open>Semaphore_Spec\<close> (how a release serves the abstract queue),
      \<open>Semaphore_Ops\<close> (every operation refines the abstract one and keeps the permit count),
      \<open>Semaphore_System\<close> (clients that hold guards and futures, with two invariants: conservation
      for all calls, settledness for those that do not drop the parked head),
      \<open>Semaphore_Refinement\<close> (any sequence of calls goes as on a bank that counts in natural numbers
      and keeps a line of waiters; from the bank follows that nobody jumps the queue),
      \<open>Semaphore_Props\<close> (the other properties, the tests and the examples of the documentation).
    \<^item> \<open>Once_Cell\<close>, \<open>Once_Cell_System\<close>, \<open>Once_Cell_Props\<close>: likewise for the cell; the initializer of
      the caller answers each poll as it likes: pending, a value, an error or a panic.
    \<^item> \<open>Utils\<close>, \<open>Bi_Rc\<close>, \<open>Broad_Rc\<close>: the shared cells with their contracts as the locales
      \<open>shared_cell\<close> and \<open>broad_cell\<close>, interpreted as \<open>rc\<close> and \<open>broad\<close> on the code.
    \<^item> \<open>Oneshot\<close>: the channel, its system, its properties and its examples; \<open>Oneshot_Refinement\<close>: its
      refinement of a parcel (what was sent and not received, who is there, who waits).
    \<^item> \<open>Vec_Deque\<close> (what the channels use of the standard library's deque), \<open>Spsc\<close>, \<open>Spsc_System\<close>,
      \<open>Spsc_Tests\<close>, \<open>Spsc_Refinement\<close>: the channel, its system with its properties, their
      witnesses with the tests, and the refinement of an abstract conduit (a list of messages with a
      limit, two ends, and who waits) by any sequence of calls on the channel.
    \<^item> \<open>Slab\<close>, \<open>Broadcast\<close>, \<open>Broadcast_System\<close>, \<open>Broadcast_Props\<close>: the \<open>slab\<close> crate is third-party
      code, so its operations are a parameter (\<open>slab_ops\<close>) whose documented laws are the locale
      \<open>slab_laws\<close>; the witnesses use a vector of optional entries as the slab.
      \<open>Broadcast_Refinement\<close>: its refinement of an audience (taken seats with limited lists of letters
      and a host who may be handing one out); which free seat a subscriber gets is the slab's choice.
    \<^item> \<open>Spsc_Tasks\<close> (the example of \<open>src/lib.rs\<close>, those of \<open>send\<close> and \<open>recv\<close>, and \<open>test_spsc\<close> of
      \<open>tests/spsc.rs\<close>), \<open>Oneshot_Tasks\<close> (\<open>test_oneshot\<close> of \<open>tests/oneshot.rs\<close>, which is the program
      of \<open>test_unsync\<close> in \<open>benches/channels.rs\<close>), \<open>Broadcast_Tasks\<close> (\<open>test_broadcast\<close> of
      \<open>tests/broadcast.rs\<close>): the tasks of these programs, written as the source writes them.
      \<open>Semaphore_Tasks\<close> and \<open>Once_Cell_Tasks\<close>: tasks that use a semaphore or a cell in all the ways
      its API allows; these clients, and those of \<open>Mutex_Tasks\<close>, are not taken from a source file.

  \<^bold>\<open>Systems.\<close>  A system is a record of the component's state with what ownership allows its clients:
  which ends are alive, which futures are suspended, which guards are held.  \<open>*_enabled\<close> says which
  calls the borrow checker admits, \<open>*_exec\<close> runs one, and the step relation takes any enabled call
  that completes.  The ghost fields (what was sent, received, returned, who sleeps) record the
  history that the properties speak of.  The properties quantify over all reachable states, so over
  every interleaving of polls, wake-ups, cancellations and drops.

  \<^bold>\<open>Tasks on an executor.\<close>  In the \<open>*_Tasks\<close> theories whole \<open>async\<close> tasks run: a poll of a task goes
  on from its suspension point until it has to wait again or yields.  The executor is free: a step
  polls any task that was woken since it last ran, and in \<open>Once_Cell_Tasks\<close> it may also abort any
  task.  Each of these systems interprets \<open>bounded_runs\<close> with a natural number of work left that
  every step lowers, so a run has a bounded length, and as long as a task is not done one can run:
  no schedule deadlocks, since no wake-up is missing.

  \<^bold>\<open>What is shown.\<close>  Memory safety and absence of panics of every component; the shape of the pointer
  list; the order and the exact recipients of wake-ups; the list as a
  full refinement of a queue, the semaphore of a bank, the spsc channel of a conduit, the oneshot channel
  of a parcel and the broadcast channel of an audience; conservation of permits; the baton protocol of the cell; delivery of
  every accepted message exactly once and in order, for each receiver of a broadcast; results and
  errors of the operations on every branch; that nobody waits for something that has already
  happened; and that systems of tasks finish under every schedule.  Waiting is not always in order:
  the semaphore leaves a waiter parked in front of enough permits when the parked future at the head
  of its queue is dropped, until permits are released or added (\<open>sem_cancelled_head_strands_permits\<close>), and \<open>sem_no_lost_wakeup\<close> shows that
  this is the only way; the mutex of the documentation loses a wake-up when a woken lock future is
  dropped, which leaves it free with futures parked until the next call of \<open>lock\<close>
  (\<open>mutex_cancelled_waker_strands\<close>).

  \<^bold>\<open>Bounds.\<close>  Loops are total functions: \<open>release_loop\<close> and \<open>wake_all\<close> wake one waiter a round and
  have the number of registered wakers as their measure; \<open>acquire_loop\<close> and the loop of the mutex go
  round at most once, since a fresh wait is always pending.  A task that receives from a broadcast
  loops with one unit of fuel more than its buffer holds messages, which is enough, since a further
  poll finds nothing.  The message identifier of a broadcast has 64 bits, and the exactness of its
  delivery is stated for the first \<open>2 ^ 64 - 2\<close> sends, after which it may repeat; the tasks over a
  broadcast have fewer messages and fewer receivers than that, and its refinement is of fewer than
  \<open>2 ^ 64 - 1\<close> calls.  The other runs of tasks are unbounded
  in their numbers of tasks and messages; each theorem states its bound on the polls.

  \<^bold>\<open>What is not modelled.\<close>  The \<open>Debug\<close> and \<open>Error\<close> implementations, which only print or are empty;
  the module declarations of \<open>src/lib.rs\<close>; the benchmarks of \<open>tokio\<close>'s channels and the measuring in
  \<open>benches/channels.rs\<close>; exhaustion of memory, which includes the panic of \<open>VecDeque::with_capacity\<close> on a capacity
  that overflows or cannot be allocated; effects of a \<open>Clone\<close> of the caller, whose result is the value itself; the width of
  the request counter of \<open>tests/oneshot.rs\<close>, a natural number here; and re-entrant calls made by a waker or a \<open>clone\<close> of
  the caller while an operation runs (an initializer of the cell answers without calling the cell).
\<close>

end
